(* ===== verification/Spandrel_Prelude.thy ===== *)
theory Spandrel_Prelude
  imports Main "HOL-Library.Word" "HOL-Library.Multiset"
begin

section \<open>Prelude: the Go types and library functions every component uses\<close>

text \<open>
  What this theory holds:
  \<^item> bytes, byte strings, and the 64-bit conversions \<open>int64\<close>/\<open>uint64\<close>;
  \<^item> \<open>time.Time\<close> and \<open>time.Duration\<close>. A \<open>Time\<close> is an instant, in nanoseconds since the
    Unix epoch; Go's zero time is 1 January of the year 1. A \<open>Duration\<close> is a signed 64-bit
    nanosecond count, kept as an \<open>int\<close>: \<open>Time.Sub\<close> saturates at its ends, as Go documents,
    and additions wrap where the source adds durations;
  \<^item> three-way comparisons as \<open>slices.SortFunc\<close> wants them: the locale \<open>comparator\<close> states
    the contract, the sorting lemmas are proved once inside it, and the combinators at the
    end of the theory build the comparisons of the components;
  \<^item> the collections \<open>go_time\<close> and \<open>cmp_defs\<close> that carry the component proofs.
\<close>

unbundle bit_operations_syntax

named_theorems go_time \<open>definitions of the time operations\<close>
named_theorems cmp_defs \<open>definitions of the comparison functions\<close>

subsection \<open>Bytes and strings\<close>

type_synonym byte = "8 word"
type_synonym uint32 = "32 word"
type_synonym uint64 = "64 word"

text \<open>A Go string is a sequence of bytes; a HOL \<open>char\<close> is one byte.\<close>

definition byte_of_char :: "char \<Rightarrow> byte" where
  "byte_of_char c = word_of_nat (of_char c)"

definition char_of_byte :: "byte \<Rightarrow> char" where
  "char_of_byte b = char_of (unat b)"

definition bytes_of_string :: "string \<Rightarrow> byte list" where
  "bytes_of_string s = map byte_of_char s"

definition string_of_bytes :: "byte list \<Rightarrow> string" where
  "string_of_bytes bs = map char_of_byte bs"

subsection \<open>Time and durations\<close>

type_synonym Time = int
type_synonym Duration = int

abbreviation Second :: Duration where "Second \<equiv> 1000000000"

text \<open>\<open>time.Time\<close>'s zero value: midnight of 1 January of the year 1, UTC.\<close>

definition zeroTime :: Time where
  "zeroTime = - 62135596800 * Second"

definition time_IsZero :: "Time \<Rightarrow> bool" where
  "time_IsZero t \<longleftrightarrow> t = zeroTime"

definition minDuration :: Duration where "minDuration = - (2 ^ 63)"
definition maxDuration :: Duration where "maxDuration = 2 ^ 63 - 1"

text \<open>\<open>t.Sub(u)\<close> saturates at the ends of the duration range.\<close>

definition time_Sub :: "Time \<Rightarrow> Time \<Rightarrow> Duration" where
  "time_Sub t u = max minDuration (min maxDuration (t - u))"

definition time_Compare :: "Time \<Rightarrow> Time \<Rightarrow> int" where
  "time_Compare t u = (if t < u then -1 else if u < t then 1 else 0)"

text \<open>The value of a signed 64-bit integer after wrap-around.\<close>

definition wrap64 :: "int \<Rightarrow> int" where
  "wrap64 n = (n + 2 ^ 63) mod 2 ^ 64 - 2 ^ 63"

definition in_int64 :: "int \<Rightarrow> bool" where
  "in_int64 n \<longleftrightarrow> - (2 ^ 63) \<le> n \<and> n < 2 ^ 63"

text \<open>Go's integer division truncates towards zero.\<close>

definition go_div :: "int \<Rightarrow> int \<Rightarrow> int" where
  "go_div a b = sgn a * sgn b * (\<bar>a\<bar> div \<bar>b\<bar>)"

text \<open>\<open>t.Unix()\<close>: whole seconds, rounded down (the sub-second part of a \<open>Time\<close> is never
  negative). \<open>t.UnixNano()\<close> wraps outside the int64 range.\<close>

definition time_Unix :: "Time \<Rightarrow> int" where
  "time_Unix t = t div Second"

definition time_UnixNano :: "Time \<Rightarrow> int" where
  "time_UnixNano t = wrap64 t"

declare time_Sub_def [go_time] time_IsZero_def [go_time]
  minDuration_def [go_time] maxDuration_def [go_time]

subsection \<open>Comparison and sorting\<close>

text \<open>\<open>slices.Compare\<close> on byte slices: the first difference decides, a prefix sorts first.\<close>

fun compareBytes :: "byte list \<Rightarrow> byte list \<Rightarrow> int" where
  "compareBytes [] [] = 0"
| "compareBytes [] (y # ys) = -1"
| "compareBytes (x # xs) [] = 1"
| "compareBytes (x # xs) (y # ys) =
     (if x < y then -1 else if y < x then 1 else compareBytes xs ys)"

text \<open>
  \<open>slices.SortFunc\<close> and \<open>slices.SortStableFunc\<close>. Both are modelled by a stable insertion
  sort. For \<open>SortFunc\<close>, which promises no stability, the lemma \<open>sortFunc_unique\<close> below
  shows that the choice does not matter where distinct elements never compare equal: every
  sorted permutation is then the same list.
\<close>

fun insertFunc :: "('a \<Rightarrow> 'a \<Rightarrow> int) \<Rightarrow> 'a \<Rightarrow> 'a list \<Rightarrow> 'a list" where
  "insertFunc cmp x [] = [x]"
| "insertFunc cmp x (y # ys) = (if cmp x y \<le> 0 then x # y # ys else y # insertFunc cmp x ys)"

fun sortFunc :: "('a \<Rightarrow> 'a \<Rightarrow> int) \<Rightarrow> 'a list \<Rightarrow> 'a list" where
  "sortFunc cmp [] = []"
| "sortFunc cmp (x # xs) = insertFunc cmp x (sortFunc cmp xs)"

text \<open>A comparison that falls back on a second one when the first finds no difference, and a
  comparison of a key.\<close>

definition thenCompare :: "('a \<Rightarrow> 'a \<Rightarrow> int) \<Rightarrow> ('a \<Rightarrow> 'a \<Rightarrow> int) \<Rightarrow> 'a \<Rightarrow> 'a \<Rightarrow> int" where
  "thenCompare c d x y = (let r = c x y in if r \<noteq> 0 then r else d x y)"

definition onKey :: "('a \<Rightarrow> 'b) \<Rightarrow> ('b \<Rightarrow> 'b \<Rightarrow> int) \<Rightarrow> 'a \<Rightarrow> 'a \<Rightarrow> int" where
  "onKey f c x y = c (f x) (f y)"

definition flipCompare :: "('a \<Rightarrow> 'a \<Rightarrow> int) \<Rightarrow> 'a \<Rightarrow> 'a \<Rightarrow> int" where
  "flipCompare c x y = c y x"

declare thenCompare_def [cmp_defs] onKey_def [cmp_defs] flipCompare_def [cmp_defs]
  time_Compare_def [cmp_defs]

subsection \<open>Lemmas: bytes and strings\<close>

lemma char_of_byte_inverse [simp]: "char_of_byte (byte_of_char c) = c"
proof -
  have "(of_char c :: nat) mod 256 = of_char c"
    by (metis char_of_char of_char_of)
  then have "(of_char c :: nat) < 256"
    by (metis mod_less_divisor zero_less_numeral)
  then show ?thesis
    by (simp add: char_of_byte_def byte_of_char_def unat_of_nat)
qed

lemma byte_of_char_inverse [simp]: "byte_of_char (char_of_byte b) = b"
proof -
  have "unat b < 256"
    using unsigned_less [of b, where 'a = nat] by simp
  then show ?thesis
    by (simp add: char_of_byte_def byte_of_char_def)
qed

lemma string_of_bytes_inverse [simp]: "string_of_bytes (bytes_of_string s) = s"
  by (simp add: string_of_bytes_def bytes_of_string_def comp_def)

lemma bytes_of_string_inverse [simp]: "bytes_of_string (string_of_bytes bs) = bs"
  by (simp add: string_of_bytes_def bytes_of_string_def comp_def)

lemma length_bytes_of_string [simp]: "length (bytes_of_string s) = length s"
  by (simp add: bytes_of_string_def)

lemma length_string_of_bytes [simp]: "length (string_of_bytes bs) = length bs"
  by (simp add: string_of_bytes_def)

lemma string_of_bytes_Nil_iff [simp]: "string_of_bytes bs = [] \<longleftrightarrow> bs = []"
  by (simp add: string_of_bytes_def)

subsection \<open>Lemmas: time and 64-bit integers\<close>

lemma wrap64_in_int64: "in_int64 (wrap64 n)"
proof -
  have "0 \<le> (n + 2 ^ 63) mod (2 ^ 64 :: int)" "(n + 2 ^ 63) mod (2 ^ 64 :: int) < 2 ^ 64"
    by simp_all
  then show ?thesis
    by (simp add: in_int64_def wrap64_def)
qed

lemma wrap64_id [simp]: "in_int64 n \<Longrightarrow> wrap64 n = n"
  by (simp add: in_int64_def wrap64_def)

lemma sint_word_of_int_in_int64 [simp]: "in_int64 n \<Longrightarrow> sint (word_of_int n :: uint64) = n"
  by (simp add: in_int64_def signed_of_int signed_take_bit_int_eq_self)

lemma in_int64_sint [simp]: "in_int64 (sint (w :: uint64))"
  using sint_greater_eq [of w] sint_lt [of w] by (simp add: in_int64_def)

lemma time_Sub_in_int64 [simp]: "in_int64 (time_Sub t u)"
  by (auto simp: in_int64_def go_time)

lemma time_Sub_nonneg_iff [simp]: "0 \<le> time_Sub t u \<longleftrightarrow> u \<le> t"
  by (auto simp: go_time)

lemma time_Sub_pos_iff [simp]: "0 < time_Sub t u \<longleftrightarrow> u < t"
  by (auto simp: go_time)

lemma time_Sub_self [simp]: "time_Sub t t = 0"
  by (simp add: go_time)

lemma time_Sub_exact: "in_int64 (t - u) \<Longrightarrow> time_Sub t u = t - u"
  by (auto simp: in_int64_def go_time)

lemma time_Sub_mono: "t \<le> t' \<Longrightarrow> time_Sub t u \<le> time_Sub t' u"
  by (auto simp: go_time)

lemma go_div_mono:
  assumes "0 < c" "a \<le> b"
  shows "go_div a c \<le> go_div b c"
proof -
  have *: "go_div x c = (if 0 \<le> x then x div c else - ((- x) div c))" for x
    using assms(1) by (auto simp: go_div_def sgn_if)
  have "(- b) div c \<le> (- a) div c" if "a < 0" "b < 0"
    using assms that by (intro zdiv_mono1) auto
  moreover have "- ((- a) div c) \<le> b div c" if "a < 0" "0 \<le> b"
  proof -
    have "0 \<le> (- a) div c" "0 \<le> b div c"
      using assms that by (auto intro: pos_imp_zdiv_nonneg_iff [THEN iffD2])
    then show ?thesis by simp
  qed
  moreover have "a div c \<le> b div c"
    using assms by (intro zdiv_mono1)
  ultimately show ?thesis
    using assms(2) by (auto simp: *)
qed

lemma time_Unix_mono: "t \<le> u \<Longrightarrow> time_Unix t \<le> time_Unix u"
  by (simp add: time_Unix_def zdiv_mono1)

subsection \<open>Lemmas: sorting\<close>

lemma mset_insertFunc [simp]: "mset (insertFunc cmp x xs) = add_mset x (mset xs)"
  by (induction xs) auto

lemma mset_sortFunc [simp]: "mset (sortFunc cmp xs) = mset xs"
  by (induction xs) auto

lemma set_insertFunc [simp]: "set (insertFunc cmp x xs) = insert x (set xs)"
  by (induction xs) auto

lemma set_sortFunc [simp]: "set (sortFunc cmp xs) = set xs"
  by (induction xs) auto

lemma length_sortFunc [simp]: "length (sortFunc cmp xs) = length xs"
  by (metis mset_sortFunc size_mset)

lemma distinct_sortFunc [simp]: "distinct (sortFunc cmp xs) \<longleftrightarrow> distinct xs"
  by (metis mset_eq_imp_distinct_iff mset_sortFunc)

lemma sortFunc_Nil_iff [simp]: "sortFunc cmp xs = [] \<longleftrightarrow> xs = []"
  by (metis length_0_conv length_sortFunc)

text \<open>Sorting with a comparison that agrees on the elements at hand.\<close>

lemma insertFunc_cong:
  "(\<And>y. y \<in> set xs \<Longrightarrow> c x y = d x y) \<Longrightarrow> insertFunc c x xs = insertFunc d x xs"
  by (induction xs) auto

lemma sortFunc_cong:
  "(\<And>x y. x \<in> set xs \<Longrightarrow> y \<in> set xs \<Longrightarrow> c x y = d x y) \<Longrightarrow> sortFunc c xs = sortFunc d xs"
proof (induction xs)
  case Nil
  then show ?case by simp
next
  case (Cons x xs)
  then have "sortFunc c xs = sortFunc d xs" by auto
  moreover have "insertFunc c x (sortFunc d xs) = insertFunc d x (sortFunc d xs)"
    by (rule insertFunc_cong) (auto intro: Cons.prems)
  ultimately show ?case by simp
qed

text \<open>
  The contract of a comparison function: swapping the arguments swaps the sign, and "not
  after" is transitive. This is the strict weak ordering \<open>slices.SortFunc\<close> asks for.
\<close>

locale comparator =
  fixes cmp :: "'a \<Rightarrow> 'a \<Rightarrow> int"
  assumes antisym: "cmp x y < 0 \<longleftrightarrow> 0 < cmp y x"
    and le_trans: "cmp x y \<le> 0 \<Longrightarrow> cmp y z \<le> 0 \<Longrightarrow> cmp x z \<le> 0"
begin

lemma self [simp]: "cmp x x = 0"
  using antisym [of x x] by linarith

lemma total: "cmp x y \<le> 0 \<or> cmp y x \<le> 0"
  using antisym [of y x] by linarith

lemma eq_sym: "cmp x y = 0 \<longleftrightarrow> cmp y x = 0"
  using antisym [of x y] antisym [of y x] by linarith

lemma not_le: "\<not> cmp x y \<le> 0 \<Longrightarrow> cmp y x \<le> 0"
  using total by blast

lemma sorted_insertFunc:
  "sorted_wrt (\<lambda>x y. cmp x y \<le> 0) xs \<Longrightarrow> sorted_wrt (\<lambda>x y. cmp x y \<le> 0) (insertFunc cmp x xs)"
  by (induction xs) (auto intro: le_trans dest: not_le)

lemma sorted_sortFunc: "sorted_wrt (\<lambda>x y. cmp x y \<le> 0) (sortFunc cmp xs)"
  by (induction xs) (auto intro: sorted_insertFunc)

text \<open>Where distinct elements never compare equal, a sorted permutation is unique.\<close>

lemma sorted_unique:
  assumes "mset xs = mset ys"
    and "sorted_wrt (\<lambda>x y. cmp x y \<le> 0) xs" "sorted_wrt (\<lambda>x y. cmp x y \<le> 0) ys"
    and "\<And>x y. x \<in> set xs \<Longrightarrow> y \<in> set xs \<Longrightarrow> cmp x y = 0 \<Longrightarrow> x = y"
  shows "xs = ys"
  using assms
proof (induction xs arbitrary: ys)
  case Nil
  then show ?case by simp
next
  case (Cons x xs)
  then obtain y ys' where ys: "ys = y # ys'"
    by (cases ys) auto
  have sets: "insert x (set xs) = insert y (set ys')"
    using Cons.prems(1) ys by (metis list.simps(15) mset_eq_setD)
  have "y \<in> insert x (set xs)" "x \<in> insert y (set ys')"
    using sets by auto
  then have "cmp x y \<le> 0" and "cmp y x \<le> 0"
    using Cons.prems(2,3) ys by auto
  then have "cmp x y = 0"
    using antisym [of x y] antisym [of y x] by linarith
  then have eq: "x = y"
    using Cons.prems(4) sets by auto
  have "xs = ys'"
    using Cons.prems eq ys by (intro Cons.IH) auto
  with eq ys show ?case by simp
qed

lemma sortFunc_unique:
  assumes "mset ys = mset xs" "sorted_wrt (\<lambda>x y. cmp x y \<le> 0) ys"
    and "\<And>x y. x \<in> set xs \<Longrightarrow> y \<in> set xs \<Longrightarrow> cmp x y = 0 \<Longrightarrow> x = y"
  shows "ys = sortFunc cmp xs"
proof (rule sorted_unique [OF _ assms(2) sorted_sortFunc])
  show "mset ys = mset (sortFunc cmp xs)"
    using assms(1) by simp
  show "x = y" if "x \<in> set ys" "y \<in> set ys" "cmp x y = 0" for x y
    using that assms(3) mset_eq_setD [OF assms(1)] by auto
qed

lemma sortFunc_perm:
  assumes "mset xs = mset ys"
    and "\<And>x y. x \<in> set xs \<Longrightarrow> y \<in> set xs \<Longrightarrow> cmp x y = 0 \<Longrightarrow> x = y"
  shows "sortFunc cmp xs = sortFunc cmp ys"
proof (rule sortFunc_unique)
  show "mset (sortFunc cmp xs) = mset ys"
    using assms(1) by simp
  show "x = y" if "x \<in> set ys" "y \<in> set ys" "cmp x y = 0" for x y
    using that assms(2) mset_eq_setD [OF assms(1)] by auto
qed (rule sorted_sortFunc)

text \<open>Elements that compare equal keep their order: the sort is stable.\<close>

lemma insertFunc_stable:
  "filter (\<lambda>y. cmp z y = 0) (insertFunc cmp x xs) = filter (\<lambda>y. cmp z y = 0) (x # xs)"
proof (induction xs)
  case Nil
  then show ?case by simp
next
  case (Cons y ys)
  show ?case
  proof (cases "cmp x y \<le> 0")
    case True
    then show ?thesis by simp
  next
    case False
    have "\<not> (cmp z x = 0 \<and> cmp z y = 0)"
    proof
      assume "cmp z x = 0 \<and> cmp z y = 0"
      then have "cmp x z \<le> 0" "cmp z y \<le> 0"
        using eq_sym [of z x] by auto
      then have "cmp x y \<le> 0" by (rule le_trans)
      with False show False by simp
    qed
    with False Cons.IH show ?thesis by auto
  qed
qed

lemma sortFunc_stable: "filter (\<lambda>y. cmp z y = 0) (sortFunc cmp xs) = filter (\<lambda>y. cmp z y = 0) xs"
  by (induction xs) (simp_all add: insertFunc_stable)

end

text \<open>The comparisons of the library, and the combinators, meet the contract.\<close>

interpretation time_cmp: comparator time_Compare
  by unfold_locales (auto simp: time_Compare_def split: if_splits)

lemma compareBytes_eq_0_iff [simp]: "compareBytes xs ys = 0 \<longleftrightarrow> xs = ys"
  by (induction xs ys rule: compareBytes.induct) auto

lemma compareBytes_flip: "compareBytes ys xs = - compareBytes xs ys"
  by (induction xs ys rule: compareBytes.induct) auto

lemma compareBytes_trans:
  "compareBytes xs ys \<le> 0 \<Longrightarrow> compareBytes ys zs \<le> 0 \<Longrightarrow> compareBytes xs zs \<le> 0"
proof (induction xs ys arbitrary: zs rule: compareBytes.induct)
  case (4 x xs y ys)
  then show ?case by (cases zs) (auto split: if_splits)
next
  case (2 y ys)
  then show ?case by (cases zs) auto
qed auto

interpretation bytes_cmp: comparator compareBytes
proof unfold_locales
  show "compareBytes x y < 0 \<longleftrightarrow> 0 < compareBytes y x" for x y
    using compareBytes_flip [of x y] by linarith
qed (rule compareBytes_trans)

lemma comparator_onKey: "comparator c \<Longrightarrow> comparator (onKey f c)"
  by (auto simp: comparator_def onKey_def)

lemma comparator_flip: "comparator c \<Longrightarrow> comparator (flipCompare c)"
  unfolding comparator_def flipCompare_def by blast

lemma comparator_then:
  assumes "comparator c" "comparator d"
  shows "comparator (thenCompare c d)"
proof
  fix x y z
  show "thenCompare c d x y < 0 \<longleftrightarrow> 0 < thenCompare c d y x"
    using comparator.antisym [OF assms(1), of x y] comparator.antisym [OF assms(1), of y x]
      comparator.antisym [OF assms(2), of x y]
    by (auto simp: thenCompare_def Let_def)
  assume le: "thenCompare c d x y \<le> 0" "thenCompare c d y z \<le> 0"
  then have c: "c x y \<le> 0" "c y z \<le> 0"
    by (auto simp: thenCompare_def Let_def split: if_splits)
  then have xz: "c x z \<le> 0"
    by (rule comparator.le_trans [OF assms(1)])
  show "thenCompare c d x z \<le> 0"
  proof (cases "c x z = 0")
    case True
    then have zx: "c z x \<le> 0"
      using comparator.eq_sym [OF assms(1), of z x] by simp
    have "c y x \<le> 0" "c z y \<le> 0"
      using comparator.le_trans [OF assms(1)] c zx by blast+
    then have "c x y = 0" "c y z = 0"
      using c comparator.antisym [OF assms(1)] by (meson linorder_not_less order_antisym_conv)+
    then have "d x y \<le> 0" "d y z \<le> 0"
      using le by (auto simp: thenCompare_def Let_def)
    then have "d x z \<le> 0"
      by (rule comparator.le_trans [OF assms(2)])
    with True show ?thesis by (simp add: thenCompare_def)
  next
    case False
    with xz show ?thesis by (simp add: thenCompare_def Let_def)
  qed
qed

lemmas comparator_intros = comparator_onKey comparator_flip comparator_then
  time_cmp.comparator_axioms bytes_cmp.comparator_axioms

end
