(* ===== verification/Trace_Id.thy ===== *)
theory Trace_Id
  imports Spandrel_Prelude
begin

section \<open>Identifiers: internal/trace/id.go\<close>

text \<open>
  Trace and span identifiers are byte arrays of 16 and 8 bytes; the model keeps them as byte
  lists of that length. A Go function that returns an error returns \<open>None\<close> for nil here, and a
  function that writes through its slice argument returns the new contents. \<open>randomID\<close> loops
  until a draw is not all zero: the draws are an argument, and running out of them means the
  loop is still running.
\<close>

type_synonym TraceID = "byte list"
type_synonym SpanID = "byte list"

text \<open>The zero values of the two array types.\<close>

abbreviation zeroTraceID :: TraceID where "zeroTraceID \<equiv> replicate 16 0"
abbreviation zeroSpanID :: SpanID where "zeroSpanID \<equiv> replicate 8 0"

datatype IDError =
    ErrIDLength nat nat  \<comment> \<open>characters got, characters wanted\<close>
  | ErrIDHex
  | ErrIDZero

subsection \<open>encoding/hex\<close>

definition hexDigit :: "nat \<Rightarrow> char" where
  "hexDigit n = ''0123456789abcdef'' ! n"

definition hex_EncodeToString :: "byte list \<Rightarrow> string" where
  "hex_EncodeToString bs = concat (map (\<lambda>b. [hexDigit (unat b div 16), hexDigit (unat b mod 16)]) bs)"

definition fromHexChar :: "char \<Rightarrow> nat option" where
  "fromHexChar c = (let n = of_char c :: nat in
     if 48 \<le> n \<and> n \<le> 57 then Some (n - 48)
     else if 97 \<le> n \<and> n \<le> 102 then Some (n - 87)
     else if 65 \<le> n \<and> n \<le> 70 then Some (n - 55)
     else None)"

fun hex_Decode :: "string \<Rightarrow> byte list option" where
  "hex_Decode [] = Some []"
| "hex_Decode [c] = None"
| "hex_Decode (c # d # cs) =
     (case (fromHexChar c, fromHexChar d, hex_Decode cs) of
        (Some h, Some l, Some bs) \<Rightarrow> Some (word_of_nat (16 * h + l) # bs)
      | _ \<Rightarrow> None)"

text \<open>The lower-case form of a hexadecimal string.\<close>

definition lowerHexChar :: "char \<Rightarrow> char" where
  "lowerHexChar c = (let n = of_char c :: nat in if 65 \<le> n \<and> n \<le> 70 then char_of (n + 32) else c)"

subsection \<open>Parsing, printing, drawing\<close>

fun allZero :: "byte list \<Rightarrow> bool" where
  "allZero [] = True"
| "allZero (c # b) = (if c \<noteq> 0 then False else allZero b)"

definition parseID :: "string \<Rightarrow> byte list \<Rightarrow> byte list \<times> IDError option" where
  "parseID s out =
     (let want = length out * 2 in
      if length s \<noteq> want then (out, Some (ErrIDLength (length s) want))
      else case hex_Decode s of
             None \<Rightarrow> (out, Some ErrIDHex)
           | Some buf \<Rightarrow> if allZero buf then (out, Some ErrIDZero) else (buf, None))"

definition ParseTraceID :: "string \<Rightarrow> TraceID \<times> IDError option" where
  "ParseTraceID s = parseID s zeroTraceID"

definition ParseSpanID :: "string \<Rightarrow> SpanID \<times> IDError option" where
  "ParseSpanID s = parseID s zeroSpanID"

text \<open>\<open>rand.Read\<close> fills the slice or fails; each element of the list is one call's outcome.\<close>

fun randomID :: "('e + byte list) list \<Rightarrow> byte list \<Rightarrow> (byte list \<times> 'e option) option" where
  "randomID [] out = None"
| "randomID (Inl e # draws) out = Some (out, Some e)"
| "randomID (Inr bs # draws) out = (if \<not> allZero bs then Some (bs, None) else randomID draws bs)"

definition NewTraceID :: "('e + byte list) list \<Rightarrow> (TraceID \<times> 'e option) option" where
  "NewTraceID draws = randomID draws zeroTraceID"

definition NewSpanID :: "('e + byte list) list \<Rightarrow> (SpanID \<times> 'e option) option" where
  "NewSpanID draws = randomID draws zeroSpanID"

text \<open>\<open>IsValid\<close>, \<open>String\<close>, \<open>MarshalText\<close> and \<open>UnmarshalText\<close> have one body for both identifier
  types.\<close>

definition ID_IsValid :: "byte list \<Rightarrow> bool" where
  "ID_IsValid t = (\<not> allZero t)"

definition ID_String :: "byte list \<Rightarrow> string" where
  "ID_String t = hex_EncodeToString t"

definition ID_MarshalText :: "byte list \<Rightarrow> byte list" where
  "ID_MarshalText t = bytes_of_string (ID_String t)"

definition ID_UnmarshalText :: "byte list \<Rightarrow> byte list \<Rightarrow> byte list \<times> IDError option" where
  "ID_UnmarshalText t b = parseID (string_of_bytes b) t"

subsection \<open>Lemmas: hexadecimal\<close>

lemma allZero_iff: "allZero b \<longleftrightarrow> (\<forall>c \<in> set b. c = 0)"
  by (induction b) auto

lemma allZero_replicate_iff: "allZero b \<longleftrightarrow> b = replicate (length b) 0"
  by (induction b) auto

lemma zero_ids_invalid [simp]: "\<not> ID_IsValid (replicate n 0)"
  by (simp add: ID_IsValid_def allZero_iff)

lemma fromHexChar_hexDigit [simp]:
  assumes "n < 16"
  shows "fromHexChar (hexDigit n) = Some n"
proof -
  have "\<forall>n \<in> set [0..<16]. fromHexChar (hexDigit n) = Some n"
    by code_simp
  with assms show ?thesis by simp
qed

lemma fromHexChar_less: "fromHexChar c = Some n \<Longrightarrow> n < 16"
  by (auto simp: fromHexChar_def Let_def split: if_splits)

lemma hexDigit_eq:
  assumes "n < 16"
  shows "hexDigit n = char_of (if n < 10 then n + 48 else n + 87)"
proof -
  have "\<forall>n \<in> set [0..<16]. hexDigit n = char_of (if n < 10 then n + 48 else n + 87)"
    by code_simp
  with assms show ?thesis by simp
qed

lemma hexDigit_fromHexChar:
  assumes "fromHexChar c = Some n"
  shows "hexDigit n = lowerHexChar c"
proof -
  have "n < 16"
    using assms by (rule fromHexChar_less)
  then show ?thesis
    using assms char_of_char [of c, where 'a = nat]
    by (auto simp: hexDigit_eq fromHexChar_def lowerHexChar_def Let_def split: if_splits)
qed

lemma fromHexChar_lower: "fromHexChar (lowerHexChar c) = fromHexChar c"
  by (auto simp: fromHexChar_def lowerHexChar_def Let_def)

lemma hex_EncodeToString_simps [simp]:
  "hex_EncodeToString [] = []"
  "hex_EncodeToString (b # bs) = hexDigit (unat b div 16) # hexDigit (unat b mod 16) # hex_EncodeToString bs"
  by (simp_all add: hex_EncodeToString_def)

lemma length_hex_EncodeToString [simp]: "length (hex_EncodeToString bs) = 2 * length bs"
  by (induction bs) auto

lemma byte_less_256: "unat (b :: byte) < 256"
  using unsigned_less [of b, where 'a = nat] by simp

lemma hex_Decode_Encode [simp]: "hex_Decode (hex_EncodeToString bs) = Some bs"
proof (induction bs)
  case Nil
  then show ?case by simp
next
  case (Cons b bs)
  have "unat b div 16 < 16"
    using byte_less_256 [of b] by (simp add: less_mult_imp_div_less)
  with Cons.IH show ?case by simp
qed

lemma length_hex_Decode: "hex_Decode s = Some bs \<Longrightarrow> length s = 2 * length bs"
  by (induction s arbitrary: bs rule: hex_Decode.induct) (auto split: option.splits)

lemma unat_hex_byte: "h < 16 \<Longrightarrow> l < 16 \<Longrightarrow> unat (word_of_nat (16 * h + l) :: byte) = 16 * h + l"
  by (simp add: unat_of_nat del: of_nat_add of_nat_mult)

lemma Encode_hex_Decode: "hex_Decode s = Some bs \<Longrightarrow> hex_EncodeToString bs = map lowerHexChar s"
proof (induction s arbitrary: bs rule: hex_Decode.induct)
  case (3 c d cs)
  then obtain h l bs' where c: "fromHexChar c = Some h" and d: "fromHexChar d = Some l"
    and cs: "hex_Decode cs = Some bs'" and bs: "bs = word_of_nat (16 * h + l) # bs'"
    by (auto split: option.splits)
  have "h < 16" "l < 16"
    using c d by (auto dest: fromHexChar_less)
  with bs "3.IH" [OF cs] c d show ?case
    by (simp add: unat_hex_byte hexDigit_fromHexChar del: of_nat_add of_nat_mult)
qed auto

subsection \<open>Lemmas: parsing\<close>

lemma parseID_ok_iff:
  "parseID s out = (buf, None) \<longleftrightarrow>
     length s = 2 * length out \<and> hex_Decode s = Some buf \<and> ID_IsValid buf"
  by (auto simp: parseID_def Let_def ID_IsValid_def split: option.splits if_splits)

lemma parseID_error_keeps: "parseID s out = (out', Some e) \<Longrightarrow> out' = out"
  by (auto simp: parseID_def Let_def split: option.splits if_splits)

lemma length_parseID: "length (fst (parseID s out)) = length out"
  by (auto simp: parseID_def Let_def split: option.splits dest: length_hex_Decode)

lemma hex_Decode_lower: "hex_Decode (map lowerHexChar s) = hex_Decode s"
  by (induction s rule: hex_Decode.induct) (simp_all add: fromHexChar_lower)

text \<open>C27: parsing and printing are inverse. \<open>ParseTraceID\<close> accepts a string exactly when some
  valid 16-byte identifier prints as the string's lower-case form, and returns that
  identifier; so every printed identifier parses back, in either letter case, and nothing
  else is accepted.\<close>

theorem ParseTraceID_iff_String:
  "ParseTraceID s = (t, None) \<longleftrightarrow>
     length t = 16 \<and> ID_IsValid t \<and> map lowerHexChar s = ID_String t"
proof -
  have "hex_Decode s = Some t" if "map lowerHexChar s = hex_EncodeToString t"
    using that hex_Decode_lower hex_Decode_Encode by metis
  moreover have "length s = 2 * length t" if "hex_Decode s = Some t"
    using that by (rule length_hex_Decode)
  ultimately show ?thesis
    by (auto simp: ParseTraceID_def parseID_ok_iff ID_String_def Encode_hex_Decode)
qed

text \<open>Unmarshalling is atomic. \<open>UnmarshalText\<close> either fails and leaves the caller's
  identifier exactly as it was, or stores a valid identifier of the same length whose text
  form is the input in lower case.\<close>

theorem UnmarshalText_atomic:
  "case ID_UnmarshalText t b of
     (t', Some e) \<Rightarrow> t' = t
   | (t', None) \<Rightarrow> length t' = length t \<and> ID_IsValid t'
       \<and> ID_MarshalText t' = bytes_of_string (map lowerHexChar (string_of_bytes b))"
proof (cases "ID_UnmarshalText t b")
  case (Pair t' err)
  then show ?thesis
    using length_parseID [of "string_of_bytes b" t]
    by (auto simp: ID_UnmarshalText_def ID_MarshalText_def ID_String_def parseID_ok_iff
        Encode_hex_Decode dest: parseID_error_keeps split: option.splits)
qed

lemma randomID_skips: "\<forall>z \<in> set zs. allZero z \<Longrightarrow> \<not> allZero b
   \<Longrightarrow> randomID (map Inr zs @ Inr b # rest) out = Some (b, None)"
  by (induction zs arbitrary: out) auto

text \<open>A drawn identifier is usable. When \<open>rand.Read\<close> keeps succeeding until a draw that is
  not all zero, \<open>NewTraceID\<close> returns, and returns that draw, which is valid: the zero draws
  before it are discarded.\<close>

lemma NewTraceID_returns_valid:
  assumes "\<forall>z \<in> set zs. \<not> ID_IsValid z" and "ID_IsValid b"
  shows "NewTraceID (map Inr zs @ Inr b # rest) = Some (b, None)"
  using assms by (simp add: NewTraceID_def ID_IsValid_def randomID_skips)

end
