(* ===== verification/Go_Strconv.thy ===== *)
theory Go_Strconv
  imports Spandrel_Prelude
begin

section \<open>Decimal integers: strconv.FormatInt and strconv.ParseInt in base 10\<close>

text \<open>
  \<open>FormatInt\<close> prints the shortest decimal form. \<open>ParseInt\<close> takes an optional sign and at least
  one digit, and fails outside the int64 range. The disk store names its segment files with
  the first and reads the names back with the second.
\<close>

fun formatDigits :: "nat \<Rightarrow> string" where
  "formatDigits n =
     (if n < 10 then [char_of (48 + n)] else formatDigits (n div 10) @ [char_of (48 + n mod 10)])"

declare formatDigits.simps [simp del]

definition FormatInt :: "int \<Rightarrow> string" where
  "FormatInt i = (if i < 0 then CHR ''-'' # formatDigits (nat (- i)) else formatDigits (nat i))"

definition digitValue :: "char \<Rightarrow> nat option" where
  "digitValue c = (let n = of_char c :: nat in if 48 \<le> n \<and> n \<le> 57 then Some (n - 48) else None)"

fun parseDigits :: "nat \<Rightarrow> string \<Rightarrow> nat option" where
  "parseDigits acc [] = Some acc"
| "parseDigits acc (c # cs) =
     (case digitValue c of None \<Rightarrow> None | Some d \<Rightarrow> parseDigits (10 * acc + d) cs)"

definition ParseUint :: "string \<Rightarrow> nat option" where
  "ParseUint s = (if s = [] then None else parseDigits 0 s)"

definition ParseInt :: "string \<Rightarrow> int option" where
  "ParseInt s =
     (let neg = (s \<noteq> [] \<and> hd s = CHR ''-'');
          body = (if s \<noteq> [] \<and> (hd s = CHR ''-'' \<or> hd s = CHR ''+'') then tl s else s)
      in case ParseUint body of
           None \<Rightarrow> None
         | Some n \<Rightarrow> let i = (if neg then - int n else int n) in if in_int64 i then Some i else None)"

subsection \<open>Lemmas\<close>

lemma of_char_digit [simp]: "n < 10 \<Longrightarrow> (of_char (char_of (48 + n)) :: nat) = 48 + n"
  by simp

lemma digitValue_digit [simp]: "n < 10 \<Longrightarrow> digitValue (char_of (48 + n)) = Some n"
  by (simp add: digitValue_def)

lemma formatDigits_not_Nil [simp]: "formatDigits n \<noteq> []"
  by (subst formatDigits.simps) simp

lemma formatDigits_digits: "\<forall>c \<in> set (formatDigits n). digitValue c \<noteq> None"
proof (induction n rule: formatDigits.induct)
  case (1 n)
  then show ?case
    by (subst formatDigits.simps) auto
qed

lemma parseDigits_append:
  "parseDigits acc (xs @ ys) = (case parseDigits acc xs of None \<Rightarrow> None | Some a \<Rightarrow> parseDigits a ys)"
  by (induction xs arbitrary: acc) (auto split: option.splits)

lemma parseDigits_formatDigits [simp]: "parseDigits 0 (formatDigits n) = Some n"
proof (induction n rule: formatDigits.induct)
  case (1 n)
  show ?case
  proof (cases "n < 10")
    case True
    then show ?thesis by (subst formatDigits.simps) simp
  next
    case False
    with 1 have "parseDigits 0 (formatDigits (n div 10)) = Some (n div 10)" by simp
    with False show ?thesis
      by (subst formatDigits.simps) (simp add: parseDigits_append)
  qed
qed

lemma hd_formatDigits: "hd (formatDigits n) \<noteq> CHR ''-''" "hd (formatDigits n) \<noteq> CHR ''+''"
proof -
  have "digitValue (hd (formatDigits n)) \<noteq> None"
    using formatDigits_digits [of n] by simp
  moreover have "digitValue (CHR ''-'') = None" "digitValue (CHR ''+'') = None"
    by (simp_all add: digitValue_def)
  ultimately show "hd (formatDigits n) \<noteq> CHR ''-''" "hd (formatDigits n) \<noteq> CHR ''+''"
    by metis+
qed

lemma ParseInt_FormatInt [simp]: "in_int64 i \<Longrightarrow> ParseInt (FormatInt i) = Some i"
  by (auto simp: ParseInt_def FormatInt_def ParseUint_def Let_def hd_formatDigits)

lemma FormatInt_inj: "in_int64 i \<Longrightarrow> in_int64 j \<Longrightarrow> FormatInt i = FormatInt j \<longleftrightarrow> i = j"
  by (metis ParseInt_FormatInt option.inject)

end
