(* ===== verification/Trace_Span.thy ===== *)
theory Trace_Span
  imports Trace_Id Go_Strconv
begin

section \<open>Attribute values and spans: internal/trace/value.go and span.go\<close>

text \<open>
  The three enumerations (\<open>ValueKind\<close>, \<open>SpanKind\<close>, \<open>StatusCode\<close>) are Go \<open>uint8\<close> types with named
  constants, not closed types: the codec converts any byte to a \<open>SpanKind\<close>. They are therefore
  8-bit words with constants. A \<open>float64\<close> inside a \<open>Value\<close> is only ever converted to and from
  its bits, so it is represented by its bits; its decimal rendering (\<open>strconv.FormatFloat\<close>) is
  an argument of \<open>Value_String\<close>.
\<close>

subsection \<open>Attribute values\<close>

type_synonym ValueKind = "8 word"

definition ValueInvalid :: ValueKind where "ValueInvalid = 0"
definition ValueString :: ValueKind where "ValueString = 1"
definition ValueBool :: ValueKind where "ValueBool = 2"
definition ValueInt :: ValueKind where "ValueInt = 3"
definition ValueFloat :: ValueKind where "ValueFloat = 4"

lemmas ValueKind_defs = ValueInvalid_def ValueString_def ValueBool_def ValueInt_def ValueFloat_def

definition ValueKind_String :: "ValueKind \<Rightarrow> string" where
  "ValueKind_String k =
     (if k = ValueString then ''string''
      else if k = ValueBool then ''bool''
      else if k = ValueInt then ''int''
      else if k = ValueFloat then ''float''
      else ''invalid'')"

record Value =
  vKind :: ValueKind
  vNum :: uint64
  vStr :: string

definition zeroValue :: Value where
  "zeroValue = \<lparr>vKind = 0, vNum = 0, vStr = []\<rparr>"

definition StringValue :: "string \<Rightarrow> Value" where
  "StringValue s = \<lparr>vKind = ValueString, vNum = 0, vStr = s\<rparr>"

definition BoolValue :: "bool \<Rightarrow> Value" where
  "BoolValue b = \<lparr>vKind = ValueBool, vNum = (if b then 1 else 0), vStr = []\<rparr>"

text \<open>The argument of \<open>IntValue\<close> is an \<open>int64\<close> in Go, an \<open>int\<close> satisfying \<open>in_int64\<close> here; \<open>FloatValue\<close>
  takes the bits of its \<open>float64\<close>.\<close>

definition IntValue :: "int \<Rightarrow> Value" where
  "IntValue i = \<lparr>vKind = ValueInt, vNum = word_of_int i, vStr = []\<rparr>"

definition FloatValue :: "uint64 \<Rightarrow> Value" where
  "FloatValue f = \<lparr>vKind = ValueFloat, vNum = f, vStr = []\<rparr>"

definition AsString :: "Value \<Rightarrow> string \<times> bool" where
  "AsString v = (if vKind v \<noteq> ValueString then ([], False) else (vStr v, True))"

definition AsBool :: "Value \<Rightarrow> bool \<times> bool" where
  "AsBool v = (if vKind v \<noteq> ValueBool then (False, False) else (vNum v = 1, True))"

definition AsInt :: "Value \<Rightarrow> int \<times> bool" where
  "AsInt v = (if vKind v \<noteq> ValueInt then (0, False) else (sint (vNum v), True))"

definition AsFloat :: "Value \<Rightarrow> uint64 \<times> bool" where
  "AsFloat v = (if vKind v \<noteq> ValueFloat then (0, False) else (vNum v, True))"

definition Value_String :: "(uint64 \<Rightarrow> string) \<Rightarrow> Value \<Rightarrow> string" where
  "Value_String formatFloat v =
     (if vKind v = ValueString then vStr v
      else if vKind v = ValueBool then (if vNum v = 1 then ''true'' else ''false'')
      else if vKind v = ValueInt then FormatInt (sint (vNum v))
      else if vKind v = ValueFloat then formatFloat (vNum v)
      else ''<invalid>'')"

record KeyValue =
  kvKey :: string
  kvValue :: Value

definition KeyValue_String :: "(uint64 \<Rightarrow> string) \<Rightarrow> KeyValue \<Rightarrow> string" where
  "KeyValue_String formatFloat kv = kvKey kv @ ''='' @ Value_String formatFloat (kvValue kv)"

subsection \<open>Spans\<close>

type_synonym SpanKind = "8 word"

definition SpanUnspecified :: SpanKind where "SpanUnspecified = 0"
definition SpanInternal :: SpanKind where "SpanInternal = 1"
definition SpanServer :: SpanKind where "SpanServer = 2"
definition SpanClient :: SpanKind where "SpanClient = 3"
definition SpanProducer :: SpanKind where "SpanProducer = 4"
definition SpanConsumer :: SpanKind where "SpanConsumer = 5"

definition SpanKind_String :: "SpanKind \<Rightarrow> string" where
  "SpanKind_String k =
     (if k = SpanInternal then ''internal''
      else if k = SpanServer then ''server''
      else if k = SpanClient then ''client''
      else if k = SpanProducer then ''producer''
      else if k = SpanConsumer then ''consumer''
      else ''unspecified'')"

type_synonym StatusCode = "8 word"

definition StatusUnset :: StatusCode where "StatusUnset = 0"
definition StatusOK :: StatusCode where "StatusOK = 1"
definition StatusError :: StatusCode where "StatusError = 2"

definition StatusCode_String :: "StatusCode \<Rightarrow> string" where
  "StatusCode_String c =
     (if c = StatusOK then ''ok'' else if c = StatusError then ''error'' else ''unset'')"

record Status =
  stCode :: StatusCode
  stMessage :: string

record Span =
  sTraceID :: TraceID
  sSpanID :: SpanID
  sParentSpanID :: SpanID
  sName :: string
  sKind :: SpanKind
  sService :: string
  sStart :: Time
  sEnd :: Time
  sStatus :: Status
  sAttributes :: "KeyValue list"
  sResource :: "KeyValue list"

text \<open>\<open>trace.Span{}\<close>: every field its zero value.\<close>

definition zeroSpan :: Span where
  "zeroSpan = \<lparr>sTraceID = zeroTraceID, sSpanID = zeroSpanID, sParentSpanID = zeroSpanID,
     sName = [], sKind = 0, sService = [], sStart = zeroTime, sEnd = zeroTime,
     sStatus = \<lparr>stCode = 0, stMessage = []\<rparr>, sAttributes = [], sResource = []\<rparr>"

datatype SpanError =
    ErrNoTraceID
  | ErrNoSpanID
  | ErrNoName SpanID
  | ErrNoService SpanID
  | ErrSelfParent SpanID
  | ErrNoStart SpanID
  | ErrNoEnd SpanID
  | ErrEndBeforeStart SpanID Time Time

definition Span_Duration :: "Span \<Rightarrow> Duration" where
  "Span_Duration s = time_Sub (sEnd s) (sStart s)"

definition IsRoot :: "Span \<Rightarrow> bool" where
  "IsRoot s = (\<not> ID_IsValid (sParentSpanID s))"

definition Failed :: "Span \<Rightarrow> bool" where
  "Failed s = (stCode (sStatus s) = StatusError)"

fun findAttribute :: "KeyValue list \<Rightarrow> string \<Rightarrow> Value \<times> bool" where
  "findAttribute [] key = (zeroValue, False)"
| "findAttribute (kv # kvs) key = (if kvKey kv = key then (kvValue kv, True) else findAttribute kvs key)"

definition Attribute :: "Span \<Rightarrow> string \<Rightarrow> Value \<times> bool" where
  "Attribute s key = findAttribute (sAttributes s) key"

definition Validate :: "Span \<Rightarrow> SpanError option" where
  "Validate s =
     (if \<not> ID_IsValid (sTraceID s) then Some ErrNoTraceID
      else if \<not> ID_IsValid (sSpanID s) then Some ErrNoSpanID
      else if sName s = [] then Some (ErrNoName (sSpanID s))
      else if sService s = [] then Some (ErrNoService (sSpanID s))
      else if sParentSpanID s = sSpanID s then Some (ErrSelfParent (sSpanID s))
      else if time_IsZero (sStart s) then Some (ErrNoStart (sSpanID s))
      else if time_IsZero (sEnd s) then Some (ErrNoEnd (sSpanID s))
      else if sEnd s < sStart s then Some (ErrEndBeforeStart (sSpanID s) (sStart s) (sEnd s))
      else None)"

text \<open>The values the four constructors and the zero value make: the fields the kind does not use
  are zero, as they are for every \<open>Value\<close> built outside the package.\<close>

definition wf_Value :: "Value \<Rightarrow> bool" where
  "wf_Value v \<longleftrightarrow>
     (vKind v = ValueInvalid \<and> v = zeroValue)
     \<or> (vKind v = ValueString \<and> vNum v = 0)
     \<or> (vKind v = ValueBool \<and> vNum v \<in> {0, 1} \<and> vStr v = [])
     \<or> (vKind v \<in> {ValueInt, ValueFloat} \<and> vStr v = [])"

text \<open>The shape Go's types give every span: array lengths, and attribute values made by the
  constructors.\<close>

definition wf_Span :: "Span \<Rightarrow> bool" where
  "wf_Span s \<longleftrightarrow> length (sTraceID s) = 16 \<and> length (sSpanID s) = 8 \<and> length (sParentSpanID s) = 8
     \<and> (\<forall>kv \<in> set (sAttributes s) \<union> set (sResource s). wf_Value (kvValue kv))"

text \<open>Concrete spans for the evaluated examples of the development.\<close>

definition exampleID :: "nat \<Rightarrow> byte \<Rightarrow> byte list" where
  "exampleID n b = b # replicate (n - 1) 0"

definition exampleSpan :: "byte \<Rightarrow> byte \<Rightarrow> byte \<Rightarrow> Time \<Rightarrow> Time \<Rightarrow> Span" where
  "exampleSpan t i p start finish =
     zeroSpan\<lparr>sTraceID := exampleID 16 t, sSpanID := exampleID 8 i, sParentSpanID := exampleID 8 p,
       sName := ''op'', sService := ''svc'', sStart := start, sEnd := finish\<rparr>"

subsection \<open>Lemmas\<close>

lemma Validate_exampleSpan [simp]:
  "t \<noteq> 0 \<Longrightarrow> i \<noteq> 0 \<Longrightarrow> i \<noteq> p \<Longrightarrow> 0 \<le> start \<Longrightarrow> start \<le> finish \<Longrightarrow> Validate (exampleSpan t i p start finish) = None"
  by (simp add: Validate_def exampleSpan_def exampleID_def zeroSpan_def ID_IsValid_def time_IsZero_def zeroTime_def)

lemma wf_Value_constructors [simp]:
  "wf_Value zeroValue" "wf_Value (StringValue s)" "wf_Value (BoolValue b)"
  "wf_Value (IntValue i)" "wf_Value (FloatValue f)"
  by (simp_all add: wf_Value_def zeroValue_def StringValue_def BoolValue_def IntValue_def
      FloatValue_def ValueKind_defs)

lemma wf_Value_cases:
  assumes "wf_Value v"
  obtains (invalid) "v = zeroValue" | (string) s where "v = StringValue s"
    | (bool) b where "v = BoolValue b" | (int) i where "in_int64 i" "v = IntValue i"
    | (float) f where "v = FloatValue f"
proof -
  consider "vKind v = ValueInvalid" "v = zeroValue" | "vKind v = ValueString" "vNum v = 0"
    | "vKind v = ValueBool" "vNum v = 0 \<or> vNum v = 1" "vStr v = []"
    | "vKind v = ValueInt" "vStr v = []" | "vKind v = ValueFloat" "vStr v = []"
    using assms by (auto simp: wf_Value_def)
  then show thesis
  proof cases
    case 1
    then show thesis using invalid by simp
  next
    case 2
    then have "v = StringValue (vStr v)" by (simp add: StringValue_def)
    then show thesis by (rule string)
  next
    case 3
    then have "v = BoolValue (vNum v = 1)" by (auto simp: BoolValue_def)
    then show thesis by (rule bool)
  next
    case 4
    then have "v = IntValue (sint (vNum v))" by (simp add: IntValue_def)
    then show thesis using int in_int64_sint by blast
  next
    case 5
    then have "v = FloatValue (vNum v)" by (simp add: FloatValue_def)
    then show thesis by (rule float)
  qed
qed

lemma Value_accessors [simp]:
  "vKind zeroValue = ValueInvalid" "vKind (StringValue s) = ValueString"
  "vKind (BoolValue b) = ValueBool" "vKind (IntValue i) = ValueInt"
  "vKind (FloatValue f) = ValueFloat"
  "AsString (StringValue s) = (s, True)" "AsBool (BoolValue b) = (b, True)"
  "in_int64 i \<Longrightarrow> AsInt (IntValue i) = (i, True)" "AsFloat (FloatValue f) = (f, True)"
  by (simp_all add: zeroValue_def StringValue_def BoolValue_def IntValue_def FloatValue_def
      ValueKind_defs AsString_def AsBool_def AsInt_def AsFloat_def)

lemma Validate_None_iff:
  "Validate s = None \<longleftrightarrow> ID_IsValid (sTraceID s) \<and> ID_IsValid (sSpanID s) \<and> sName s \<noteq> []
     \<and> sService s \<noteq> [] \<and> sParentSpanID s \<noteq> sSpanID s \<and> sStart s \<noteq> zeroTime \<and> sEnd s \<noteq> zeroTime
     \<and> sStart s \<le> sEnd s"
  by (auto simp: Validate_def time_IsZero_def)

lemma Validate_duration: "Validate s = None \<Longrightarrow> 0 \<le> Span_Duration s"
  by (simp add: Validate_None_iff Span_Duration_def)

lemma findAttribute_map_of:
  "findAttribute kvs key = (case map_of (map (\<lambda>kv. (kvKey kv, kvValue kv)) kvs) key of
     None \<Rightarrow> (zeroValue, False) | Some v \<Rightarrow> (v, True))"
  by (induction kvs) auto

text \<open>On well-formed values each accessor is the inverse of its constructor, and answers zero and
  \<open>False\<close> on the values of another kind.\<close>

lemma accessor_iff:
  assumes "wf_Value v"
  shows "AsString v = (s, True) \<longleftrightarrow> v = StringValue s" "AsBool v = (b, True) \<longleftrightarrow> v = BoolValue b"
    "AsInt v = (i, True) \<longleftrightarrow> in_int64 i \<and> v = IntValue i" "AsFloat v = (f, True) \<longleftrightarrow> v = FloatValue f"
proof -
  note kinds = ValueKind_defs AsString_def AsBool_def AsInt_def AsFloat_def
  note constructors = zeroValue_def StringValue_def BoolValue_def IntValue_def FloatValue_def
  show "AsString v = (s, True) \<longleftrightarrow> v = StringValue s" "AsBool v = (b, True) \<longleftrightarrow> v = BoolValue b"
    "AsFloat v = (f, True) \<longleftrightarrow> v = FloatValue f"
    using assms by (cases rule: wf_Value_cases; auto simp: kinds constructors)+
  show "AsInt v = (i, True) \<longleftrightarrow> in_int64 i \<and> v = IntValue i"
  proof
    assume "AsInt v = (i, True)"
    with assms show "in_int64 i \<and> v = IntValue i"
      by (cases rule: wf_Value_cases) (auto simp: kinds constructors)
  qed auto
qed

lemma other_kind_iff:
  "vKind v \<noteq> ValueString \<longleftrightarrow> AsString v = ([], False)" "vKind v \<noteq> ValueBool \<longleftrightarrow> AsBool v = (False, False)"
  "vKind v \<noteq> ValueInt \<longleftrightarrow> AsInt v = (0, False)" "vKind v \<noteq> ValueFloat \<longleftrightarrow> AsFloat v = (0, False)"
  by (simp_all add: AsString_def AsBool_def AsInt_def AsFloat_def)

lemma zeroValue_iff:
  assumes "wf_Value v"
  shows "v = zeroValue \<longleftrightarrow> \<not> snd (AsString v) \<and> \<not> snd (AsBool v) \<and> \<not> snd (AsInt v) \<and> \<not> snd (AsFloat v)"
  using assms
proof (cases rule: wf_Value_cases)
  case invalid
  then show ?thesis
    by (simp add: AsString_def AsBool_def AsInt_def AsFloat_def ValueKind_defs)
qed (auto simp: zeroValue_def StringValue_def BoolValue_def IntValue_def FloatValue_def ValueKind_defs
    AsString_def AsBool_def AsInt_def AsFloat_def)

text \<open>C28: a \<open>Value\<close> is a tagged union. For every value the constructors can make, an accessor
  answers with \<open>x\<close> exactly when the value was built from \<open>x\<close> by the constructor of its kind (an
  \<open>int64\<close> in the case of \<open>AsInt\<close>), so accessors and constructors are inverse to each other in
  both directions; each accessor succeeds on the values of its kind alone and returns its zero
  on every other, and only the value of no kind answers none.\<close>

theorem Value_tagged_union:
  assumes "wf_Value v"
  shows "(AsString v = (s, True) \<longleftrightarrow> v = StringValue s)
    \<and> (AsBool v = (b, True) \<longleftrightarrow> v = BoolValue b)
    \<and> (AsInt v = (i, True) \<longleftrightarrow> in_int64 i \<and> v = IntValue i)
    \<and> (AsFloat v = (f, True) \<longleftrightarrow> v = FloatValue f)
    \<and> (vKind v \<noteq> ValueString \<longleftrightarrow> AsString v = ([], False)) \<and> (vKind v \<noteq> ValueBool \<longleftrightarrow> AsBool v = (False, False))
    \<and> (vKind v \<noteq> ValueInt \<longleftrightarrow> AsInt v = (0, False)) \<and> (vKind v \<noteq> ValueFloat \<longleftrightarrow> AsFloat v = (0, False))
    \<and> (v = zeroValue \<longleftrightarrow> \<not> snd (AsString v) \<and> \<not> snd (AsBool v) \<and> \<not> snd (AsInt v) \<and> \<not> snd (AsFloat v))"
  using accessor_iff [OF assms] other_kind_iff [of v] zeroValue_iff [OF assms] by auto

theorem Value_tagged_union_witness:
  "AsInt (IntValue (- 5)) = (- 5, True) \<and> AsString (IntValue (- 5)) = ([], False)"
proof -
  have "wf_Value (IntValue (- 5))" "in_int64 (- 5)" "vKind (IntValue (- 5)) \<noteq> ValueString"
    by (simp_all add: in_int64_def ValueKind_defs)
  with Value_tagged_union [of "IntValue (- 5)" "[]" False "- 5" 0] show ?thesis by blast
qed

text \<open>\<open>Attribute\<close> returns the first value under the key, and reports absence exactly when no
  attribute has the key; the resource attributes play no part.\<close>

theorem Attribute_first:
  "Attribute s key =
     (case filter (\<lambda>kv. kvKey kv = key) (sAttributes s) of
        [] \<Rightarrow> (zeroValue, False) | kv # _ \<Rightarrow> (kvValue kv, True))"
proof -
  have "findAttribute kvs key = (case filter (\<lambda>kv. kvKey kv = key) kvs of
      [] \<Rightarrow> (zeroValue, False) | kv # _ \<Rightarrow> (kvValue kv, True))" for kvs
    by (induction kvs) auto
  then show ?thesis by (simp add: Attribute_def)
qed

end
