(* ===== verification/Query.thy ===== *)
theory Query
  imports Trace_Span
begin

section \<open>Queries and summaries: internal/storage/storage.go\<close>

text \<open>
  A query is a conjunction: the span conditions must hold of one span, the window must overlap
  the trace. A Go \<open>int\<close> is an \<open>int\<close>.
\<close>

definition DefaultLimit :: int where "DefaultLimit = 20"
definition MaxLimit :: int where "MaxLimit = 1000"

record Query =
  qService :: string
  qOperation :: string
  qMinDuration :: Duration
  qMaxDuration :: Duration
  qStart :: Time
  qEnd :: Time
  qLimit :: int

datatype QueryError =
    OperationNeedsService
  | NegativeDuration
  | MaxBelowMin Duration Duration
  | WindowReversed
  | LimitOutOfRange

datatype StoreError =
    ErrNotFound
  | ErrClosed
  | ErrBadQuery QueryError
  | ErrInvalidSpan nat SpanError

definition Query_Validate :: "Query \<Rightarrow> QueryError option" where
  "Query_Validate q =
     (if qOperation q \<noteq> [] \<and> qService q = [] then Some OperationNeedsService
      else if qMinDuration q < 0 \<or> qMaxDuration q < 0 then Some NegativeDuration
      else if 0 < qMaxDuration q \<and> qMaxDuration q < qMinDuration q
        then Some (MaxBelowMin (qMaxDuration q) (qMinDuration q))
      else if \<not> time_IsZero (qStart q) \<and> \<not> time_IsZero (qEnd q) \<and> qEnd q < qStart q
        then Some WindowReversed
      else if qLimit q < 0 \<or> MaxLimit < qLimit q then Some LimitOutOfRange
      else None)"

definition Query_limit :: "Query \<Rightarrow> int" where
  "Query_limit q = (if qLimit q = 0 then DefaultLimit else qLimit q)"

definition hasSpanPredicate :: "Query \<Rightarrow> bool" where
  "hasSpanPredicate q \<longleftrightarrow> qService q \<noteq> [] \<or> 0 < qMinDuration q \<or> 0 < qMaxDuration q"

definition matchesSpan :: "Query \<Rightarrow> Span \<Rightarrow> bool" where
  "matchesSpan q s =
     (if qService q \<noteq> [] \<and> sService s \<noteq> qService q then False
      else if qOperation q \<noteq> [] \<and> sName s \<noteq> qOperation q then False
      else let d = Span_Duration s in
        if d < qMinDuration q then False
        else if 0 < qMaxDuration q \<and> qMaxDuration q < d then False
        else True)"

definition overlaps :: "Query \<Rightarrow> Time \<Rightarrow> Time \<Rightarrow> bool" where
  "overlaps q start finish =
     (if \<not> time_IsZero (qStart q) \<and> finish < qStart q then False
      else if \<not> time_IsZero (qEnd q) \<and> qEnd q < start then False
      else True)"

record Summary =
  smTraceID :: TraceID
  smRootService :: string
  smRootName :: string
  smComplete :: bool
  smStart :: Time
  smDuration :: Duration
  smSpans :: nat
  smFailed :: bool

subsection \<open>Lemmas\<close>

lemma Query_limit_bounds:
  assumes "Query_Validate q = None"
  shows "1 \<le> Query_limit q" "Query_limit q \<le> MaxLimit"
  using assms by (auto simp: Query_Validate_def Query_limit_def MaxLimit_def DefaultLimit_def
      split: if_splits)

lemma Query_operation_service: "Query_Validate q = None \<Longrightarrow> qOperation q \<noteq> [] \<Longrightarrow> qService q \<noteq> []"
  by (auto simp: Query_Validate_def split: if_splits)

lemma matchesSpan_service: "matchesSpan q s \<Longrightarrow> qService q \<noteq> [] \<Longrightarrow> sService s = qService q"
  by (auto simp: matchesSpan_def split: if_splits)

lemma matchesSpan_operation: "matchesSpan q s \<Longrightarrow> qOperation q \<noteq> [] \<Longrightarrow> sName s = qOperation q"
  by (auto simp: matchesSpan_def split: if_splits)

lemma matchesSpan_min: "matchesSpan q s \<Longrightarrow> qMinDuration q \<le> Span_Duration s"
  by (auto simp: matchesSpan_def Let_def split: if_splits)

end
