(* ===== verification/Go_Map.thy ===== *)
theory Go_Map
  imports Spandrel_Prelude "HOL-Library.Finite_Map" "HOL-Library.Char_ord" "HOL-Library.List_Lexorder"
    "HOL-Library.Product_Lexorder"
begin

section \<open>Go maps as finite maps\<close>

text \<open>
  A Go map is a finite map, a set made of a map to empty structs a finite set. Ranging over a
  map visits its keys in an unspecified order. The model visits them in increasing order
  (\<open>mapKeys\<close>); where the visiting order could matter, the operation takes the list of keys as
  an argument and a theorem shows that the order makes no difference.
\<close>

type_synonym 'a goset = "'a fset"

definition setElems :: "'a::linorder fset \<Rightarrow> 'a list" where
  "setElems S = sorted_list_of_fset S"

definition mapKeys :: "('k::linorder, 'v) fmap \<Rightarrow> 'k list" where
  "mapKeys m = setElems (fmdom m)"

definition mapLen :: "('k, 'v) fmap \<Rightarrow> nat" where
  "mapLen m = fcard (fmdom m)"

text \<open>\<open>m[k]\<close> for a map to sets or slices: the zero value when the key is absent.\<close>

definition getSet :: "('k, 'a fset) fmap \<Rightarrow> 'k \<Rightarrow> 'a fset" where
  "getSet m k = (case fmlookup m k of None \<Rightarrow> {||} | Some S \<Rightarrow> S)"

definition getSlice :: "('k, 'a list) fmap \<Rightarrow> 'k \<Rightarrow> 'a list" where
  "getSlice m k = (case fmlookup m k of None \<Rightarrow> [] | Some xs \<Rightarrow> xs)"

subsection \<open>Lemmas\<close>

lemma set_setElems [simp]: "set (setElems S) = fset S"
  by (simp add: setElems_def)

lemma distinct_setElems [simp]: "distinct (setElems S)"
  by (simp add: setElems_def sorted_list_of_fset.rep_eq)

lemma setElems_empty [simp]: "setElems {||} = []"
  by (simp add: setElems_def sorted_list_of_fset.rep_eq)

lemma setElems_finsert [simp]:
  "setElems (finsert x S) = (if x |\<in>| S then setElems S else insort x (setElems S))"
  by (cases "x |\<in>| S") (simp_all add: finsert_absorb setElems_def sorted_list_of_fset.rep_eq)

lemma set_mapKeys [simp]: "set (mapKeys m) = {k. fmlookup m k \<noteq> None}"
  by (auto simp: mapKeys_def fmlookup_dom_iff)

lemma distinct_mapKeys [simp]: "distinct (mapKeys m)"
  by (simp add: mapKeys_def)

lemma length_mapKeys [simp]: "length (mapKeys m) = mapLen m"
proof -
  have "length (mapKeys m) = card (set (mapKeys m))"
    by (simp only: distinct_card distinct_mapKeys)
  then show ?thesis
    by (simp add: mapKeys_def mapLen_def fcard.rep_eq)
qed

lemma mapKeys_empty [simp]: "mapKeys fmempty = []"
  by (simp add: mapKeys_def)

lemma mapLen_empty [simp]: "mapLen fmempty = 0"
  by (simp add: mapLen_def)

lemma mapLen_0_iff: "mapLen m = 0 \<longleftrightarrow> m = fmempty"
proof
  assume "mapLen m = 0"
  then have "fset (fmdom m) = {}"
    by (simp add: mapLen_def fcard.rep_eq)
  then show "m = fmempty"
    by (intro fmap_ext) (metis empty_iff fmdomI fmempty_lookup not_None_eq)
qed simp

lemma mapLen_fmupd: "mapLen (fmupd k v m) = (if fmlookup m k = None then Suc (mapLen m) else mapLen m)"
proof -
  have "k \<in> fset (fmdom m) \<longleftrightarrow> fmlookup m k \<noteq> None"
    by (auto simp: fmlookup_dom_iff)
  then show ?thesis
    by (simp add: mapLen_def fcard.rep_eq card_insert_if)
qed

lemma mapLen_fmdrop: "mapLen (fmdrop k m) = (if fmlookup m k = None then mapLen m else mapLen m - 1)"
proof -
  have "k \<in> fset (fmdom m) \<longleftrightarrow> fmlookup m k \<noteq> None"
    by (auto simp: fmlookup_dom_iff)
  then show ?thesis
    by (simp add: mapLen_def fcard.rep_eq card_Diff_singleton_if)
qed

lemma getSet_fmempty [simp]: "getSet fmempty k = {||}"
  by (simp add: getSet_def)

lemma getSlice_fmempty [simp]: "getSlice fmempty k = []"
  by (simp add: getSlice_def)

lemma getSlice_fmupd [simp]: "getSlice (fmupd k v m) k' = (if k' = k then v else getSlice m k')"
  by (simp add: getSlice_def)

lemma getSlice_fmdrop [simp]: "getSlice (fmdrop k m) k' = (if k' = k then [] else getSlice m k')"
  by (simp add: getSlice_def)

end
