(* ===== verification/Memory.thy ===== *)
theory Memory
  imports Query Go_Map
begin

section \<open>The in-memory store: internal/storage/memory.go\<close>

text \<open>
  \<open>Memory\<close> is a record; each method takes the store and returns its result and the store
  afterwards. The mutex serialises the methods, so each is one atomic step. The clock is an
  argument of \<open>EvictExpired\<close>. \<open>Find\<close> ranges over a set of candidates in an unspecified order:
  \<open>findOver\<close> takes the order as an argument. A nil dereference is the outcome \<open>None\<close>.

  The four secondary indexes share one contract, the locale \<open>trace_index\<close>: three of them are
  maps from a key to a set of trace identifiers (\<open>addTo\<close>, \<open>removeFrom\<close>), the fourth is an
  array of 65 sets. The invariant \<open>mem_inv\<close> says that every index holds exactly the keys the
  stored traces recorded, and that those cover the spans stored.
\<close>

subsection \<open>State\<close>

definition minuteIndexLimit :: int where "minuteIndexLimit = 24 * 60"

type_synonym idSet = "TraceID fset"
type_synonym opKey = "string \<times> string"

record indexKeys =
  kServices :: "string fset"
  kOperations :: "opKey fset"
  kDurations :: "nat fset"
  kMinutes :: "int fset"

record entry =
  eSpans :: "Span list"
  eBySpan :: "(SpanID, nat) fmap"
  eStart :: Time
  eEnd :: Time
  eKeys :: indexKeys

record Memory =
  mClosed :: bool
  mRetention :: Duration
  mTraces :: "(TraceID, entry) fmap"
  mByService :: "(string, idSet) fmap"
  mByOperation :: "(opKey, idSet) fmap"
  mByDuration :: "idSet list"
  mByMinute :: "(int, idSet) fmap"

definition NewMemory :: "Duration \<Rightarrow> Memory" where
  "NewMemory retention =
     \<lparr>mClosed = False, mRetention = retention, mTraces = fmempty, mByService = fmempty,
      mByOperation = fmempty, mByDuration = replicate 65 {||}, mByMinute = fmempty\<rparr>"

subsection \<open>Indexes\<close>

definition addTo :: "('k, idSet) fmap \<Rightarrow> 'k \<Rightarrow> TraceID \<Rightarrow> ('k, idSet) fmap" where
  "addTo index key tid = fmupd key (finsert tid (getSet index key)) index"

definition removeFrom :: "('k, idSet) fmap \<Rightarrow> 'k \<Rightarrow> TraceID \<Rightarrow> ('k, idSet) fmap" where
  "removeFrom index key tid =
     (let set' = getSet index key |-| {|tid|}
      in if set' = {||} then fmdrop key index else fmupd key set' index)"

definition addToArray :: "idSet list \<Rightarrow> nat \<Rightarrow> TraceID \<Rightarrow> idSet list" where
  "addToArray sets b tid = sets[b := finsert tid (sets ! b)]"

definition removeFromArray :: "idSet list \<Rightarrow> nat \<Rightarrow> TraceID \<Rightarrow> idSet list" where
  "removeFromArray sets b tid = sets[b := sets ! b |-| {|tid|}]"

text \<open>\<open>bits.Len64\<close>: the number of bits needed to represent a value.\<close>

fun Len64 :: "nat \<Rightarrow> nat" where
  "Len64 n = (if n = 0 then 0 else Suc (Len64 (n div 2)))"

declare Len64.simps [simp del]

definition durationBucket :: "Duration \<Rightarrow> nat" where
  "durationBucket d = (if d \<le> 0 then 0 else Len64 (nat d))"

definition startMinute :: "Time \<Rightarrow> int" where
  "startMinute t = go_div (time_Unix t) 60"

subsection \<open>Writing\<close>

definition newEntry :: "Span \<Rightarrow> entry" where
  "newEntry s = \<lparr>eSpans = [], eBySpan = fmempty, eStart = sStart s, eEnd = sEnd s,
     eKeys = \<lparr>kServices = {||}, kOperations = {||}, kDurations = {||}, kMinutes = {||}\<rparr>\<rparr>"

definition storeSpan :: "entry \<Rightarrow> Span \<Rightarrow> entry" where
  "storeSpan e s =
     (case fmlookup (eBySpan e) (sSpanID s) of
        Some i \<Rightarrow> e\<lparr>eSpans := (eSpans e)[i := s]\<rparr>
      | None \<Rightarrow> e\<lparr>eBySpan := fmupd (sSpanID s) (length (eSpans e)) (eBySpan e),
                   eSpans := eSpans e @ [s]\<rparr>)"

definition widen :: "entry \<Rightarrow> Span \<Rightarrow> entry" where
  "widen e s =
     (let e = (if sStart s < eStart e then e\<lparr>eStart := sStart s\<rparr> else e)
      in if eEnd e < sEnd s then e\<lparr>eEnd := sEnd s\<rparr> else e)"

definition addKeys :: "indexKeys \<Rightarrow> Span \<Rightarrow> indexKeys" where
  "addKeys k s =
     \<lparr>kServices = finsert (sService s) (kServices k),
      kOperations = finsert (sService s, sName s) (kOperations k),
      kDurations = finsert (durationBucket (Span_Duration s)) (kDurations k),
      kMinutes = finsert (startMinute (sStart s)) (kMinutes k)\<rparr>"

definition Memory_insert :: "Memory \<Rightarrow> Span \<Rightarrow> Memory" where
  "Memory_insert m s =
     (let tid = sTraceID s;
          e = (case fmlookup (mTraces m) tid of Some e \<Rightarrow> e | None \<Rightarrow> newEntry s);
          e = widen (storeSpan e s) s;
          e = e\<lparr>eKeys := addKeys (eKeys e) s\<rparr>
      in m\<lparr>mTraces := fmupd tid e (mTraces m),
           mByService := addTo (mByService m) (sService s) tid,
           mByOperation := addTo (mByOperation m) (sService s, sName s) tid,
           mByDuration := addToArray (mByDuration m) (durationBucket (Span_Duration s)) tid,
           mByMinute := addTo (mByMinute m) (startMinute (sStart s)) tid\<rparr>)"

text \<open>The first span of a batch that does not validate, with its position.\<close>

fun firstInvalid :: "nat \<Rightarrow> Span list \<Rightarrow> StoreError option" where
  "firstInvalid i [] = None"
| "firstInvalid i (s # ss) =
     (case Validate s of Some err \<Rightarrow> Some (ErrInvalidSpan i err) | None \<Rightarrow> firstInvalid (i + 1) ss)"

definition Memory_Write :: "Memory \<Rightarrow> Span list \<Rightarrow> StoreError option \<times> Memory" where
  "Memory_Write m spans =
     (case firstInvalid 0 spans of
        Some err \<Rightarrow> (Some err, m)
      | None \<Rightarrow>
          if mClosed m then (Some ErrClosed, m)
          else (None, foldl Memory_insert m spans))"

subsection \<open>Reading\<close>

definition byStartOnly :: "Span \<Rightarrow> Span \<Rightarrow> int" where
  "byStartOnly a b = time_Compare (sStart a) (sStart b)"

definition Memory_Trace :: "Memory \<Rightarrow> TraceID \<Rightarrow> StoreError + Span list" where
  "Memory_Trace m tid =
     (if mClosed m then Inl ErrClosed
      else case fmlookup (mTraces m) tid of
             None \<Rightarrow> Inl ErrNotFound
           | Some e \<Rightarrow> Inr (sortFunc byStartOnly (eSpans e)))"

definition unionSets :: "idSet list \<Rightarrow> idSet" where
  "unionSets sets = foldl (|\<union>|) {||} sets"

definition candidates :: "Memory \<Rightarrow> Query \<Rightarrow> idSet" where
  "candidates m q =
     (if qOperation q \<noteq> [] then getSet (mByOperation m) (qService q, qOperation q)
      else if qService q \<noteq> [] then getSet (mByService m) (qService q)
      else
        let first = startMinute (qStart q); last = startMinute (qEnd q)
        in if \<not> time_IsZero (qStart q) \<and> \<not> time_IsZero (qEnd q) \<and> last - first \<le> minuteIndexLimit
           then unionSets (map (getSet (mByMinute m)) [first - minuteIndexLimit..last])
           else if 0 < qMinDuration q
           then unionSets (drop (durationBucket (qMinDuration q)) (mByDuration m))
           else fmdom (mTraces m))"

text \<open>The loop of \<open>summarise\<close>: the head span, whether a root was seen, whether a span failed.\<close>

fun summariseLoop :: "Span list \<Rightarrow> Span option \<Rightarrow> bool \<Rightarrow> bool \<Rightarrow> Span option \<times> bool \<times> bool" where
  "summariseLoop [] head complete failed = (head, complete, failed)"
| "summariseLoop (s # ss) head complete failed =
     (let failed = (if Failed s then True else failed)
      in if IsRoot s then summariseLoop ss (Some s) True failed
         else if \<not> complete \<and> (case head of None \<Rightarrow> True | Some h \<Rightarrow> sStart s < sStart h)
         then summariseLoop ss (Some s) complete failed
         else summariseLoop ss head complete failed)"

definition summarise :: "TraceID \<Rightarrow> entry \<Rightarrow> Summary option" where
  "summarise tid e =
     (case summariseLoop (eSpans e) None False False of
        (None, _, _) \<Rightarrow> None
      | (Some head, complete, failed) \<Rightarrow>
          Some \<lparr>smTraceID = tid, smRootService = sService head, smRootName = sName head,
                smComplete = complete, smStart = eStart e,
                smDuration = time_Sub (eEnd e) (eStart e), smSpans = length (eSpans e),
                smFailed = failed\<rparr>)"

definition bySummary :: "Summary \<Rightarrow> Summary \<Rightarrow> int" where
  "bySummary a b =
     (let c = time_Compare (smStart b) (smStart a)
      in if c \<noteq> 0 then c else compareBytes (smTraceID a) (smTraceID b))"

text \<open>Whether the trace under an identifier passes the checks of the search loop.\<close>

definition selected :: "Query \<Rightarrow> entry \<Rightarrow> bool" where
  "selected q e \<longleftrightarrow> overlaps q (eStart e) (eEnd e)
     \<and> (hasSpanPredicate q \<longrightarrow> list_ex (matchesSpan q) (eSpans e))"

fun findLoop :: "Memory \<Rightarrow> Query \<Rightarrow> TraceID list \<Rightarrow> Summary list option" where
  "findLoop m q [] = Some []"
| "findLoop m q (tid # tids) =
     (case fmlookup (mTraces m) tid of
        None \<Rightarrow> findLoop m q tids
      | Some e \<Rightarrow>
          if \<not> selected q e then findLoop m q tids
          else case summarise tid e of
                 None \<Rightarrow> None
               | Some sm \<Rightarrow> map_option ((#) sm) (findLoop m q tids))"

definition findOver :: "TraceID list \<Rightarrow> Memory \<Rightarrow> Query \<Rightarrow> (StoreError + Summary list) option" where
  "findOver tids m q =
     (case Query_Validate q of
        Some err \<Rightarrow> Some (Inl (ErrBadQuery err))
      | None \<Rightarrow>
          if mClosed m then Some (Inl ErrClosed)
          else map_option (\<lambda>results.
                 let results = sortFunc bySummary results; n = nat (Query_limit q)
                 in Inr (if n < length results then take n results else results))
               (findLoop m q tids))"

definition Memory_Find :: "Memory \<Rightarrow> Query \<Rightarrow> (StoreError + Summary list) option" where
  "Memory_Find m q = findOver (setElems (candidates m q)) m q"

subsection \<open>Eviction, size, closing\<close>

text \<open>\<open>remove\<close> is called on identifiers read from the map of traces under the same lock, so the
  entry is always there; for an identifier that is not stored the Go code would dereference a
  nil entry, a case no caller can reach.\<close>

definition Memory_remove :: "Memory \<Rightarrow> TraceID \<Rightarrow> Memory" where
  "Memory_remove m tid =
     (case fmlookup (mTraces m) tid of
        None \<Rightarrow> m
      | Some e \<Rightarrow>
          m\<lparr>mTraces := fmdrop tid (mTraces m),
            mByService := foldl (\<lambda>ix k. removeFrom ix k tid) (mByService m) (setElems (kServices (eKeys e))),
            mByOperation := foldl (\<lambda>ix k. removeFrom ix k tid) (mByOperation m) (setElems (kOperations (eKeys e))),
            mByDuration := foldl (\<lambda>ix k. removeFromArray ix k tid) (mByDuration m) (setElems (kDurations (eKeys e))),
            mByMinute := foldl (\<lambda>ix k. removeFrom ix k tid) (mByMinute m) (setElems (kMinutes (eKeys e)))\<rparr>)"

definition expiredIn :: "Memory \<Rightarrow> Time \<Rightarrow> TraceID list" where
  "expiredIn m cutoff =
     filter (\<lambda>tid. case fmlookup (mTraces m) tid of None \<Rightarrow> False | Some e \<Rightarrow> eEnd e < cutoff)
       (mapKeys (mTraces m))"

definition Memory_EvictExpired :: "Time \<Rightarrow> Memory \<Rightarrow> nat \<times> Memory" where
  "Memory_EvictExpired now m =
     (if mRetention m \<le> 0 then (0, m)
      else let cutoff = now - mRetention m;
               expired = expiredIn m cutoff
           in (length expired, foldl Memory_remove m expired))"

definition Memory_Len :: "Memory \<Rightarrow> nat" where
  "Memory_Len m = mapLen (mTraces m)"

definition Memory_Close :: "Memory \<Rightarrow> Memory" where
  "Memory_Close m = m\<lparr>mClosed := True, mTraces := fmempty\<rparr>"

subsection \<open>The contract of an index\<close>

text \<open>What an index holds: \<open>R t k\<close> says that trace \<open>t\<close> is to be found under key \<open>k\<close>.\<close>

definition indexed :: "('k \<Rightarrow> idSet) \<Rightarrow> (TraceID \<Rightarrow> 'k \<Rightarrow> bool) \<Rightarrow> bool" where
  "indexed look R \<longleftrightarrow> (\<forall>k t. t |\<in>| look k \<longleftrightarrow> R t k)"

locale trace_index =
  fixes look :: "'ix \<Rightarrow> 'k \<Rightarrow> idSet"
    and add :: "'ix \<Rightarrow> 'k \<Rightarrow> TraceID \<Rightarrow> 'ix"
    and del :: "'ix \<Rightarrow> 'k \<Rightarrow> TraceID \<Rightarrow> 'ix"
    and key :: "'k \<Rightarrow> bool"
    and inv :: "'ix \<Rightarrow> bool"
  assumes look_add: "inv ix \<Longrightarrow> key k \<Longrightarrow> look (add ix k t) = (look ix)(k := finsert t (look ix k))"
    and look_del: "inv ix \<Longrightarrow> key k \<Longrightarrow> look (del ix k t) = (look ix)(k := look ix k |-| {|t|})"
    and inv_add: "inv ix \<Longrightarrow> key k \<Longrightarrow> inv (add ix k t)"
    and inv_del: "inv ix \<Longrightarrow> key k \<Longrightarrow> inv (del ix k t)"
begin

lemma inv_del_all: "inv ix \<Longrightarrow> \<forall>k \<in> set ks. key k \<Longrightarrow> inv (foldl (\<lambda>ix k. del ix k t) ix ks)"
  by (induction ks arbitrary: ix) (auto intro: inv_del)

lemma look_del_all:
  "inv ix \<Longrightarrow> \<forall>k \<in> set ks. key k \<Longrightarrow>
   look (foldl (\<lambda>ix k. del ix k t) ix ks) k = (if k \<in> set ks then look ix k |-| {|t|} else look ix k)"
proof (induction ks arbitrary: ix)
  case Nil
  then show ?case by simp
next
  case (Cons a ks)
  then show ?case
    by (auto simp: inv_del look_del)
qed

lemma indexed_add:
  "inv ix \<Longrightarrow> key k \<Longrightarrow> indexed (look ix) R \<Longrightarrow>
   indexed (look (add ix k t)) (\<lambda>t' k'. t' = t \<and> k' = k \<or> R t' k')"
  by (auto simp: indexed_def look_add)

lemma indexed_del_all:
  "inv ix \<Longrightarrow> \<forall>k \<in> set ks. key k \<Longrightarrow> indexed (look ix) R \<Longrightarrow> (\<And>k. R t k \<Longrightarrow> k \<in> set ks) \<Longrightarrow>
   indexed (look (foldl (\<lambda>ix k. del ix k t) ix ks)) (\<lambda>t' k. t' \<noteq> t \<and> R t' k)"
  unfolding indexed_def by (auto simp: look_del_all)

end

definition noEmptySets :: "('k, idSet) fmap \<Rightarrow> bool" where
  "noEmptySets ix \<longleftrightarrow> (\<forall>k. fmlookup ix k \<noteq> Some {||})"

definition arraySet :: "idSet list \<Rightarrow> nat \<Rightarrow> idSet" where
  "arraySet sets b = (if b < length sets then sets ! b else {||})"

interpretation map_index: trace_index getSet addTo removeFrom "\<lambda>_. True" noEmptySets
  by unfold_locales (auto simp: getSet_def addTo_def removeFrom_def noEmptySets_def Let_def fun_eq_iff
      split: option.splits)

interpretation array_index: trace_index arraySet addToArray removeFromArray "\<lambda>b. b < 65" "\<lambda>sets. length sets = 65"
  by unfold_locales (auto simp: arraySet_def addToArray_def removeFromArray_def nth_list_update fun_eq_iff)

subsection \<open>Duration buckets\<close>

lemma Len64_mono: "m \<le> n \<Longrightarrow> Len64 m \<le> Len64 n"
proof (induction m arbitrary: n rule: Len64.induct)
  case (1 m)
  show ?case
  proof (cases "m = 0")
    case True
    then show ?thesis by (simp add: Len64.simps [of 0])
  next
    case False
    with 1 have "Len64 (m div 2) \<le> Len64 (n div 2)"
      by (simp add: div_le_mono)
    with False 1 show ?thesis
      by (simp add: Len64.simps [of m] Len64.simps [of n])
  qed
qed

lemma Len64_bound: "n < 2 ^ k \<Longrightarrow> Len64 n \<le> k"
proof (induction k arbitrary: n)
  case 0
  then show ?case by (simp add: Len64.simps)
next
  case (Suc k)
  then have "Len64 (n div 2) \<le> k" by (simp add: less_mult_imp_div_less)
  then show ?case by (simp add: Len64.simps [of n])
qed

lemma durationBucket_mono: "d \<le> d' \<Longrightarrow> durationBucket d \<le> durationBucket d'"
  by (simp add: durationBucket_def Len64_mono)

lemma durationBucket_less: "in_int64 d \<Longrightarrow> durationBucket d < 65"
proof -
  assume "in_int64 d"
  then have "nat d < 2 ^ 63" if "0 < d"
    using that by (simp add: in_int64_def nat_less_iff)
  then show ?thesis
    using Len64_bound [of "nat d" 63] by (auto simp: durationBucket_def)
qed

lemma startMinute_mono: "t \<le> u \<Longrightarrow> startMinute t \<le> startMinute u"
  unfolding startMinute_def by (intro go_div_mono time_Unix_mono) auto

end
