(* ===== verification/Memory_Inv.thy ===== *)
theory Memory_Inv
  imports Memory
begin

section \<open>The in-memory store: its invariant, writes, reads and eviction\<close>

text \<open>
  The invariant \<open>mem_inv\<close>, that every operation keeps it, and what writing, reading a trace and
  evicting do. The abstract view of a stored trace is the list of its spans; writing a span is
  \<open>upsert\<close>: it replaces the span with the same identifier in place, or goes to the end.
\<close>

subsection \<open>Invariant and abstraction\<close>

text \<open>The keys of an entry cover a span.\<close>

definition covers :: "indexKeys \<Rightarrow> Span \<Rightarrow> bool" where
  "covers k s \<longleftrightarrow> sService s |\<in>| kServices k \<and> (sService s, sName s) |\<in>| kOperations k
     \<and> durationBucket (Span_Duration s) |\<in>| kDurations k \<and> startMinute (sStart s) |\<in>| kMinutes k"

definition positions :: "entry \<Rightarrow> bool" where
  "positions e \<longleftrightarrow> (\<forall>sid i. fmlookup (eBySpan e) sid = Some i \<longleftrightarrow>
     i < length (eSpans e) \<and> sSpanID (eSpans e ! i) = sid)"

definition entry_ok :: "TraceID \<Rightarrow> entry \<Rightarrow> bool" where
  "entry_ok t e \<longleftrightarrow> eSpans e \<noteq> [] \<and> positions e
     \<and> (\<forall>s \<in> set (eSpans e). Validate s = None \<and> sTraceID s = t \<and> eStart e \<le> sStart s
          \<and> sEnd s \<le> eEnd e \<and> covers (eKeys e) s)
     \<and> fset (kDurations (eKeys e)) \<subseteq> {..<65} \<and> startMinute (eStart e) |\<in>| kMinutes (eKeys e)"

definition recorded :: "(indexKeys \<Rightarrow> 'k fset) \<Rightarrow> (TraceID, entry) fmap \<Rightarrow> TraceID \<Rightarrow> 'k \<Rightarrow> bool" where
  "recorded sel traces t k \<longleftrightarrow> (\<exists>e. fmlookup traces t = Some e \<and> k |\<in>| sel (eKeys e))"

definition indexes_ok :: "Memory \<Rightarrow> bool" where
  "indexes_ok m \<longleftrightarrow>
     noEmptySets (mByService m) \<and> indexed (getSet (mByService m)) (recorded kServices (mTraces m))
     \<and> noEmptySets (mByOperation m) \<and> indexed (getSet (mByOperation m)) (recorded kOperations (mTraces m))
     \<and> length (mByDuration m) = 65 \<and> indexed (arraySet (mByDuration m)) (recorded kDurations (mTraces m))
     \<and> noEmptySets (mByMinute m) \<and> indexed (getSet (mByMinute m)) (recorded kMinutes (mTraces m))"

definition mem_inv :: "Memory \<Rightarrow> bool" where
  "mem_inv m \<longleftrightarrow> (if mClosed m then mTraces m = fmempty
     else (\<forall>t e. fmlookup (mTraces m) t = Some e \<longrightarrow> entry_ok t e) \<and> indexes_ok m)"

definition spansOf :: "Memory \<Rightarrow> TraceID \<Rightarrow> Span list" where
  "spansOf m t = (case fmlookup (mTraces m) t of None \<Rightarrow> [] | Some e \<Rightarrow> eSpans e)"

fun upsert :: "Span list \<Rightarrow> Span \<Rightarrow> Span list" where
  "upsert [] s = [s]"
| "upsert (x # xs) s = (if sSpanID x = sSpanID s then s # xs else x # upsert xs s)"

subsection \<open>Entries\<close>

lemma positions_distinct: "positions e \<Longrightarrow> distinct (map sSpanID (eSpans e))"
  unfolding positions_def distinct_conv_nth by (metis length_map nth_map option.inject)

lemma positions_None:
  assumes "positions e"
  shows "fmlookup (eBySpan e) sid = None \<longleftrightarrow> sid \<notin> sSpanID ` set (eSpans e)"
proof -
  have "fmlookup (eBySpan e) sid = None \<longleftrightarrow> (\<forall>i. fmlookup (eBySpan e) sid \<noteq> Some i)"
    by (cases "fmlookup (eBySpan e) sid") auto
  also have "\<dots> \<longleftrightarrow> (\<forall>i < length (eSpans e). sSpanID (eSpans e ! i) \<noteq> sid)"
    using assms by (auto simp: positions_def)
  also have "\<dots> \<longleftrightarrow> sid \<notin> sSpanID ` set (eSpans e)"
    by (auto simp: set_conv_nth)
  finally show ?thesis .
qed

lemma upsert_new: "sSpanID s \<notin> sSpanID ` set xs \<Longrightarrow> upsert xs s = xs @ [s]"
  by (induction xs) auto

lemma upsert_at:
  "distinct (map sSpanID xs) \<Longrightarrow> i < length xs \<Longrightarrow> sSpanID (xs ! i) = sSpanID s \<Longrightarrow>
   upsert xs s = xs[i := s]"
proof (induction xs arbitrary: i)
  case (Cons x xs)
  show ?case
  proof (cases i)
    case 0
    with Cons.prems show ?thesis by simp
  next
    case (Suc j)
    with Cons.prems have "sSpanID x \<noteq> sSpanID s"
      by (metis distinct.simps(2) length_Cons length_map list.simps(9) not_less_eq nth_Cons_Suc nth_map nth_mem)
    with Suc Cons show ?thesis by simp
  qed
qed simp

lemma set_upsert_subset: "set (upsert xs s) \<subseteq> insert s (set xs)"
  by (induction xs) auto

lemma upsert_not_Nil [simp]: "upsert xs s \<noteq> []"
  by (cases xs) auto

lemma eSpans_storeSpan: "positions e \<Longrightarrow> eSpans (storeSpan e s) = upsert (eSpans e) s"
  using positions_distinct [of e] positions_None [of e "sSpanID s"]
  by (auto simp: storeSpan_def positions_def upsert_new upsert_at split: option.splits)

lemma positions_storeSpan:
  assumes "positions e"
  shows "positions (storeSpan e s)"
proof (cases "fmlookup (eBySpan e) (sSpanID s)")
  case None
  then have "sSpanID s \<notin> sSpanID ` set (eSpans e)"
    using positions_None [OF assms] by simp
  then have "\<And>i. i < length (eSpans e) \<Longrightarrow> sSpanID (eSpans e ! i) \<noteq> sSpanID s"
    by (metis image_eqI nth_mem)
  moreover have "storeSpan e s = e\<lparr>eBySpan := fmupd (sSpanID s) (length (eSpans e)) (eBySpan e),
      eSpans := eSpans e @ [s]\<rparr>"
    using None by (simp add: storeSpan_def)
  ultimately show ?thesis
    using assms by (auto simp: positions_def nth_append less_Suc_eq)
next
  case (Some i)
  with assms have "i < length (eSpans e)" "sSpanID (eSpans e ! i) = sSpanID s"
    by (auto simp: positions_def)
  moreover have "storeSpan e s = e\<lparr>eSpans := (eSpans e)[i := s]\<rparr>"
    using Some by (simp add: storeSpan_def)
  ultimately show ?thesis
    using assms by (auto simp: positions_def nth_list_update)
qed

lemma storeSpan_simps [simp]:
  "eStart (storeSpan e s) = eStart e" "eEnd (storeSpan e s) = eEnd e" "eKeys (storeSpan e s) = eKeys e"
  by (simp_all add: storeSpan_def split: option.splits)

lemma widen_simps [simp]:
  "eSpans (widen e s) = eSpans e" "eBySpan (widen e s) = eBySpan e" "eKeys (widen e s) = eKeys e"
  "eStart (widen e s) = min (eStart e) (sStart s)" "eEnd (widen e s) = max (eEnd e) (sEnd s)"
  by (auto simp: widen_def Let_def)

lemma positions_cong: "eSpans e = eSpans e' \<Longrightarrow> eBySpan e = eBySpan e' \<Longrightarrow> positions e = positions e'"
  by (simp add: positions_def)

lemma positions_newEntry [simp]: "positions (newEntry s)"
  by (simp add: positions_def newEntry_def)

lemma covers_addKeys: "covers (addKeys k s) s" "covers k s' \<Longrightarrow> covers (addKeys k s) s'"
  by (auto simp: covers_def addKeys_def)

text \<open>The entry under a trace after a span was written to it.\<close>

definition updatedEntry :: "Memory \<Rightarrow> Span \<Rightarrow> entry" where
  "updatedEntry m s =
     (let e = widen (storeSpan (case fmlookup (mTraces m) (sTraceID s) of Some e \<Rightarrow> e | None \<Rightarrow> newEntry s) s) s
      in e\<lparr>eKeys := addKeys (eKeys e) s\<rparr>)"

lemma Memory_insert_eq:
  "Memory_insert m s = m\<lparr>mTraces := fmupd (sTraceID s) (updatedEntry m s) (mTraces m),
     mByService := addTo (mByService m) (sService s) (sTraceID s),
     mByOperation := addTo (mByOperation m) (sService s, sName s) (sTraceID s),
     mByDuration := addToArray (mByDuration m) (durationBucket (Span_Duration s)) (sTraceID s),
     mByMinute := addTo (mByMinute m) (startMinute (sStart s)) (sTraceID s)\<rparr>"
  by (simp add: Memory_insert_def updatedEntry_def Let_def)

lemma Span_Duration_bucket_less: "durationBucket (Span_Duration s) < 65"
  by (rule durationBucket_less) (simp add: Span_Duration_def)

lemma entry_ok_updated:
  assumes "Validate s = None" "\<And>e. fmlookup (mTraces m) (sTraceID s) = Some e \<Longrightarrow> entry_ok (sTraceID s) e"
  shows "entry_ok (sTraceID s) (updatedEntry m s)"
proof -
  define e where "e = (case fmlookup (mTraces m) (sTraceID s) of Some e \<Rightarrow> e | None \<Rightarrow> newEntry s)"
  define u where "u = updatedEntry m s"
  have pos: "positions e"
    using assms(2) by (auto simp: e_def entry_ok_def split: option.splits)
  have old: "\<forall>x \<in> set (eSpans e). Validate x = None \<and> sTraceID x = sTraceID s \<and> eStart e \<le> sStart x
      \<and> sEnd x \<le> eEnd e \<and> covers (eKeys e) x" "fset (kDurations (eKeys e)) \<subseteq> {..<65}"
    "startMinute (eStart e) |\<in>| kMinutes (eKeys e) \<or> eStart e = sStart s"
    using assms(2) by (auto simp: e_def entry_ok_def newEntry_def split: option.splits)
  have u: "u = (widen (storeSpan e s) s)\<lparr>eKeys := addKeys (eKeys e) s\<rparr>"
    by (simp add: u_def updatedEntry_def e_def Let_def)
  have fields: "eSpans u = upsert (eSpans e) s" "eStart u = min (eStart e) (sStart s)"
    "eEnd u = max (eEnd e) (sEnd s)" "eKeys u = addKeys (eKeys e) s" "positions u"
    using eSpans_storeSpan [OF pos, of s] positions_storeSpan [OF pos, of s]
    by (simp_all add: u positions_def)
  have "Validate x = None \<and> sTraceID x = sTraceID s \<and> eStart u \<le> sStart x
      \<and> sEnd x \<le> eEnd u \<and> covers (eKeys u) x" if "x \<in> set (eSpans u)" for x
  proof (cases "x = s")
    case True
    then show ?thesis using assms(1) covers_addKeys(1) by (simp add: fields)
  next
    case False
    then have "x \<in> set (eSpans e)"
      using that set_upsert_subset [of "eSpans e" s] by (auto simp: fields)
    then show ?thesis using old(1) covers_addKeys(2) by (auto simp: fields)
  qed
  moreover have "fset (kDurations (eKeys u)) \<subseteq> {..<65}"
    using old(2) Span_Duration_bucket_less [of s] by (simp add: fields addKeys_def)
  moreover have "startMinute (eStart u) |\<in>| kMinutes (eKeys u)"
    using old(3) by (auto simp: fields addKeys_def min_def)
  ultimately show ?thesis
    by (simp add: entry_ok_def fields flip: u_def)
qed

subsection \<open>Every operation keeps the invariant\<close>

lemma recorded_fmupd:
  "recorded sel (fmupd t e traces) = (\<lambda>t' k. if t' = t then k |\<in>| sel (eKeys e) else recorded sel traces t' k)"
  by (auto simp: recorded_def fun_eq_iff)

lemma recorded_updated:
  assumes "\<And>ks k. k |\<in>| sel (addKeys ks s) \<longleftrightarrow> k = key \<or> k |\<in>| sel ks"
    and "sel (eKeys (newEntry s)) = {||}"
  shows "recorded sel (fmupd (sTraceID s) (updatedEntry m s) (mTraces m))
    = (\<lambda>t k. t = sTraceID s \<and> k = key \<or> recorded sel (mTraces m) t k)"
  using assms
  by (auto simp: recorded_def fun_eq_iff updatedEntry_def Let_def split: option.splits)

lemma mem_inv_insert:
  assumes "mem_inv m" "\<not> mClosed m" "Validate s = None"
  shows "mem_inv (Memory_insert m s)"
proof -
  let ?m = "Memory_insert m s"
  from assms have entries: "\<And>t e. fmlookup (mTraces m) t = Some e \<Longrightarrow> entry_ok t e" and ix: "indexes_ok m"
    by (auto simp: mem_inv_def)
  have "entry_ok t e" if "fmlookup (mTraces ?m) t = Some e" for t e
    using that entries entry_ok_updated [OF assms(3), of m]
    by (auto simp: Memory_insert_eq split: if_splits)
  moreover have "indexes_ok ?m"
  proof -
    note rec = recorded_updated [of _ s _ m]
    have "recorded kServices (mTraces ?m)
        = (\<lambda>t k. t = sTraceID s \<and> k = sService s \<or> recorded kServices (mTraces m) t k)"
      "recorded kOperations (mTraces ?m)
        = (\<lambda>t k. t = sTraceID s \<and> k = (sService s, sName s) \<or> recorded kOperations (mTraces m) t k)"
      "recorded kDurations (mTraces ?m)
        = (\<lambda>t k. t = sTraceID s \<and> k = durationBucket (Span_Duration s) \<or> recorded kDurations (mTraces m) t k)"
      "recorded kMinutes (mTraces ?m)
        = (\<lambda>t k. t = sTraceID s \<and> k = startMinute (sStart s) \<or> recorded kMinutes (mTraces m) t k)"
      by (simp_all add: Memory_insert_eq rec [of kServices] rec [of kOperations] rec [of kDurations]
          rec [of kMinutes] addKeys_def newEntry_def)
    then show ?thesis
      using ix Span_Duration_bucket_less [of s]
      by (simp add: indexes_ok_def Memory_insert_eq map_index.inv_add array_index.inv_add
          map_index.indexed_add array_index.indexed_add)
  qed
  ultimately show ?thesis
    using assms(2) by (simp add: mem_inv_def Memory_insert_eq)
qed

lemma mem_inv_New: "mem_inv (NewMemory r)"
proof -
  have "arraySet (replicate 65 {||}) b = {||}" for b
    by (simp add: arraySet_def)
  then show ?thesis
    by (simp add: mem_inv_def NewMemory_def indexes_ok_def noEmptySets_def indexed_def recorded_def)
qed

lemma recorded_fmdrop:
  "recorded sel (fmdrop t traces) = (\<lambda>t' k. t' \<noteq> t \<and> recorded sel traces t' k)"
  by (auto simp: recorded_def fun_eq_iff)

lemma recorded_keys:
  "fmlookup traces t = Some e \<Longrightarrow> recorded sel traces t k \<longleftrightarrow> k \<in> set (setElems (sel (eKeys e)))"
  by (simp add: recorded_def)

lemma mem_inv_remove:
  assumes "mem_inv m" "\<not> mClosed m"
  shows "mem_inv (Memory_remove m t)"
proof (cases "fmlookup (mTraces m) t")
  case None
  with assms show ?thesis by (simp add: Memory_remove_def)
next
  case (Some e)
  from assms have entries: "\<And>t e. fmlookup (mTraces m) t = Some e \<Longrightarrow> entry_ok t e" and ix: "indexes_ok m"
    by (auto simp: mem_inv_def)
  have dur: "\<forall>k \<in> set (setElems (kDurations (eKeys e))). k < 65"
    using entries [OF Some] by (auto simp: entry_ok_def)
  note keys = recorded_keys [OF Some, THEN iffD1]
  have "indexed (getSet (foldl (\<lambda>ix k. removeFrom ix k t) (mByService m) (setElems (kServices (eKeys e)))))
      (\<lambda>t' k. t' \<noteq> t \<and> recorded kServices (mTraces m) t' k)"
    "indexed (getSet (foldl (\<lambda>ix k. removeFrom ix k t) (mByOperation m) (setElems (kOperations (eKeys e)))))
      (\<lambda>t' k. t' \<noteq> t \<and> recorded kOperations (mTraces m) t' k)"
    "indexed (getSet (foldl (\<lambda>ix k. removeFrom ix k t) (mByMinute m) (setElems (kMinutes (eKeys e)))))
      (\<lambda>t' k. t' \<noteq> t \<and> recorded kMinutes (mTraces m) t' k)"
    using ix by (auto simp: indexes_ok_def intro!: map_index.indexed_del_all dest: keys simp del: set_setElems)
  moreover have "indexed (arraySet (foldl (\<lambda>ix k. removeFromArray ix k t) (mByDuration m)
      (setElems (kDurations (eKeys e))))) (\<lambda>t' k. t' \<noteq> t \<and> recorded kDurations (mTraces m) t' k)"
    using ix dur by (intro array_index.indexed_del_all) (auto simp: indexes_ok_def dest: keys simp del: set_setElems)
  ultimately have "indexes_ok (Memory_remove m t)"
    using ix Some dur unfolding indexes_ok_def Memory_remove_def
    by (simp add: recorded_fmdrop map_index.inv_del_all array_index.inv_del_all)
  with entries Some assms(2) show ?thesis
    by (simp add: mem_inv_def Memory_remove_def)
qed

lemma Memory_remove_closed [simp]: "mClosed (Memory_remove m t) = mClosed m"
  by (simp add: Memory_remove_def split: option.split)

lemma Memory_insert_closed [simp]: "mClosed (Memory_insert m s) = mClosed m"
  by (simp add: Memory_insert_eq)

lemma mem_inv_remove_all:
  "mem_inv m \<Longrightarrow> \<not> mClosed m \<Longrightarrow> mem_inv (foldl Memory_remove m ts)"
  by (induction ts arbitrary: m) (auto simp: mem_inv_remove)

lemma mem_inv_EvictExpired: "mem_inv m \<Longrightarrow> mem_inv (snd (Memory_EvictExpired now m))"
proof -
  assume inv: "mem_inv m"
  show ?thesis
  proof (cases "mClosed m")
    case True
    with inv have "expiredIn m c = []" for c
      by (simp add: mem_inv_def expiredIn_def)
    with inv show ?thesis by (simp add: Memory_EvictExpired_def Let_def)
  next
    case False
    with inv show ?thesis
      by (simp add: Memory_EvictExpired_def Let_def mem_inv_remove_all)
  qed
qed

lemma firstInvalid_None_iff: "firstInvalid i ss = None \<longleftrightarrow> (\<forall>s \<in> set ss. Validate s = None)"
  by (induction ss arbitrary: i) (auto split: option.splits)

lemma mem_inv_insert_all:
  "mem_inv m \<Longrightarrow> \<not> mClosed m \<Longrightarrow> \<forall>s \<in> set ss. Validate s = None \<Longrightarrow> mem_inv (foldl Memory_insert m ss)"
  by (induction ss arbitrary: m) (auto simp: mem_inv_insert)

lemma mem_inv_Write: "mem_inv m \<Longrightarrow> mem_inv (snd (Memory_Write m ss))"
  by (auto simp: Memory_Write_def firstInvalid_None_iff intro: mem_inv_insert_all split: option.splits)

lemma mem_inv_Close: "mem_inv (Memory_Close m)"
  by (simp add: mem_inv_def Memory_Close_def)

subsection \<open>Writing refines \<open>upsert\<close>\<close>

lemma spansOf_insert:
  assumes "mem_inv m" "\<not> mClosed m"
  shows "spansOf (Memory_insert m s) t = (if t = sTraceID s then upsert (spansOf m t) s else spansOf m t)"
proof -
  have "positions (case fmlookup (mTraces m) (sTraceID s) of Some e \<Rightarrow> e | None \<Rightarrow> newEntry s)"
    using assms by (auto simp: mem_inv_def entry_ok_def split: option.splits)
  from eSpans_storeSpan [OF this, of s] show ?thesis
    by (auto simp: spansOf_def Memory_insert_eq updatedEntry_def Let_def newEntry_def split: option.splits)
qed

lemma spansOf_insert_all:
  "mem_inv m \<Longrightarrow> \<not> mClosed m \<Longrightarrow> \<forall>s \<in> set ss. Validate s = None \<Longrightarrow>
   spansOf (foldl Memory_insert m ss) t = foldl upsert (spansOf m t) (filter (\<lambda>s. sTraceID s = t) ss)"
proof (induction ss arbitrary: m)
  case Nil
  then show ?case by simp
next
  case (Cons s ss)
  then have "mem_inv (Memory_insert m s)"
    by (auto intro: mem_inv_insert)
  with Cons show ?case
    by (auto simp: spansOf_insert)
qed

lemma foldl_insert_retention [simp]: "mRetention (foldl Memory_insert m ss) = mRetention m"
  by (induction ss arbitrary: m) (simp_all add: Memory_insert_eq)

lemma foldl_insert_closed [simp]: "mClosed (foldl Memory_insert m ss) = mClosed m"
  by (induction ss arbitrary: m) simp_all

lemma spansOf_remove: "spansOf (Memory_remove m t) t' = (if t' = t then [] else spansOf m t')"
  by (auto simp: spansOf_def Memory_remove_def split: option.splits)

lemma lookup_remove: "fmlookup (mTraces (Memory_remove m t)) t' = (if t' = t then None else fmlookup (mTraces m) t')"
  by (auto simp: Memory_remove_def split: option.splits)

lemma foldl_remove_closed: "mClosed (foldl Memory_remove m ts) = mClosed m"
  by (induction ts arbitrary: m) simp_all

lemma lookup_remove_all:
  "fmlookup (mTraces (foldl Memory_remove m ts)) t = (if t \<in> set ts then None else fmlookup (mTraces m) t)"
  by (induction ts arbitrary: m) (auto simp: lookup_remove)

subsection \<open>Writing a batch again\<close>

lemma ids_upsert:
  "map sSpanID (upsert xs s) = (if sSpanID s \<in> sSpanID ` set xs then map sSpanID xs else map sSpanID xs @ [sSpanID s])"
  by (induction xs) auto

lemma distinct_ids_upsert: "distinct (map sSpanID xs) \<Longrightarrow> distinct (map sSpanID (upsert xs s))"
  by (simp add: ids_upsert)

lemma distinct_ids_foldl_upsert: "distinct (map sSpanID xs) \<Longrightarrow> distinct (map sSpanID (foldl upsert xs ss))"
  by (induction ss arbitrary: xs) (auto intro: distinct_ids_upsert)

lemma ids_foldl_upsert: "sSpanID ` set (foldl upsert xs ss) = sSpanID ` set xs \<union> sSpanID ` set ss"
proof (induction ss arbitrary: xs)
  case Nil
  then show ?case by simp
next
  case (Cons s ss)
  have "sSpanID ` set (upsert xs s) = insert (sSpanID s) (sSpanID ` set xs)"
    using arg_cong [OF ids_upsert [of xs s], of set] by (auto split: if_splits)
  with Cons show ?case by simp
qed

text \<open>The span a batch leaves under an identifier.\<close>

definition lastFor :: "Span list \<Rightarrow> SpanID \<Rightarrow> Span option" where
  "lastFor ss i = find (\<lambda>s. sSpanID s = i) (rev ss)"

lemma upsert_eq_map:
  "distinct (map sSpanID xs) \<Longrightarrow> sSpanID s \<in> sSpanID ` set xs \<Longrightarrow>
   upsert xs s = map (\<lambda>x. if sSpanID x = sSpanID s then s else x) xs"
proof (induction xs)
  case Nil
  then show ?case by simp
next
  case (Cons x xs)
  show ?case
  proof (cases "sSpanID x = sSpanID s")
    case True
    with Cons.prems have "\<forall>y \<in> set xs. sSpanID y \<noteq> sSpanID s"
      by (metis distinct.simps(2) image_eqI list.simps(9) set_map)
    with True show ?thesis by (simp add: map_idI)
  next
    case False
    with Cons show ?thesis by auto
  qed
qed

lemma foldl_upsert_members:
  assumes "distinct (map sSpanID xs)" "y \<in> set (foldl upsert xs ss)"
  shows "lastFor ss (sSpanID y) = None \<or> lastFor ss (sSpanID y) = Some y"
  using assms(2)
proof (induction ss rule: rev_induct)
  case Nil
  then show ?case by (simp add: lastFor_def)
next
  case (snoc s ss)
  let ?ys = "foldl upsert xs ss"
  have d: "distinct (map sSpanID ?ys)"
    using assms(1) by (rule distinct_ids_foldl_upsert)
  show ?case
  proof (cases "sSpanID y = sSpanID s")
    case True
    have "y = s"
    proof (cases "sSpanID s \<in> sSpanID ` set ?ys")
      case True
      with snoc.prems upsert_eq_map [OF d] \<open>sSpanID y = sSpanID s\<close> show ?thesis
        by (auto split: if_splits)
    next
      case False
      with snoc.prems \<open>sSpanID y = sSpanID s\<close> show ?thesis
        by (auto simp: upsert_new image_iff)
    qed
    with True show ?thesis by (simp add: lastFor_def)
  next
    case False
    then have "y \<in> set ?ys"
      using snoc.prems set_upsert_subset [of ?ys s] by auto
    with snoc.IH False show ?thesis by (simp add: lastFor_def)
  qed
qed

lemma foldl_upsert_covered:
  "distinct (map sSpanID xs) \<Longrightarrow> sSpanID ` set ss \<subseteq> sSpanID ` set xs \<Longrightarrow>
   foldl upsert xs ss = map (\<lambda>x. case lastFor ss (sSpanID x) of None \<Rightarrow> x | Some s \<Rightarrow> s) xs"
proof (induction ss rule: rev_induct)
  case Nil
  then show ?case by (simp add: lastFor_def)
next
  case (snoc s ss)
  let ?ys = "foldl upsert xs ss"
  have "sSpanID s \<in> sSpanID ` set ?ys"
    using snoc.prems by (auto simp: ids_foldl_upsert)
  then have "foldl upsert xs (ss @ [s]) = map (\<lambda>x. if sSpanID x = sSpanID s then s else x) ?ys"
    using snoc.prems(1) by (simp add: upsert_eq_map distinct_ids_foldl_upsert)
  moreover have "sSpanID (case lastFor ss (sSpanID x) of None \<Rightarrow> x | Some s \<Rightarrow> s) = sSpanID x" for x
    by (auto simp: lastFor_def find_Some_iff split: option.split)
  ultimately show ?case
    using snoc by (auto simp: lastFor_def)
qed

lemma foldl_upsert_again:
  assumes "distinct (map sSpanID xs)"
  shows "foldl upsert (foldl upsert xs ss) ss = foldl upsert xs ss"
proof -
  let ?ys = "foldl upsert xs ss"
  have "foldl upsert ?ys ss = map (\<lambda>x. case lastFor ss (sSpanID x) of None \<Rightarrow> x | Some s \<Rightarrow> s) ?ys"
    using assms by (intro foldl_upsert_covered distinct_ids_foldl_upsert) (auto simp: ids_foldl_upsert)
  also have "\<dots> = ?ys"
    using foldl_upsert_members [OF assms, of _ ss] by (intro map_idI) (fastforce split: option.split)
  finally show ?thesis .
qed

lemma spansOf_distinct: "mem_inv m \<Longrightarrow> distinct (map sSpanID (spansOf m t))"
  using positions_distinct
  by (auto simp: spansOf_def mem_inv_def entry_ok_def split: option.splits if_splits)

subsection \<open>Reachable stores\<close>

inductive mem_reachable :: "Memory \<Rightarrow> bool" where
  new: "mem_reachable (NewMemory r)"
| wrote: "mem_reachable m \<Longrightarrow> mem_reachable (snd (Memory_Write m ss))"
| evicted: "mem_reachable m \<Longrightarrow> mem_reachable (snd (Memory_EvictExpired now m))"
| closed: "mem_reachable m \<Longrightarrow> mem_reachable (Memory_Close m)"

lemma reachable_inv: "mem_reachable m \<Longrightarrow> mem_inv m"
  by (induction rule: mem_reachable.induct)
    (auto intro: mem_inv_New mem_inv_Write mem_inv_EvictExpired mem_inv_Close)

lemma spansOf_Nil_iff: "mem_inv m \<Longrightarrow> spansOf m t = [] \<longleftrightarrow> fmlookup (mTraces m) t = None"
  by (auto simp: spansOf_def mem_inv_def entry_ok_def split: option.splits if_splits)

lemma Memory_Trace_spansOf:
  "mem_inv m \<Longrightarrow> Memory_Trace m t = (if mClosed m then Inl ErrClosed
     else if spansOf m t = [] then Inl ErrNotFound else Inr (sortFunc byStartOnly (spansOf m t)))"
  using spansOf_Nil_iff [of m t] by (auto simp: Memory_Trace_def spansOf_def split: option.splits)

interpretation byStartOnly: comparator byStartOnly
  using comparator_onKey [OF time_cmp.comparator_axioms, of sStart]
  by (simp add: byStartOnly_def [abs_def] onKey_def [abs_def])

subsection \<open>Properties\<close>

text \<open>C4: the store's invariant. Every store reached by writes, evictions and closing keeps one
  entry per trace with its spans under distinct identifiers and within the entry's bounds, and
  four indexes that hold exactly the keys the stored traces recorded, so every stored span can
  be found through each index and no index mentions a trace that is gone. A closed store holds
  no trace; its indexes are not cleared, and nothing reads them any more.\<close>

theorem mem_reachable_mem_inv: "mem_reachable m \<Longrightarrow> mem_inv m"
  by (rule reachable_inv)

theorem mem_reachable_mem_inv_witness:
  "mem_inv (snd (Memory_EvictExpired 50 (snd (Memory_Write (NewMemory 10) [exampleSpan 1 2 0 5 9]))))"
  by (rule mem_reachable_mem_inv) (intro mem_reachable.intros)

text \<open>C13: a write is all or nothing and a span replaces the stored copy with its identifier. A
  batch with an invalid span, or a closed store, leaves the store as it was; otherwise every
  trace holds its old spans with the batch's spans of that trace upserted in order.\<close>

theorem Memory_Write_refines_upsert:
  assumes "mem_reachable m"
  shows "case Memory_Write m ss of
      (Some err, m') \<Rightarrow> m' = m \<and> (mClosed m \<or> (\<exists>s \<in> set ss. Validate s \<noteq> None))
    | (None, m') \<Rightarrow> (\<forall>s \<in> set ss. Validate s = None) \<and> \<not> mClosed m \<and>
        (\<forall>t. spansOf m' t = foldl upsert (spansOf m t) (filter (\<lambda>s. sTraceID s = t) ss))"
proof (cases "firstInvalid 0 ss")
  case None
  then have "\<forall>s \<in> set ss. Validate s = None"
    by (simp add: firstInvalid_None_iff)
  with None show ?thesis
    using reachable_inv [OF assms] spansOf_insert_all [of m ss]
    by (simp add: Memory_Write_def)
next
  case (Some err)
  then have "\<exists>s \<in> set ss. Validate s \<noteq> None"
    using firstInvalid_None_iff [of 0 ss] by auto
  with Some show ?thesis by (simp add: Memory_Write_def)
qed

theorem Memory_Write_refines_upsert_witness:
  "case Memory_Write (NewMemory 0) [exampleSpan 1 2 0 5 9] of
      (Some err, m') \<Rightarrow> m' = NewMemory 0 \<and> (mClosed (NewMemory 0) \<or> (\<exists>s \<in> set [exampleSpan 1 2 0 5 9]. Validate s \<noteq> None))
    | (None, m') \<Rightarrow> (\<forall>s \<in> set [exampleSpan 1 2 0 5 9]. Validate s = None) \<and> \<not> mClosed (NewMemory 0) \<and>
        (\<forall>t. spansOf m' t = foldl upsert (spansOf (NewMemory 0) t) (filter (\<lambda>s. sTraceID s = t) [exampleSpan 1 2 0 5 9]))"
  by (rule Memory_Write_refines_upsert) (rule mem_reachable.new)

text \<open>C17: \<open>Trace\<close> returns every stored span of the trace once, ordered by start time, spans that
  start together in the order they were first stored; it fails exactly on a closed store or an
  unknown trace.\<close>

theorem Memory_Trace_sorted:
  assumes "mem_reachable m"
  shows "case Memory_Trace m t of
      Inl err \<Rightarrow> (mClosed m \<and> err = ErrClosed) \<or> (\<not> mClosed m \<and> spansOf m t = [] \<and> err = ErrNotFound)
    | Inr ss \<Rightarrow> sorted (map sStart ss) \<and> mset ss = mset (spansOf m t) \<and> distinct (map sSpanID ss)
        \<and> (\<forall>x. filter (\<lambda>s. sStart s = x) ss = filter (\<lambda>s. sStart s = x) (spansOf m t))"
proof -
  have inv: "mem_inv m"
    using assms by (rule reachable_inv)
  let ?ss = "sortFunc byStartOnly (spansOf m t)"
  have "sorted_wrt (\<lambda>x y. byStartOnly x y \<le> 0) ?ss"
    by (rule byStartOnly.sorted_sortFunc)
  then have "sorted (map sStart ?ss)"
    by (auto simp: sorted_wrt_map byStartOnly_def time_Compare_def elim!: sorted_wrt_mono_rel [rotated] split: if_splits)
  moreover have "distinct (map sSpanID ?ss)"
    using spansOf_distinct [OF inv, of t] by (simp add: distinct_map)
  moreover have "filter (\<lambda>s. sStart s = x) ?ss = filter (\<lambda>s. sStart s = x) (spansOf m t)" for x
  proof -
    have "(\<lambda>s. byStartOnly (zeroSpan\<lparr>sStart := x\<rparr>) s = 0) = (\<lambda>s. sStart s = x)"
      by (auto simp: byStartOnly_def time_Compare_def fun_eq_iff)
    with byStartOnly.sortFunc_stable [of "zeroSpan\<lparr>sStart := x\<rparr>"] show ?thesis by simp
  qed
  ultimately show ?thesis
    by (simp add: Memory_Trace_spansOf [OF inv])
qed

theorem Memory_Trace_sorted_witness:
  "\<exists>ss. Memory_Trace (snd (Memory_Write (NewMemory 0) [exampleSpan 1 2 0 5 9, exampleSpan 1 3 2 4 6])) (exampleID 16 1) = Inr ss
    \<and> sorted (map sStart ss) \<and> mset ss = {#exampleSpan 1 2 0 5 9, exampleSpan 1 3 2 4 6#} \<and> distinct (map sSpanID ss)"
proof -
  let ?ss = "[exampleSpan 1 2 0 5 9, exampleSpan 1 3 2 4 6]"
  let ?m = "snd (Memory_Write (NewMemory 0) ?ss)"
  have new: "\<not> mClosed (NewMemory 0)" "spansOf (NewMemory 0) (exampleID 16 1) = []"
    by (simp_all add: NewMemory_def spansOf_def)
  have w: "?m = foldl Memory_insert (NewMemory 0) ?ss"
    using new(1) by (simp add: Memory_Write_def)
  have "filter (\<lambda>s. sTraceID s = exampleID 16 1) ?ss = ?ss" "foldl upsert [] ?ss = ?ss"
    by (simp_all add: exampleSpan_def exampleID_def)
  then have m: "spansOf ?m (exampleID 16 1) = ?ss" "\<not> mClosed ?m"
    unfolding w using spansOf_insert_all [OF mem_inv_New new(1), of ?ss "exampleID 16 1"] new
    by (simp_all del: foldl_Cons)
  have reach: "mem_reachable ?m" by (intro mem_reachable.intros)
  obtain ss where ss: "Memory_Trace ?m (exampleID 16 1) = Inr ss"
    using Memory_Trace_spansOf [OF reachable_inv [OF reach]] m by simp
  with Memory_Trace_sorted [OF reach, of "exampleID 16 1"] m(1) show ?thesis by auto
qed

text \<open>C19: a retried batch is not new data. Writing a batch that was just written again changes
  the answer of \<open>Trace\<close> for no trace.\<close>

theorem Memory_Write_retry:
  assumes "mem_reachable m" "Memory_Write m ss = (None, m1)" "Memory_Write m1 ss = (None, m2)"
  shows "Memory_Trace m2 t = Memory_Trace m1 t"
proof -
  have inv: "mem_inv m" "mem_inv m1" "mem_inv m2"
    using reachable_inv [OF assms(1)] mem_inv_Write [of m ss] mem_inv_Write [of m1 ss] assms(2,3) by auto
  have valid: "\<forall>s \<in> set ss. Validate s = None" and op: "\<not> mClosed m"
    and m1: "m1 = foldl Memory_insert m ss" and m2: "m2 = foldl Memory_insert m1 ss"
    using assms(2,3) by (auto simp: Memory_Write_def firstInvalid_None_iff split: option.splits if_splits)
  have "spansOf m2 t = spansOf m1 t"
    using inv op valid spansOf_distinct [OF inv(1), of t]
    by (simp add: m1 m2 spansOf_insert_all mem_inv_insert_all foldl_upsert_again)
  moreover have "mClosed m2 = mClosed m1"
    by (simp add: m2)
  ultimately show ?thesis
    using inv by (simp add: Memory_Trace_spansOf)
qed

theorem Memory_Write_retry_witness:
  "let m1 = snd (Memory_Write (NewMemory 0) [exampleSpan 1 2 0 5 9]);
       m2 = snd (Memory_Write m1 [exampleSpan 1 2 0 5 9])
   in Memory_Trace m2 (exampleID 16 1) = Memory_Trace m1 (exampleID 16 1)"
proof -
  let ?ss = "[exampleSpan 1 2 0 5 9]"
  have v: "firstInvalid 0 ?ss = None"
    by (simp add: Validate_def exampleSpan_def exampleID_def zeroSpan_def ID_IsValid_def time_IsZero_def zeroTime_def)
  let ?m1 = "foldl Memory_insert (NewMemory 0) ?ss"
  have w1: "Memory_Write (NewMemory 0) ?ss = (None, ?m1)"
    using v by (simp add: Memory_Write_def NewMemory_def)
  have "\<not> mClosed ?m1" by (simp add: NewMemory_def)
  then have w2: "Memory_Write ?m1 ?ss = (None, foldl Memory_insert ?m1 ?ss)"
    using v by (simp add: Memory_Write_def)
  show ?thesis
    using Memory_Write_retry [OF mem_reachable.new w1 w2] by (simp only: Let_def w1 w2 snd_conv)
qed

text \<open>C15: eviction removes exactly the traces that ended before the retention window. The count
  is the number of traces removed, the others are untouched, and no index still mentions a
  trace that is no longer stored.\<close>

theorem Memory_EvictExpired_exact:
  assumes "mem_reachable m" "0 < mRetention m" "Memory_EvictExpired now m = (n, m')"
  shows "fmlookup (mTraces m') t = (case fmlookup (mTraces m) t of
        None \<Rightarrow> None | Some e \<Rightarrow> if eEnd e < now - mRetention m then None else Some e)
    \<and> mapLen (mTraces m') + n = mapLen (mTraces m)
    \<and> (\<not> mClosed m \<longrightarrow> fmlookup (mTraces m') t = None \<longrightarrow>
        (\<forall>svc op b minute. t |\<notin>| getSet (mByService m') svc \<and> t |\<notin>| getSet (mByOperation m') op
          \<and> t |\<notin>| arraySet (mByDuration m') b \<and> t |\<notin>| getSet (mByMinute m') minute))"
proof -
  let ?ex = "expiredIn m (now - mRetention m)"
  have m': "m' = foldl Memory_remove m ?ex" and n: "n = length ?ex"
    using assms(2,3) by (auto simp: Memory_EvictExpired_def Let_def)
  have lookup: "fmlookup (mTraces m') t = (case fmlookup (mTraces m) t of
      None \<Rightarrow> None | Some e \<Rightarrow> if eEnd e < now - mRetention m then None else Some e)" for t
    by (auto simp: m' lookup_remove_all expiredIn_def split: option.splits)
  have "set (mapKeys (mTraces m')) = set (mapKeys (mTraces m)) - set ?ex"
    by (auto simp: m' lookup_remove_all)
  moreover have "set ?ex \<subseteq> set (mapKeys (mTraces m))" "distinct ?ex"
    by (auto simp: expiredIn_def)
  ultimately have "card (set (mapKeys (mTraces m'))) + length ?ex = card (set (mapKeys (mTraces m)))"
    by (simp only: card_Diff_subset finite_set distinct_card [symmetric])
      (simp only: le_add_diff_inverse2 card_mono finite_set)
  then have "mapLen (mTraces m') + n = mapLen (mTraces m)"
    by (simp only: distinct_card distinct_mapKeys length_mapKeys n)
  moreover have "indexes_ok m'" if "\<not> mClosed m"
  proof -
    have "mem_inv m'"
      using mem_inv_EvictExpired [OF reachable_inv [OF assms(1)], of now] assms(3) by simp
    moreover have "\<not> mClosed m'"
      using that by (simp add: m' foldl_remove_closed)
    ultimately show ?thesis by (simp add: mem_inv_def)
  qed
  ultimately show ?thesis
    using lookup [of t] by (auto simp: indexes_ok_def indexed_def recorded_def)
qed

theorem Memory_EvictExpired_exact_witness:
  "let m = foldl Memory_insert (NewMemory 10) [exampleSpan 1 2 0 5 9];
       (n, m') = Memory_EvictExpired 50 m
   in fmlookup (mTraces m) (exampleID 16 1) \<noteq> None \<and> fmlookup (mTraces m') (exampleID 16 1) = None
      \<and> mapLen (mTraces m') + n = mapLen (mTraces m)"
proof -
  let ?ss = "[exampleSpan 1 2 0 5 9]"
  let ?m = "foldl Memory_insert (NewMemory 10) ?ss"
  obtain n m' where ev: "Memory_EvictExpired 50 ?m = (n, m')" by fastforce
  have "firstInvalid 0 ?ss = None"
    by (simp add: Validate_def exampleSpan_def exampleID_def zeroSpan_def ID_IsValid_def time_IsZero_def zeroTime_def)
  then have "?m = snd (Memory_Write (NewMemory 10) ?ss)"
    by (simp add: Memory_Write_def NewMemory_def)
  then have reach: "mem_reachable ?m"
    using mem_reachable.wrote [OF mem_reachable.new] by metis
  have r: "mRetention ?m = 10"
    by (simp add: NewMemory_def Memory_insert_eq)
  then have "0 < mRetention ?m" by simp
  note ex = Memory_EvictExpired_exact [OF reach this ev, of "exampleID 16 1", unfolded r]
  have "\<exists>e. fmlookup (mTraces ?m) (exampleID 16 1) = Some e \<and> eEnd e = 9"
    by (simp add: Memory_insert_eq updatedEntry_def Let_def NewMemory_def newEntry_def exampleSpan_def)
  with ex ev show ?thesis by auto
qed

end
