(* ===== verification/Memory_Search.thy ===== *)
theory Memory_Search
  imports Memory_Inv
begin

section \<open>The in-memory store: searching\<close>

text \<open>
  \<open>Find\<close> against its specification. The reference search \<open>findOver (mapKeys (mTraces m))\<close> looks at
  every stored trace; \<open>Memory_Find\<close> only at the candidates of one index. The two agree, in
  whatever order the candidates are visited, as long as no trace that passes the query started
  more than a day before a window the time index serves. The last theorem shows that the
  restriction is needed.
\<close>

subsection \<open>Specification\<close>

text \<open>The query is answered from the time index.\<close>

definition usesTimeIndex :: "Query \<Rightarrow> bool" where
  "usesTimeIndex q \<longleftrightarrow> qOperation q = [] \<and> qService q = [] \<and> \<not> time_IsZero (qStart q)
     \<and> \<not> time_IsZero (qEnd q) \<and> startMinute (qEnd q) - startMinute (qStart q) \<le> minuteIndexLimit"

abbreviation Day :: Duration where "Day \<equiv> 86400 * Second"

definition matches :: "Memory \<Rightarrow> Query \<Rightarrow> TraceID \<Rightarrow> bool" where
  "matches m q t \<longleftrightarrow> (case fmlookup (mTraces m) t of None \<Rightarrow> False | Some e \<Rightarrow> selected q e)"

definition summaryOf :: "Memory \<Rightarrow> TraceID \<Rightarrow> Summary" where
  "summaryOf m t = the (summarise t (the (fmlookup (mTraces m) t)))"

subsection \<open>Summaries\<close>

lemma summariseLoop_head:
  "(head = None \<longrightarrow> \<not> complete) \<Longrightarrow> fst (summariseLoop ss head complete failed) = None \<longleftrightarrow> ss = [] \<and> head = None"
  by (induction ss head complete failed rule: summariseLoop.induct) (auto simp: Let_def split: option.splits)

lemma summarise_Some: "eSpans e \<noteq> [] \<Longrightarrow> \<exists>sm. summarise t e = Some sm \<and> smTraceID sm = t \<and> smStart sm = eStart e"
  using summariseLoop_head [of None False "eSpans e" False]
  by (auto simp: summarise_def split: prod.splits option.splits)

lemma smTraceID_summaryOf:
  assumes "mem_inv m" "matches m q t"
  shows "smTraceID (summaryOf m t) = t"
proof -
  from assms obtain e where e: "fmlookup (mTraces m) t = Some e"
    by (auto simp: matches_def split: option.splits)
  with assms(1) have "eSpans e \<noteq> []"
    by (auto simp: mem_inv_def entry_ok_def split: if_splits)
  with summarise_Some [of e t] e show ?thesis by (auto simp: summaryOf_def)
qed

lemma findLoop_eq:
  assumes "mem_inv m"
  shows "findLoop m q ts = Some (map (summaryOf m) (filter (matches m q) ts))"
proof (induction ts)
  case Nil
  then show ?case by simp
next
  case (Cons t ts)
  have "\<exists>sm. summarise t e = Some sm" if "fmlookup (mTraces m) t = Some e" for e
  proof -
    have "eSpans e \<noteq> []"
      using assms that by (auto simp: mem_inv_def entry_ok_def split: if_splits)
    then show ?thesis using summarise_Some by blast
  qed
  with Cons show ?case
    by (auto simp: matches_def summaryOf_def split: option.splits)
qed

subsection \<open>The order of the candidates\<close>

interpretation bySummary: comparator bySummary
proof -
  have eq: "bySummary = thenCompare (flipCompare (onKey smStart time_Compare)) (onKey smTraceID compareBytes)"
    by (simp add: bySummary_def thenCompare_def flipCompare_def onKey_def Let_def fun_eq_iff)
  show "comparator bySummary"
    unfolding eq by (intro comparator_intros)
qed

lemma bySummary_0: "bySummary a b = 0 \<Longrightarrow> smTraceID a = smTraceID b"
  by (auto simp: bySummary_def Let_def split: if_splits)

text \<open>The search depends on which matching traces are among the candidates, not on their order
  or on the candidates that do not match.\<close>

lemma findOver_cong:
  assumes inv: "mem_inv m" and "distinct ts" "distinct us"
    and same: "Set.filter (matches m q) (set ts) = Set.filter (matches m q) (set us)"
  shows "findOver ts m q = findOver us m q"
proof -
  let ?S = "\<lambda>ts. map (summaryOf m) (filter (matches m q) ts)"
  have "mset (filter (matches m q) ts) = mset (filter (matches m q) us)"
    using assms by (intro set_eq_iff_mset_eq_distinct [THEN iffD1]) auto
  then have "mset (?S ts) = mset (?S us)"
    by simp
  moreover have "x = y" if "x \<in> set (?S ts)" "y \<in> set (?S ts)" "bySummary x y = 0" for x y
    using that smTraceID_summaryOf [OF inv] bySummary_0 by auto metis
  ultimately have sorted: "sortFunc bySummary (?S ts) = sortFunc bySummary (?S us)"
    by (rule bySummary.sortFunc_perm)
  show ?thesis
    by (simp only: findOver_def findLoop_eq [OF inv] option.map Let_def sorted)
qed

subsection \<open>The candidates\<close>

lemma member_unionSets: "t |\<in>| unionSets sets \<longleftrightarrow> (\<exists>S \<in> set sets. t |\<in>| S)"
proof -
  have "t |\<in>| foldl (|\<union>|) A sets \<longleftrightarrow> t |\<in>| A \<or> (\<exists>S \<in> set sets. t |\<in>| S)" for A
    by (induction sets arbitrary: A) auto
  then show ?thesis by (simp add: unionSets_def)
qed

lemma go_div_shift:
  "go_div x 60 - k \<le> go_div y 60" if "x - 60 * k \<le> y" "0 \<le> k"
proof -
  have "go_div z 60 = (if 0 \<le> z then z div 60 else - ((- z) div 60))" for z :: int
    by (auto simp: go_div_def sgn_if)
  moreover have "0 \<le> (- x) div 60" "0 \<le> y div 60" if "x < 0" "0 \<le> y"
    using that by (simp_all add: pos_imp_zdiv_nonneg_iff)
  ultimately show ?thesis
    using that by auto
qed

lemma startMinute_day: "t - Day \<le> u \<Longrightarrow> startMinute t - minuteIndexLimit \<le> startMinute u"
proof -
  assume "t - Day \<le> u"
  then have "time_Unix t - 60 * 1440 \<le> time_Unix u"
    by (simp add: time_Unix_def)
  then show ?thesis
    unfolding startMinute_def minuteIndexLimit_def by (simp add: go_div_shift)
qed

lemma selected_span: "selected q e \<Longrightarrow> hasSpanPredicate q \<Longrightarrow> \<exists>s \<in> set (eSpans e). matchesSpan q s"
  by (auto simp: selected_def list_ex_iff)

lemma selected_window:
  assumes "selected q e" "\<not> time_IsZero (qStart q)" "\<not> time_IsZero (qEnd q)"
  shows "eStart e \<le> qEnd q" "qStart q \<le> eEnd e"
  using assms by (auto simp: selected_def overlaps_def split: if_splits)

lemma covered_span: "entry_ok t e \<Longrightarrow> s \<in> set (eSpans e) \<Longrightarrow> covers (eKeys e) s"
  by (auto simp: entry_ok_def)

text \<open>One lemma for each index a query can be served from.\<close>

lemma candidates_operation:
  assumes "entry_ok t e" "indexes_ok m" "Query_Validate q = None" "fmlookup (mTraces m) t = Some e" "selected q e" "qOperation q \<noteq> []"
  shows "t |\<in>| candidates m q"
proof -
  have svc: "qService q \<noteq> []" by (rule Query_operation_service [OF assms(3,6)])
  then obtain s where s: "s \<in> set (eSpans e)" "matchesSpan q s"
    using selected_span [OF assms(5)] by (auto simp: hasSpanPredicate_def)
  then have "(qService q, qOperation q) |\<in>| kOperations (eKeys e)"
    using covered_span [OF assms(1) s(1)] matchesSpan_service [OF s(2) svc] matchesSpan_operation [OF s(2) assms(6)]
    by (simp add: covers_def)
  with assms show ?thesis
    by (auto simp: candidates_def indexes_ok_def indexed_def recorded_def)
qed

lemma candidates_service:
  assumes "entry_ok t e" "indexes_ok m" "fmlookup (mTraces m) t = Some e" "selected q e" "qOperation q = []" "qService q \<noteq> []"
  shows "t |\<in>| candidates m q"
proof -
  obtain s where s: "s \<in> set (eSpans e)" "matchesSpan q s"
    using selected_span [OF assms(4)] assms(6) by (auto simp: hasSpanPredicate_def)
  then have "qService q |\<in>| kServices (eKeys e)"
    using covered_span [OF assms(1) s(1)] matchesSpan_service [OF s(2) assms(6)] by (simp add: covers_def)
  with assms show ?thesis
    by (auto simp: candidates_def indexes_ok_def indexed_def recorded_def)
qed

lemma candidates_window:
  assumes "entry_ok t e" "indexes_ok m" "fmlookup (mTraces m) t = Some e" "selected q e" "usesTimeIndex q" "eEnd e - eStart e \<le> Day"
  shows "t |\<in>| candidates m q"
proof -
  let ?k = "startMinute (eStart e)"
  have "startMinute (qStart q) - minuteIndexLimit \<le> ?k" "?k \<le> startMinute (qEnd q)"
    using selected_window [OF assms(4)] assms(5,6)
    by (auto simp: usesTimeIndex_def intro!: startMinute_day startMinute_mono)
  moreover have "t |\<in>| getSet (mByMinute m) ?k"
    using assms(1-3) by (auto simp: entry_ok_def indexes_ok_def indexed_def recorded_def)
  ultimately show ?thesis
    using assms(5) by (auto simp: candidates_def usesTimeIndex_def member_unionSets)
qed

lemma candidates_duration:
  assumes "entry_ok t e" "indexes_ok m" "fmlookup (mTraces m) t = Some e" "selected q e"
    "qOperation q = []" "qService q = []" "\<not> usesTimeIndex q" "0 < qMinDuration q"
  shows "t |\<in>| candidates m q"
proof -
  obtain s where s: "s \<in> set (eSpans e)" "matchesSpan q s"
    using selected_span [OF assms(4)] assms(8) by (auto simp: hasSpanPredicate_def)
  let ?b = "durationBucket (Span_Duration s)" and ?a = "durationBucket (qMinDuration q)"
  have b: "?a \<le> ?b" "?b < length (mByDuration m)"
    using matchesSpan_min [OF s(2)] durationBucket_mono Span_Duration_bucket_less [of s] assms(2,8)
    by (auto simp: indexes_ok_def)
  have "?b |\<in>| kDurations (eKeys e)"
    using covered_span [OF assms(1) s(1)] by (simp add: covers_def)
  then have "t |\<in>| arraySet (mByDuration m) ?b"
    using assms(2,3) by (auto simp: indexes_ok_def indexed_def recorded_def)
  then have "t |\<in>| drop ?a (mByDuration m) ! (?b - ?a)"
    using b by (simp add: arraySet_def)
  moreover have "?b - ?a < length (drop ?a (mByDuration m))"
    using b by simp
  ultimately have "t |\<in>| unionSets (drop ?a (mByDuration m))"
    unfolding member_unionSets using nth_mem by blast
  with assms show ?thesis
    by (auto simp: candidates_def usesTimeIndex_def Let_def)
qed

lemma candidates_complete:
  assumes inv: "mem_inv m" and op: "\<not> mClosed m" and valid: "Query_Validate q = None"
    and e: "fmlookup (mTraces m) t = Some e" and sel: "selected q e"
    and day: "usesTimeIndex q \<Longrightarrow> eEnd e - eStart e \<le> Day"
  shows "t |\<in>| candidates m q"
proof -
  have ok: "entry_ok t e" and ix: "indexes_ok m"
    using inv op e by (auto simp: mem_inv_def)
  consider (operation) "qOperation q \<noteq> []" | (service) "qOperation q = []" "qService q \<noteq> []"
    | (window) "usesTimeIndex q"
    | (duration) "qOperation q = []" "qService q = []" "\<not> usesTimeIndex q" "0 < qMinDuration q"
    | (all) "qOperation q = []" "qService q = []" "\<not> usesTimeIndex q" "\<not> 0 < qMinDuration q"
    by (auto simp: usesTimeIndex_def)
  then show ?thesis
  proof cases
    case operation
    then show ?thesis by (rule candidates_operation [OF ok ix valid e sel])
  next
    case service
    then show ?thesis by (rule candidates_service [OF ok ix e sel])
  next
    case window
    then show ?thesis using day by (intro candidates_window [OF ok ix e sel])
  next
    case duration
    then show ?thesis by (rule candidates_duration [OF ok ix e sel])
  next
    case all
    with e show ?thesis
      by (auto simp: candidates_def usesTimeIndex_def Let_def fmdomI)
  qed
qed

subsection \<open>The answer\<close>

text \<open>What the reference search answers on an open store.\<close>

lemma findOver_eq:
  assumes "mem_inv m" "Query_Validate q = None" "\<not> mClosed m"
  shows "findOver ts m q =
    Some (Inr (take (nat (Query_limit q)) (sortFunc bySummary (map (summaryOf m) (filter (matches m q) ts)))))"
  using assms by (simp add: findOver_def findLoop_eq Let_def)

lemma Find_eq_scan:
  assumes inv: "mem_inv m" and day: "\<And>t e. usesTimeIndex q \<Longrightarrow> fmlookup (mTraces m) t = Some e \<Longrightarrow>
      selected q e \<Longrightarrow> eEnd e - eStart e \<le> Day"
  shows "Memory_Find m q = findOver (mapKeys (mTraces m)) m q"
proof (cases "Query_Validate q = None \<and> \<not> mClosed m")
  case True
  have "t |\<in>| candidates m q" if "matches m q t" for t
  proof -
    from that obtain e where "fmlookup (mTraces m) t = Some e" "selected q e"
      by (auto simp: matches_def split: option.splits)
    with candidates_complete [OF inv] True day show ?thesis by blast
  qed
  then have "Set.filter (matches m q) (set (setElems (candidates m q)))
      = Set.filter (matches m q) (set (mapKeys (mTraces m)))"
    by (auto simp: matches_def split: option.splits)
  then show ?thesis
    unfolding Memory_Find_def by (intro findOver_cong [OF inv]) simp_all
next
  case False
  then show ?thesis
    by (auto simp: Memory_Find_def findOver_def split: option.split)
qed

lemma summaryOf_matches:
  assumes "mem_inv m" "matches m q t"
  shows "\<exists>e. fmlookup (mTraces m) t = Some e \<and> selected q e \<and> summarise t e = Some (summaryOf m t)"
proof -
  from assms(2) obtain e where e: "fmlookup (mTraces m) t = Some e" "selected q e"
    by (auto simp: matches_def split: option.splits)
  with assms(1) have "eSpans e \<noteq> []"
    by (auto simp: mem_inv_def entry_ok_def split: if_splits)
  with summarise_Some [of e t] e show ?thesis by (auto simp: summaryOf_def)
qed

lemma matching_summaries:
  assumes "mem_inv m"
  shows "sm \<in> summaryOf m ` {t \<in> {t. fmlookup (mTraces m) t \<noteq> None}. matches m q t} \<longleftrightarrow>
    (\<exists>t e. fmlookup (mTraces m) t = Some e \<and> selected q e \<and> summarise t e = Some sm)"
proof
  assume "sm \<in> summaryOf m ` {t \<in> {t. fmlookup (mTraces m) t \<noteq> None}. matches m q t}"
  then obtain t where "matches m q t" "sm = summaryOf m t" by blast
  with summaryOf_matches [OF assms this(1)] show "\<exists>t e. fmlookup (mTraces m) t = Some e \<and> selected q e \<and> summarise t e = Some sm"
    by blast
next
  assume "\<exists>t e. fmlookup (mTraces m) t = Some e \<and> selected q e \<and> summarise t e = Some sm"
  then obtain t e where "fmlookup (mTraces m) t = Some e" "selected q e" "summarise t e = Some sm" by blast
  then show "sm \<in> summaryOf m ` {t \<in> {t. fmlookup (mTraces m) t \<noteq> None}. matches m q t}"
    by (auto simp: matches_def summaryOf_def intro!: image_eqI [of _ _ t])
qed

lemma strictly_sorted_summaries:
  assumes "mem_inv m" "distinct ts" "\<forall>t \<in> set ts. matches m q t"
  shows "sorted_wrt (\<lambda>a b. bySummary a b < 0) (sortFunc bySummary (map (summaryOf m) ts))"
    (is "sorted_wrt _ ?s")
proof -
  have ids: "map smTraceID (map (summaryOf m) ts) = ts"
    using assms(3) smTraceID_summaryOf [OF assms(1)] by (auto intro!: map_idI)
  have "mset (map smTraceID ?s) = mset ts"
    by (metis ids mset_map mset_sortFunc)
  then have "distinct (map smTraceID ?s)"
    using assms(2) by (metis mset_eq_imp_distinct_iff)
  then have "smTraceID (?s ! i) \<noteq> smTraceID (?s ! j)" if "i < j" "j < length ?s" for i j
    using that nth_eq_iff_index_eq [of "map smTraceID ?s" i j] by auto
  moreover have "bySummary (?s ! i) (?s ! j) \<le> 0" if "i < j" "j < length ?s" for i j
    using that bySummary.sorted_sortFunc by (metis sorted_wrt_nth_less)
  ultimately show ?thesis
    unfolding sorted_wrt_iff_nth_less using bySummary_0 by (meson order_le_less)
qed

definition serviceQuery :: "string \<Rightarrow> Query" where
  "serviceQuery svc = \<lparr>qService = svc, qOperation = [], qMinDuration = 0, qMaxDuration = 0,
     qStart = zeroTime, qEnd = zeroTime, qLimit = 0\<rparr>"

definition windowQuery :: "Time \<Rightarrow> Time \<Rightarrow> Query" where
  "windowQuery start finish = (serviceQuery [])\<lparr>qStart := start, qEnd := finish\<rparr>"

subsection \<open>What the time index leaves out\<close>

text \<open>The minutes under which a trace is indexed after a batch are those it had and the start
  minutes of its spans in the batch.\<close>

lemma kMinutes_insert_all:
  "recorded kMinutes (mTraces (foldl Memory_insert m ss)) t k \<longleftrightarrow>
     recorded kMinutes (mTraces m) t k \<or> (\<exists>s \<in> set ss. sTraceID s = t \<and> startMinute (sStart s) = k)"
proof (induction ss arbitrary: m)
  case (Cons s ss)
  have "recorded kMinutes (mTraces (Memory_insert m s)) t k \<longleftrightarrow>
      t = sTraceID s \<and> k = startMinute (sStart s) \<or> recorded kMinutes (mTraces m) t k"
    using recorded_updated [of kMinutes s "startMinute (sStart s)" m]
    by (simp add: Memory_insert_eq addKeys_def newEntry_def)
  with Cons.IH [of "Memory_insert m s"] show ?case by auto
qed simp

lemma early_not_candidate:
  assumes "mem_inv m" "\<not> mClosed m" "usesTimeIndex q"
    and "\<And>k. recorded kMinutes (mTraces m) t k \<Longrightarrow> k < startMinute (qStart q) - minuteIndexLimit"
  shows "t |\<notin>| candidates m q"
proof -
  have "indexed (getSet (mByMinute m)) (recorded kMinutes (mTraces m))"
    using assms(1,2) by (simp add: mem_inv_def indexes_ok_def)
  then have "k < startMinute (qStart q) - minuteIndexLimit" if "t |\<in>| getSet (mByMinute m) k" for k
    using that assms(4) by (simp add: indexed_def)
  then have "t |\<notin>| unionSets (map (getSet (mByMinute m)) [startMinute (qStart q) - minuteIndexLimit..startMinute (qEnd q)])"
    by (force simp: member_unionSets)
  then show ?thesis
    using assms(3) by (simp add: candidates_def usesTimeIndex_def Let_def)
qed

lemma Find_only_candidates:
  assumes "mem_inv m" "Query_Validate q = None" "\<not> mClosed m"
  shows "\<exists>found. Memory_Find m q = Some (Inr found) \<and> smTraceID ` set found \<subseteq> fset (candidates m q)"
proof -
  let ?ts = "filter (matches m q) (setElems (candidates m q))"
  let ?found = "take (nat (Query_limit q)) (sortFunc bySummary (map (summaryOf m) ?ts))"
  have "set ?found \<subseteq> summaryOf m ` set ?ts"
    using set_take_subset by (metis (no_types, lifting) mset_sortFunc set_map set_mset_mset)
  moreover have "smTraceID ` summaryOf m ` set ?ts \<subseteq> fset (candidates m q)"
    using smTraceID_summaryOf [OF assms(1)] by auto
  ultimately have "smTraceID ` set ?found \<subseteq> fset (candidates m q)"
    by blast
  then show ?thesis
    using findOver_eq [OF assms] by (simp add: Memory_Find_def)
qed

text \<open>The envelope of a stored trace reaches to the end of every span written.\<close>

lemma eEnd_insert_all:
  assumes "s \<in> set ss"
  shows "\<exists>e. fmlookup (mTraces (foldl Memory_insert m ss)) (sTraceID s) = Some e \<and> sEnd s \<le> eEnd e"
proof -
  have grow: "\<exists>e'. fmlookup (mTraces (foldl Memory_insert m us)) t = Some e' \<and> eEnd e \<le> eEnd e'"
    if "fmlookup (mTraces m) t = Some e" for m us t e
    using that
  proof (induction us arbitrary: m e)
    case (Cons u us)
    then have "\<exists>e'. fmlookup (mTraces (Memory_insert m u)) t = Some e' \<and> eEnd e \<le> eEnd e'"
      by (auto simp: Memory_insert_eq updatedEntry_def Let_def)
    then obtain e' where e': "fmlookup (mTraces (Memory_insert m u)) t = Some e'" "eEnd e \<le> eEnd e'"
      by blast
    from Cons.IH [OF e'(1)] e'(2) show ?case by auto
  qed simp
  from assms obtain us vs where ss: "ss = us @ s # vs"
    by (meson split_list)
  have "\<exists>e. fmlookup (mTraces (Memory_insert (foldl Memory_insert m us) s)) (sTraceID s) = Some e \<and> sEnd s \<le> eEnd e"
    by (simp add: Memory_insert_eq updatedEntry_def Let_def)
  then obtain e where e: "fmlookup (mTraces (Memory_insert (foldl Memory_insert m us) s)) (sTraceID s) = Some e"
      "sEnd s \<le> eEnd e"
    by blast
  from grow [OF e(1), of vs] e(2) ss show ?thesis by auto
qed

lemma foldl_upsert_subset: "set (foldl upsert xs ss) \<subseteq> set xs \<union> set ss"
proof (induction ss arbitrary: xs)
  case (Cons s ss)
  with set_upsert_subset [of xs s] Cons.IH [of "upsert xs s"] show ?case by auto
qed simp

lemma matches_written:
  assumes "mem_inv m" "\<not> mClosed m" "fmlookup (mTraces m) t = None"
    and ss: "\<And>s. s \<in> set ss \<Longrightarrow> Validate s = None \<and> sTraceID s = t \<and> matchesSpan q s
      \<and> startMinute (sStart s) < startMinute (qStart q)"
    and "\<exists>s \<in> set ss. qStart q \<le> sEnd s" and q: "Query_Validate q = None" "usesTimeIndex q"
  shows "matches (foldl Memory_insert m ss) q t"
proof -
  let ?m = "foldl Memory_insert m ss"
  obtain e where e: "fmlookup (mTraces ?m) t = Some e" "qStart q \<le> eEnd e"
    using assms(5) eEnd_insert_all [of _ ss m] ss by (metis order_trans)
  have inv: "mem_inv ?m"
    using assms(1,2) ss by (simp add: mem_inv_insert_all)
  then have "entry_ok t e"
    using e(1) assms(2) by (simp add: mem_inv_def)
  then obtain s where s: "s \<in> set (eSpans e)" "eStart e \<le> sStart s"
    unfolding entry_ok_def by (metis list.set_intros(1) neq_Nil_conv)
  have "set (eSpans e) \<subseteq> set ss"
    using spansOf_insert_all [OF assms(1,2), of ss t] foldl_upsert_subset [of "[]"] ss e(1) assms(3)
    by (auto simp: Memory_Inv.spansOf_def)
  with s ss have span: "matchesSpan q s" "sStart s < qStart q"
    using startMinute_mono [of "qStart q" "sStart s"] by (auto simp: linorder_not_le [symmetric])
  moreover have "qStart q \<le> qEnd q"
    using q by (auto simp: Query_Validate_def usesTimeIndex_def split: if_splits)
  ultimately have "selected q e"
    using s e(2) by (auto simp: selected_def overlaps_def list_ex_iff)
  with e(1) show ?thesis by (simp add: matches_def)
qed

subsection \<open>Properties\<close>

text \<open>C8: a search finds every match. On an open store and a valid query, \<open>Find\<close> returns the
  summaries of exactly the traces that pass the query, newest first and by identifier among
  those that began together, cut to the query's limit. The one condition: when the query is
  answered from the time index, the matching traces last no longer than a day.\<close>

theorem Memory_Find_complete:
  assumes "mem_reachable m" "Query_Validate q = None" "\<not> mClosed m"
    and "\<And>t e. usesTimeIndex q \<Longrightarrow> fmlookup (mTraces m) t = Some e \<Longrightarrow> selected q e \<Longrightarrow> eEnd e - eStart e \<le> Day"
  shows "\<exists>found. Memory_Find m q = Some (Inr (take (nat (Query_limit q)) found))
    \<and> sorted_wrt (\<lambda>a b. bySummary a b < 0) found
    \<and> (\<forall>sm. sm \<in> set found \<longleftrightarrow> (\<exists>t e. fmlookup (mTraces m) t = Some e \<and> selected q e \<and> summarise t e = Some sm))"
proof -
  have inv: "mem_inv m" using assms(1) by (rule reachable_inv)
  let ?ts = "filter (matches m q) (mapKeys (mTraces m))"
  let ?found = "sortFunc bySummary (map (summaryOf m) ?ts)"
  have "Memory_Find m q = Some (Inr (take (nat (Query_limit q)) ?found))"
    using Find_eq_scan [OF inv assms(4)] findOver_eq [OF inv assms(2,3)] by simp
  moreover have "sorted_wrt (\<lambda>a b. bySummary a b < 0) ?found"
    by (rule strictly_sorted_summaries [OF inv]) auto
  moreover have "sm \<in> set ?found \<longleftrightarrow>
      (\<exists>t e. fmlookup (mTraces m) t = Some e \<and> selected q e \<and> summarise t e = Some sm)" for sm
    using matching_summaries [OF inv, of sm q] by simp
  ultimately show ?thesis by blast
qed

theorem Memory_Find_complete_witness:
  "\<exists>found. Memory_Find (snd (Memory_Write (NewMemory 0) [exampleSpan 1 2 0 5 9])) (serviceQuery ''svc'')
        = Some (Inr (take 20 found))
    \<and> sorted_wrt (\<lambda>a b. bySummary a b < 0) found"
proof -
  let ?q = "serviceQuery ''svc''"
  have q: "Query_Validate ?q = None" "nat (Query_limit ?q) = 20" "\<not> usesTimeIndex ?q"
    by (simp_all add: serviceQuery_def Query_Validate_def Query_limit_def DefaultLimit_def MaxLimit_def usesTimeIndex_def)
  have m: "mem_reachable (snd (Memory_Write (NewMemory 0) [exampleSpan 1 2 0 5 9]))"
    "\<not> mClosed (snd (Memory_Write (NewMemory 0) [exampleSpan 1 2 0 5 9]))"
    by (rule mem_reachable.intros)+ (simp add: Memory_Write_def NewMemory_def)
  from Memory_Find_complete [OF m(1) q(1) m(2)] q(2,3) show ?thesis by auto
qed

text \<open>C18: the order in which Go visits the candidate set makes no difference, and a search never
  dereferences a missing head span: \<open>Find\<close> always returns.\<close>

theorem Memory_Find_any_order:
  assumes "mem_reachable m" "distinct ts" "set ts = fset (candidates m q)"
  shows "findOver ts m q = Memory_Find m q \<and> Memory_Find m q \<noteq> None"
proof -
  have inv: "mem_inv m" using assms(1) by (rule reachable_inv)
  have "findOver ts m q = Memory_Find m q"
    unfolding Memory_Find_def using assms by (intro findOver_cong [OF inv]) auto
  moreover have "Memory_Find m q \<noteq> None"
    by (auto simp: Memory_Find_def findOver_def findLoop_eq [OF inv] split: option.splits)
  ultimately show ?thesis by simp
qed

theorem Memory_Find_any_order_witness:
  "let m = snd (Memory_Write (NewMemory 0) [exampleSpan 1 2 0 5 9]); q = serviceQuery ''svc''
   in findOver (rev (setElems (candidates m q))) m q = Memory_Find m q \<and> Memory_Find m q \<noteq> None"
  unfolding Let_def by (rule Memory_Find_any_order) (simp_all add: mem_reachable.intros)

text \<open>C23: the time index misses long traces. Take any reachable open store and write a batch of
  valid spans of a trace it does not hold, each starting in a minute more than a day before the
  minute in which the window of a valid query opens, and one of them still running when it
  opens. If the query is answered from the time index the trace matches it (it overlaps the
  window and its spans pass the duration bounds) and is nevertheless missing from the answer.
  The documentation of \<open>Find\<close> says that an index can cost time but never a wrong answer.\<close>

theorem Memory_Find_misses_long_trace:
  assumes "mem_reachable m" "\<not> mClosed m" "fmlookup (mTraces m) t = None"
    and ss: "\<forall>s \<in> set ss. Validate s = None \<and> sTraceID s = t \<and> matchesSpan q s
      \<and> startMinute (sStart s) < startMinute (qStart q) - minuteIndexLimit"
    and "\<exists>s \<in> set ss. qStart q \<le> sEnd s" and q: "Query_Validate q = None" "usesTimeIndex q"
  shows "\<exists>m' found. Memory_Write m ss = (None, m') \<and> matches m' q t
    \<and> Memory_Find m' q = Some (Inr found) \<and> t \<notin> smTraceID ` set found"
proof -
  let ?m = "foldl Memory_insert m ss"
  have w: "Memory_Write m ss = (None, ?m)"
    using assms(2) ss firstInvalid_None_iff [of 0 ss] by (simp add: Memory_Write_def)
  have inv: "mem_inv ?m" and op: "\<not> mClosed ?m"
    using mem_inv_insert_all [OF reachable_inv [OF assms(1)] assms(2)] assms(2) ss by simp_all
  have "matches ?m q t"
    by (rule matches_written [OF reachable_inv [OF assms(1)] assms(2,3) _ assms(5) q]) (use ss in \<open>auto simp: minuteIndexLimit_def\<close>)
  moreover have "t |\<notin>| candidates ?m q"
  proof (rule early_not_candidate [OF inv op q(2)])
    have "\<not> recorded kMinutes (mTraces m) t k" for k
      using assms(3) by (simp add: recorded_def)
    then show "recorded kMinutes (mTraces ?m) t k \<Longrightarrow> k < startMinute (qStart q) - minuteIndexLimit" for k
      using ss by (auto simp: kMinutes_insert_all)
  qed
  ultimately show ?thesis
    using w Find_only_candidates [OF inv q(1) op] by blast
qed

theorem Memory_Find_misses_long_trace_witness:
  "\<exists>m' found. Memory_Write (NewMemory 0) [exampleSpan 1 2 0 0 (3 * Day)] = (None, m')
    \<and> matches m' (windowQuery (2 * Day) (2 * Day + 60 * Second)) (exampleID 16 1)
    \<and> Memory_Find m' (windowQuery (2 * Day) (2 * Day + 60 * Second)) = Some (Inr found)
    \<and> exampleID 16 1 \<notin> smTraceID ` set found"
proof (rule Memory_Find_misses_long_trace)
  show "mem_reachable (NewMemory 0)" by (rule mem_reachable.intros)
  show "Query_Validate (windowQuery (2 * Day) (2 * Day + 60 * Second)) = None"
    by (simp add: windowQuery_def serviceQuery_def Query_Validate_def MaxLimit_def time_IsZero_def zeroTime_def)
  show "usesTimeIndex (windowQuery (2 * Day) (2 * Day + 60 * Second))"
    by (simp add: usesTimeIndex_def windowQuery_def serviceQuery_def time_IsZero_def zeroTime_def
        startMinute_def time_Unix_def go_div_def minuteIndexLimit_def)
  show "\<forall>s \<in> set [exampleSpan 1 2 0 0 (3 * Day)]. Validate s = None \<and> sTraceID s = exampleID 16 1
      \<and> matchesSpan (windowQuery (2 * Day) (2 * Day + 60 * Second)) s
      \<and> startMinute (sStart s) < startMinute (qStart (windowQuery (2 * Day) (2 * Day + 60 * Second))) - minuteIndexLimit"
    by (simp add: windowQuery_def serviceQuery_def matchesSpan_def Let_def)
       (simp add: exampleSpan_def Span_Duration_def time_Sub_def startMinute_def time_Unix_def go_div_def
          minuteIndexLimit_def minDuration_def maxDuration_def)
qed (simp_all add: NewMemory_def exampleSpan_def windowQuery_def)

end
