(* ===== verification/Go_Binary.thy ===== *)
theory Go_Binary
  imports Spandrel_Prelude
begin

section \<open>encoding/binary and hash/crc32\<close>

text \<open>
  The variable-length and fixed-width integer encodings the codec and the record framing use,
  and the CRC-32C checksum, as the Go standard library computes them. \<open>Uvarint\<close> returns the
  value and the number of bytes read, \<open>0\<close> bytes when the buffer ends too early and a negative
  count on overflow.
\<close>

subsection \<open>Variable-length integers\<close>

function AppendUvarint :: "byte list \<Rightarrow> uint64 \<Rightarrow> byte list" where
  "AppendUvarint buf x =
     (if 128 \<le> x then AppendUvarint (buf @ [ucast x OR 128]) (drop_bit 7 x)
      else buf @ [ucast x])"
  by pat_completeness auto
termination
proof (relation "measure (\<lambda>(buf, x). unat x)")
  fix buf :: "byte list" and x :: uint64
  assume "128 \<le> x"
  then have "128 \<le> unat x"
    by (simp add: word_le_nat_alt)
  then show "((buf @ [ucast x OR 128], drop_bit 7 x), buf, x) \<in> measure (\<lambda>(buf, x). unat x)"
    by (simp add: drop_bit_eq_div unat_div)
qed simp

declare AppendUvarint.simps [simp del]

fun uvarintLoop :: "nat \<Rightarrow> nat \<Rightarrow> uint64 \<Rightarrow> byte list \<Rightarrow> uint64 \<times> int" where
  "uvarintLoop i s x [] = (0, 0)"
| "uvarintLoop i s x (b # buf) =
     (if i = 10 then (0, - (int i + 1))
      else if b < 128 then
        (if i = 9 \<and> 1 < b then (0, - (int i + 1))
         else (x OR push_bit s (ucast b), int i + 1))
      else uvarintLoop (i + 1) (s + 7) (x OR push_bit s (ucast (b AND 127))) buf)"

definition Uvarint :: "byte list \<Rightarrow> uint64 \<times> int" where
  "Uvarint buf = uvarintLoop 0 0 0 buf"

definition AppendVarint :: "byte list \<Rightarrow> int \<Rightarrow> byte list" where
  "AppendVarint buf x =
     (let ux = push_bit 1 (word_of_int x :: uint64)
      in AppendUvarint buf (if x < 0 then NOT ux else ux))"

definition Varint :: "byte list \<Rightarrow> int \<times> int" where
  "Varint buf =
     (let (ux, n) = Uvarint buf; x = drop_bit 1 ux
      in (sint (if bit ux 0 then NOT x else x), n))"

subsection \<open>Little-endian words\<close>

definition putUint32 :: "uint32 \<Rightarrow> byte list" where
  "putUint32 v = map (\<lambda>i. ucast (drop_bit (8 * i) v)) [0..<4]"

definition putUint64 :: "uint64 \<Rightarrow> byte list" where
  "putUint64 v = map (\<lambda>i. ucast (drop_bit (8 * i) v)) [0..<8]"

definition getUint32 :: "byte list \<Rightarrow> uint32" where
  "getUint32 b = foldr (\<lambda>i w. push_bit (8 * i) (ucast (b ! i)) OR w) [0..<4] 0"

definition getUint64 :: "byte list \<Rightarrow> uint64" where
  "getUint64 b = foldr (\<lambda>i w. push_bit (8 * i) (ucast (b ! i)) OR w) [0..<8] 0"

subsection \<open>CRC-32C\<close>

definition castagnoliPoly :: uint32 where "castagnoliPoly = 0x82f63b78"

definition crcBit :: "uint32 \<Rightarrow> uint32" where
  "crcBit c = (if bit c 0 then drop_bit 1 c XOR castagnoliPoly else drop_bit 1 c)"

definition crcTable :: "byte \<Rightarrow> uint32" where
  "crcTable i = (crcBit ^^ 8) (ucast i)"

definition crcUpdate :: "uint32 \<Rightarrow> byte \<Rightarrow> uint32" where
  "crcUpdate crc v = crcTable (ucast crc XOR v) XOR drop_bit 8 crc"

definition crc32_Checksum :: "byte list \<Rightarrow> uint32" where
  "crc32_Checksum data = NOT (foldl crcUpdate (NOT 0) data)"

subsection \<open>Lemmas: bits\<close>

lemma bit_127: "bit (127 :: 'a::len word) n \<longleftrightarrow> n < 7 \<and> n < LENGTH('a)"
proof -
  have "(127 :: 'a word) = mask 7"
    by (simp add: mask_eq_exp_minus_1)
  then show ?thesis
    by (simp only: bit_mask_iff possible_bit_word) auto
qed

lemma bit_128: "bit (128 :: 'a::len word) n \<longleftrightarrow> n = 7 \<and> n < LENGTH('a)"
proof -
  have "(128 :: 'a word) = 2 ^ 7"
    by simp
  then show ?thesis
    by (simp only: bit_exp_iff possible_bit_word) auto
qed

lemma bit_low7: "bit ((ucast (x :: uint64) OR (128 :: byte)) AND 127) m \<longleftrightarrow> m < 7 \<and> bit x m"
  by (simp only: bit_and_iff bit_or_iff bit_127 bit_128 bit_unsigned_iff possible_bit_word) auto

text \<open>Seven low bits and the rest, shifted into place, are the whole word.\<close>

lemma or_low7_rest:
  "acc OR push_bit s (ucast ((ucast x OR (128 :: byte)) AND 127)) OR push_bit (s + 7) (drop_bit 7 x)
   = acc OR push_bit s (x :: uint64)"
proof (rule bit_eqI)
  fix n
  let ?b = "(ucast x OR (128 :: byte)) AND 127"
  have "7 + (n - (s + 7)) = n - s" if "s + 7 \<le> n"
    using that by simp
  then have "bit (acc OR push_bit s (ucast b) OR push_bit (s + 7) (drop_bit 7 x)) n
      = bit (acc OR push_bit s x) n"
    if "\<And>m. bit b m \<longleftrightarrow> m < 7 \<and> bit x m" for b :: byte
    by (cases "s + 7 \<le> n") (auto simp: bit_simps that)
  then show "bit (acc OR push_bit s (ucast ?b) OR push_bit (s + 7) (drop_bit 7 x)) n
      = bit (acc OR push_bit s x) n"
    using bit_low7 by blast
qed

lemma or_128_not_less: "\<not> x OR 128 < (128 :: byte)"
proof
  assume "x OR 128 < 128"
  then have "x OR 128 < 2 ^ 7" by simp
  then have "take_bit 7 (x OR 128) = x OR 128"
    by (metis less_mask_eq take_bit_eq_mask)
  moreover have "bit (x OR 128) 7"
    by (simp add: bit_simps bit_128)
  ultimately show False
    by (metis bit_take_bit_iff less_irrefl)
qed

lemma ucast_ucast_small:
  assumes "x < 128"
  shows "ucast (ucast x :: byte) = (x :: uint64)"
proof -
  have "uint x < 128"
    using assms by (simp add: word_less_alt)
  then have "take_bit 8 (uint x) = uint x"
    by (simp add: take_bit_int_eq_self)
  then show ?thesis
    by (simp add: word_uint_eq_iff unsigned_ucast_eq unsigned_take_bit_eq)
qed

lemma ucast_gt_1_iff: "x < 2 \<Longrightarrow> \<not> 1 < (ucast (x :: uint64) :: byte)"
proof -
  assume "x < 2"
  then have "unat x < 2"
    by (simp add: word_less_nat_alt)
  then have "x = 0 \<or> x = 1"
    by (auto simp: word_unat_eq_iff less_2_cases_iff)
  then show ?thesis by auto
qed

lemma ucast_less_128: "x < 128 \<Longrightarrow> ucast (x :: uint64) < (128 :: byte)"
proof -
  assume "x < 128"
  then have "uint x < 128" "uint x mod 256 = uint x"
    by (simp_all add: word_less_alt)
  then show ?thesis
    by (simp add: word_less_alt uint_word_of_int unsigned_ucast_eq take_bit_eq_mod uint_mod)
qed

subsection \<open>Lemmas: varints\<close>

lemma AppendUvarint_less: "x < 128 \<Longrightarrow> AppendUvarint buf x = buf @ [ucast x]"
  by (simp add: AppendUvarint.simps)

lemma AppendUvarint_prefix: "AppendUvarint (p @ buf) x = p @ AppendUvarint buf x"
proof (induction buf x rule: AppendUvarint.induct)
  case (1 buf x)
  then show ?case
    by (cases "128 \<le> x") (simp_all add: AppendUvarint.simps [of _ x])
qed

lemma AppendUvarint_append: "AppendUvarint buf x = buf @ AppendUvarint [] x"
  using AppendUvarint_prefix [of buf "[]" x] by simp

lemma AppendUvarint_Cons:
  "128 \<le> x \<Longrightarrow> AppendUvarint [] x = (ucast x OR 128) # AppendUvarint [] (drop_bit 7 x)"
  using AppendUvarint_append [of "[ucast x OR 128]"] by (simp add: AppendUvarint.simps [of "[]" x])

lemma AppendUvarint_not_Nil [simp]: "AppendUvarint [] x \<noteq> []"
  by (cases "128 \<le> x") (simp_all add: AppendUvarint_Cons AppendUvarint_less)

lemma uvarint_width:
  assumes "unat (x :: uint64) < 2 ^ (64 - 7 * i)" "128 \<le> x" "i \<le> 9"
  shows "i < 9" "unat (drop_bit 7 x) < 2 ^ (64 - 7 * (i + 1))"
proof -
  have x: "128 \<le> unat x"
    using assms(2) by (simp add: word_le_nat_alt)
  show i: "i < 9"
  proof (rule ccontr)
    assume "\<not> i < 9"
    then have "i = 9" using assms by simp
    with assms x show False by simp
  qed
  then have "64 - 7 * i = 7 + (64 - 7 * (i + 1))" by simp
  then have "(2::nat) ^ (64 - 7 * i) = 2 ^ 7 * 2 ^ (64 - 7 * (i + 1))"
    by (metis power_add)
  then have "unat x div 128 < 2 ^ (64 - 7 * (i + 1))"
    using assms(1) by (simp add: less_mult_imp_div_less mult.commute)
  then show "unat (drop_bit 7 x) < 2 ^ (64 - 7 * (i + 1))"
    by (simp add: drop_bit_eq_div unat_div)
qed

lemma uvarintLoop_AppendUvarint:
  assumes "i \<le> 9" "unat x < 2 ^ (64 - 7 * i)"
  shows "uvarintLoop i (7 * i) acc (AppendUvarint [] x @ rest)
    = (acc OR push_bit (7 * i) x, int (i + length (AppendUvarint [] x)))"
  using assms
proof (induction "unat x" arbitrary: x i acc rule: less_induct)
  case less
  show ?case
  proof (cases "128 \<le> x")
    case True
    note w = uvarint_width [OF less.prems(2) True less.prems(1)]
    have "unat (drop_bit 7 x) < unat x"
      using True by (simp add: word_le_nat_alt drop_bit_eq_div unat_div)
    from less.hyps [OF this, of "i + 1"] w
    have "uvarintLoop (i + 1) (7 * (i + 1)) (acc OR push_bit (7 * i) (ucast ((ucast x OR (128 :: byte)) AND 127)))
        (AppendUvarint [] (drop_bit 7 x) @ rest)
      = ((acc OR push_bit (7 * i) (ucast ((ucast x OR (128 :: byte)) AND 127))) OR push_bit (7 * (i + 1)) (drop_bit 7 x),
         int (i + 1 + length (AppendUvarint [] (drop_bit 7 x))))"
      by simp
    with True w(1) or_low7_rest [of acc "7 * i" x] show ?thesis
      by (simp add: AppendUvarint_Cons or_128_not_less or.assoc add.commute [of 7])
  next
    case False
    then have x: "x < 128" by simp
    have "\<not> 1 < (ucast x :: byte)" if "i = 9"
    proof -
      have "x < 2"
        using less.prems(2) that by (simp add: word_less_nat_alt)
      then show ?thesis by (rule ucast_gt_1_iff)
    qed
    with x less.prems(1) show ?thesis
      by (simp add: AppendUvarint_less ucast_less_128 ucast_ucast_small)
  qed
qed

lemma Uvarint_AppendUvarint [simp]:
  "Uvarint (AppendUvarint [] x @ rest) = (x, int (length (AppendUvarint [] x)))"
proof -
  have "unat x < 2 ^ 64"
    using unsigned_less [of x, where 'a = nat] by simp
  then show ?thesis
    using uvarintLoop_AppendUvarint [of 0 x 0 rest] by (simp add: Uvarint_def)
qed

text \<open>A variable-length integer never reads past the buffer.\<close>

lemma uvarintLoop_bound: "snd (uvarintLoop i s x buf) \<le> int (i + length buf)"
  by (induction i s x buf rule: uvarintLoop.induct) auto

lemma Uvarint_bound: "snd (Uvarint buf) \<le> int (length buf)"
  using uvarintLoop_bound [of 0 0 0 buf] by (simp add: Uvarint_def)

text \<open>The zigzag form of a signed integer.\<close>

lemma zigzag_nonneg:
  assumes "\<not> bit (w :: uint64) 63" "k = 1"
  shows "drop_bit k (push_bit k w) = w"
proof (rule bit_eqI)
  fix n
  have "n \<noteq> 63" if "bit w n"
    using assms that by metis
  moreover have "n < 64" if "bit w n"
    using bit_imp_le_length [OF that] by simp
  ultimately show "bit (drop_bit k (push_bit k w)) n = bit w n"
    using assms(2) by (auto simp only: bit_drop_bit_eq bit_push_bit_iff o_def) auto
qed

lemma zigzag_neg:
  assumes "bit (w :: uint64) 63" "k = 1"
  shows "NOT (drop_bit k (NOT (push_bit k w))) = w"
proof (rule bit_eqI)
  fix n
  assume "possible_bit TYPE(uint64) n"
  then have "n < 64" by simp
  then show "bit (NOT (drop_bit k (NOT (push_bit k w)))) n = bit w n"
    using assms by (cases "n = 63")
      (auto simp only: bit_drop_bit_eq bit_push_bit_iff bit_not_iff o_def possible_bit_word, auto)
qed

lemma AppendVarint_append: "AppendVarint buf x = buf @ AppendVarint [] x"
  unfolding AppendVarint_def Let_def by (rule AppendUvarint_append)

lemma Varint_AppendVarint [simp]:
  assumes "in_int64 x"
  shows "Varint (AppendVarint [] x @ rest) = (x, int (length (AppendVarint [] x)))"
proof -
  let ?w = "word_of_int x :: uint64"
  have s: "sint ?w = x"
    using assms by simp
  have sign: "bit ?w 63 \<longleftrightarrow> x < 0"
    using bit_last_iff [of ?w] s by simp
  have low: "\<not> bit (push_bit 1 ?w) 0"
    by (simp only: bit_push_bit_iff) simp
  show ?thesis
  proof (cases "x < 0")
    case True
    then show ?thesis
      using s sign low zigzag_neg [of ?w 1]
      by (simp only: Varint_def AppendVarint_def Let_def Uvarint_AppendUvarint prod.case if_True bit_not_iff
          possible_bit_word) simp
  next
    case False
    then show ?thesis
      using s sign low zigzag_nonneg [of ?w 1]
      by (simp only: Varint_def AppendVarint_def Let_def Uvarint_AppendUvarint prod.case if_False) simp
  qed
qed

lemma AppendVarint_not_Nil [simp]: "AppendVarint [] x \<noteq> []"
  by (simp add: AppendVarint_def Let_def)

subsection \<open>Lemmas: little-endian words\<close>

lemma foldr_bytes_word:
  fixes v :: "'a::len word"
  assumes "LENGTH('a) \<le> 8 * k"
  shows "foldr (\<lambda>i w. push_bit (8 * i) (ucast (ucast (drop_bit (8 * i) v) :: byte)) OR w) [0..<k] 0 = v"
proof (rule bit_eqI)
  fix n
  let ?p = "\<lambda>i. push_bit (8 * i) (ucast (ucast (drop_bit (8 * i) v) :: byte)) :: 'a word"
  assume "possible_bit TYPE('a word) n"
  then have n: "n < LENGTH('a)" by simp
  have f: "bit (foldr (\<lambda>i w. ?p i OR w) is 0) n \<longleftrightarrow> (\<exists>i \<in> set is. bit (?p i) n)" for "is"
    by (induction "is") (simp_all add: bit_or_iff)
  have g: "bit (?p i) n \<longleftrightarrow> i = n div 8 \<and> bit v n" for i
    using n by (auto simp: bit_simps)
  show "bit (foldr (\<lambda>i w. ?p i OR w) [0..<k] 0) n = bit v n"
    using n assms unfolding f g by (auto simp: less_mult_imp_div_less)
qed

lemma length_putUint32 [simp]: "length (putUint32 v) = 4"
  by (simp add: putUint32_def)

lemma length_putUint64 [simp]: "length (putUint64 v) = 8"
  by (simp add: putUint64_def)

lemma getUint32_putUint32 [simp]: "getUint32 (putUint32 v @ rest) = v"
proof -
  have "getUint32 (putUint32 v @ rest)
      = foldr (\<lambda>i w. push_bit (8 * i) (ucast (ucast (drop_bit (8 * i) v) :: byte)) OR w) [0..<4] 0"
    unfolding getUint32_def
    by (rule foldr_cong) (simp_all add: putUint32_def nth_append)
  then show ?thesis
    using foldr_bytes_word [of 4 v] by simp
qed

lemma getUint64_putUint64 [simp]: "getUint64 (putUint64 v) = v"
proof -
  have "getUint64 (putUint64 v)
      = foldr (\<lambda>i w. push_bit (8 * i) (ucast (ucast (drop_bit (8 * i) v) :: byte)) OR w) [0..<8] 0"
    unfolding getUint64_def
    by (rule foldr_cong) (simp_all add: putUint64_def)
  then show ?thesis
    using foldr_bytes_word [of 8 v] by simp
qed

end
