(* ===== verification/Codec.thy ===== *)
theory Codec
  imports Trace_Span Go_Binary
begin

section \<open>The span codec: internal/storage/codec.go\<close>

text \<open>
  \<open>encodeSpan\<close> appends to a buffer; \<open>decodeSpan\<close> reads through a \<open>decoder\<close> whose first failure
  sticks. Each reading method is a function from a decoder to its result and the decoder
  afterwards; Go's nil slice is \<open>None\<close>. The locale \<open>field_codec\<close> is the contract between a
  writing and a reading function; it is interpreted on every pair the codec has, and the
  span-level theorems are the composition of those facts.
\<close>

definition codecVersion :: byte where "codecVersion = 1"

datatype CodecError =
    Truncated string
  | UnknownVersion byte
  | UnknownValueKind byte string
  | TrailingBytes nat

subsection \<open>Encoding\<close>

definition appendString :: "byte list \<Rightarrow> string \<Rightarrow> byte list" where
  "appendString b s = AppendUvarint b (word_of_nat (length s)) @ bytes_of_string s"

definition appendValue :: "byte list \<Rightarrow> Value \<Rightarrow> byte list" where
  "appendValue b v =
     (if vKind v = ValueString then appendString b (fst (AsString v))
      else if vKind v = ValueBool then b @ [if fst (AsBool v) then 1 else 0]
      else if vKind v = ValueInt then AppendVarint b (fst (AsInt v))
      else if vKind v = ValueFloat then b @ putUint64 (fst (AsFloat v))
      else b)"

definition appendKeyValue :: "byte list \<Rightarrow> KeyValue \<Rightarrow> byte list" where
  "appendKeyValue b kv =
     (let b = appendString b (kvKey kv);
          b = b @ [vKind (kvValue kv)]
      in appendValue b (kvValue kv))"

definition appendAttributes :: "byte list \<Rightarrow> KeyValue list \<Rightarrow> byte list" where
  "appendAttributes b kvs = foldl appendKeyValue (AppendUvarint b (word_of_nat (length kvs))) kvs"

definition encodeSpan :: "byte list \<Rightarrow> Span \<Rightarrow> byte list" where
  "encodeSpan b0 s =
     (let b = b0 @ [codecVersion];
          b = b @ sTraceID s;
          b = b @ sSpanID s;
          b = b @ sParentSpanID s;
          b = appendString b (sName s);
          b = b @ [sKind s];
          b = appendString b (sService s);
          b = AppendVarint b (time_UnixNano (sStart s));
          b = AppendVarint b (time_UnixNano (sEnd s));
          b = b @ [stCode (sStatus s)];
          b = appendString b (stMessage (sStatus s));
          b = appendAttributes b (sAttributes s);
          b = appendAttributes b (sResource s)
      in b)"

subsection \<open>Decoding\<close>

record decoder =
  dBuf :: "byte list"
  dErr :: "CodecError option"

definition d_fail :: "decoder \<Rightarrow> string \<Rightarrow> decoder" where
  "d_fail d what = (if dErr d = None then d\<lparr>dErr := Some (Truncated what)\<rparr> else d)"

definition d_bytes :: "int \<Rightarrow> decoder \<Rightarrow> string \<Rightarrow> byte list option \<times> decoder" where
  "d_bytes n d what =
     (if dErr d \<noteq> None then (None, d)
      else if n < 0 \<or> int (length (dBuf d)) < n then (None, d_fail d what)
      else (Some (take (nat n) (dBuf d)), d\<lparr>dBuf := drop (nat n) (dBuf d)\<rparr>))"

definition d_byte :: "decoder \<Rightarrow> string \<Rightarrow> byte \<times> decoder" where
  "d_byte d what =
     (case d_bytes 1 d what of (None, d') \<Rightarrow> (0, d') | (Some b, d') \<Rightarrow> (b ! 0, d'))"

definition d_uvarint :: "decoder \<Rightarrow> string \<Rightarrow> uint64 \<times> decoder" where
  "d_uvarint d what =
     (if dErr d \<noteq> None then (0, d)
      else let (v, n) = Uvarint (dBuf d)
           in if n \<le> 0 then (0, d_fail d what) else (v, d\<lparr>dBuf := drop (nat n) (dBuf d)\<rparr>))"

definition d_varint :: "decoder \<Rightarrow> string \<Rightarrow> int \<times> decoder" where
  "d_varint d what =
     (if dErr d \<noteq> None then (0, d)
      else let (v, n) = Varint (dBuf d)
           in if n \<le> 0 then (0, d_fail d what) else (v, d\<lparr>dBuf := drop (nat n) (dBuf d)\<rparr>))"

definition d_string :: "decoder \<Rightarrow> string \<Rightarrow> string \<times> decoder" where
  "d_string d what =
     (let (n, d) = d_uvarint d what
      in if length (dBuf d) < unat n then ([], d_fail d what)
         else let (b, d) = d_bytes (uint n) d what
              in (case b of None \<Rightarrow> [] | Some bs \<Rightarrow> string_of_bytes bs, d))"

definition d_value :: "ValueKind \<Rightarrow> decoder \<Rightarrow> string \<Rightarrow> Value \<times> decoder" where
  "d_value kind d what =
     (if kind = ValueString then let (s, d) = d_string d what in (StringValue s, d)
      else if kind = ValueBool then let (b, d) = d_byte d what in (BoolValue (b = 1), d)
      else if kind = ValueInt then let (i, d) = d_varint d what in (IntValue i, d)
      else if kind = ValueFloat then
        (case d_bytes 8 d what of
           (None, d) \<Rightarrow> (zeroValue, d)
         | (Some b, d) \<Rightarrow> (FloatValue (getUint64 b), d))
      else if kind = ValueInvalid then (zeroValue, d)
      else (zeroValue, if dErr d = None then d\<lparr>dErr := Some (UnknownValueKind kind what)\<rparr> else d))"

definition d_keyValue :: "decoder \<Rightarrow> string \<Rightarrow> KeyValue \<times> decoder" where
  "d_keyValue d what =
     (let (key, d) = d_string d what;
          (kind, d) = d_byte d what;
          (v, d) = d_value kind d what
      in (\<lparr>kvKey = key, kvValue = v\<rparr>, d))"

fun d_attrLoop :: "nat \<Rightarrow> KeyValue list \<Rightarrow> decoder \<Rightarrow> string \<Rightarrow> KeyValue list \<times> decoder" where
  "d_attrLoop 0 out d what = (out, d)"
| "d_attrLoop (Suc n) out d what =
     (let (kv, d) = d_keyValue d what
      in if dErr d \<noteq> None then ([], d) else d_attrLoop n (out @ [kv]) d what)"

definition d_attributes :: "decoder \<Rightarrow> string \<Rightarrow> KeyValue list \<times> decoder" where
  "d_attributes d what =
     (let (n, d) = d_uvarint d what
      in if dErr d \<noteq> None \<or> n = 0 then ([], d)
         else if length (dBuf d) div 2 < unat n then ([], d_fail d what)
         else d_attrLoop (unat n) [] d what)"

text \<open>\<open>copy(dst, src)\<close> into a fixed array; a nil source copies nothing.\<close>

definition copyInto :: "byte list \<Rightarrow> byte list option \<Rightarrow> byte list" where
  "copyInto dst src =
     (case src of None \<Rightarrow> dst | Some b \<Rightarrow> take (length dst) b @ drop (length b) dst)"

definition d_array :: "nat \<Rightarrow> decoder \<Rightarrow> string \<Rightarrow> byte list \<times> decoder" where
  "d_array n d what =
     (let (b, d) = d_bytes (int n) d what in (copyInto (replicate n 0) b, d))"

definition decodeFields :: "decoder \<Rightarrow> Span \<times> decoder" where
  "decodeFields d =
     (let (traceID, d) = d_array 16 d ''trace id'';
          (spanID, d) = d_array 8 d ''span id'';
          (parent, d) = d_array 8 d ''parent span id'';
          (name, d) = d_string d ''name'';
          (kind, d) = d_byte d ''kind'';
          (service, d) = d_string d ''service'';
          (start, d) = d_varint d ''start'';
          (finish, d) = d_varint d ''end'';
          (code, d) = d_byte d ''status code'';
          (message, d) = d_string d ''status message'';
          (attributes, d) = d_attributes d ''attributes'';
          (resource, d) = d_attributes d ''resource''
      in (\<lparr>sTraceID = traceID, sSpanID = spanID, sParentSpanID = parent,
            sName = name, sKind = kind, sService = service, sStart = start, sEnd = finish,
            sStatus = \<lparr>stCode = code, stMessage = message\<rparr>,
            sAttributes = attributes, sResource = resource\<rparr>, d))"

definition decodeSpan :: "byte list \<Rightarrow> CodecError + Span" where
  "decodeSpan p =
     (let d = \<lparr>dBuf = p, dErr = None\<rparr>;
          (v, d) = d_byte d ''version''
      in if dErr d = None \<and> v \<noteq> codecVersion then Inl (UnknownVersion v)
         else
           let (s, d) = decodeFields d
           in case dErr d of
                Some e \<Rightarrow> Inl e
              | None \<Rightarrow> if dBuf d \<noteq> [] then Inl (TrailingBytes (length (dBuf d))) else Inr s)"

text \<open>The spans the format can carry: times within the range of \<open>UnixNano\<close>, and lengths a Go
  \<open>int\<close> can hold.\<close>

definition fits :: "'a list \<Rightarrow> bool" where
  "fits xs \<longleftrightarrow> length xs < 2 ^ 63"

definition kv_ok :: "KeyValue \<Rightarrow> bool" where
  "kv_ok kv \<longleftrightarrow> fits (kvKey kv) \<and> fits (vStr (kvValue kv)) \<and> wf_Value (kvValue kv)"

definition attrs_ok :: "KeyValue list \<Rightarrow> bool" where
  "attrs_ok kvs \<longleftrightarrow> fits kvs \<and> (\<forall>kv \<in> set kvs. kv_ok kv)"

definition codec_ok :: "Span \<Rightarrow> bool" where
  "codec_ok s \<longleftrightarrow> wf_Span s \<and> in_int64 (sStart s) \<and> in_int64 (sEnd s) \<and> fits (sName s)
     \<and> fits (sService s) \<and> fits (stMessage (sStatus s)) \<and> attrs_ok (sAttributes s)
     \<and> attrs_ok (sResource s)"

subsection \<open>The contract of a field\<close>

abbreviation reading :: "byte list \<Rightarrow> decoder" where
  "reading bs \<equiv> \<lparr>dBuf = bs, dErr = None\<rparr>"

text \<open>
  A reader never clears an error and returns at once when it finds one; where it succeeds it
  drops a prefix of the buffer, and more input behind that prefix changes nothing; and it
  inverts its writer whatever follows.
\<close>

locale field_reader =
  fixes dec :: "decoder \<Rightarrow> string \<Rightarrow> 'a \<times> decoder"
  assumes sticky: "dErr d \<noteq> None \<Longrightarrow> snd (dec d what) = d"
    and extend: "dec (reading bs) what = (v, reading rest) \<Longrightarrow>
      dec (reading (bs @ tail)) what = (v, reading (rest @ tail))"
begin

lemma ok_only_if: "dErr (snd (dec d what)) = None \<Longrightarrow> dErr d = None"
  using sticky by fastforce

end

locale field_codec = field_reader dec for dec :: "decoder \<Rightarrow> string \<Rightarrow> 'a \<times> decoder" +
  fixes enc :: "'a \<Rightarrow> byte list" and ok :: "'a \<Rightarrow> bool"
  assumes dec_enc: "ok v \<Longrightarrow> dec (reading (enc v @ rest)) what = (v, reading rest)"
begin

text \<open>No encoding is a prefix of another.\<close>

lemma enc_prefix_free:
  assumes "ok v" "ok w" "enc v @ r = enc w @ s"
  shows "v = w" "r = s"
proof -
  have "(v, reading r) = (w, reading s)"
    using dec_enc [OF assms(1), of r "[]"] dec_enc [OF assms(2), of s "[]"] unfolding assms(3)
    by (rule trans [OF sym])
  then show "v = w" "r = s" by simp_all
qed

end

subsection \<open>Readers\<close>

lemma dErr_d_fail [simp]: "dErr (d_fail d what) \<noteq> None"
  by (simp add: d_fail_def)

lemma d_fail_neq_reading [simp]: "d_fail d what \<noteq> reading rest" "reading rest \<noteq> d_fail d what"
  using dErr_d_fail [of d what] by (metis decoder.select_convs(2))+

lemma d_bytes_extend:
  "d_bytes n (reading bs) what = (v, reading rest) \<Longrightarrow>
   d_bytes n (reading (bs @ tail)) what = (v, reading (rest @ tail))"
  by (auto simp: d_bytes_def split: if_splits)

interpretation rbytes: field_reader "d_bytes n" for n
  by unfold_locales (simp add: d_bytes_def, rule d_bytes_extend)

lemma d_byte_extend:
  assumes "d_byte (reading bs) what = (v, reading rest)"
  shows "d_byte (reading (bs @ tail)) what = (v, reading (rest @ tail))"
  using assms by (cases bs) (auto simp: d_byte_def d_bytes_def split: if_splits)

interpretation rbyte: field_reader d_byte
  by unfold_locales (simp add: d_byte_def d_bytes_def, rule d_byte_extend)

lemma uvarintLoop_extend:
  "uvarintLoop i s x bs = (v, n) \<Longrightarrow> 0 < n \<Longrightarrow> uvarintLoop i s x (bs @ tail) = (v, n)"
  by (induction i s x bs rule: uvarintLoop.induct) (auto split: if_splits)

lemma Uvarint_extend: "Uvarint bs = (v, n) \<Longrightarrow> 0 < n \<Longrightarrow> Uvarint (bs @ tail) = (v, n)"
  by (simp add: Uvarint_def uvarintLoop_extend)

lemma Uvarint_length: "Uvarint bs = (v, n) \<Longrightarrow> n \<le> int (length bs)"
  using Uvarint_bound [of bs] by simp

lemma d_uvarint_extend:
  assumes "d_uvarint (reading bs) what = (v, reading rest)"
  shows "d_uvarint (reading (bs @ tail)) what = (v, reading (rest @ tail))"
proof -
  obtain w n where u: "Uvarint bs = (w, n)" by fastforce
  with assms have n: "0 < n" "w = v" "drop (nat n) bs = rest"
    by (auto simp: d_uvarint_def split: if_splits)
  have "nat n \<le> length bs"
    using Uvarint_length [OF u] by simp
  with n Uvarint_extend [OF u n(1), of tail] show ?thesis
    by (simp add: d_uvarint_def)
qed

interpretation ruvarint: field_reader d_uvarint
  by unfold_locales (simp add: d_uvarint_def, rule d_uvarint_extend)

lemma d_varint_extend:
  assumes "d_varint (reading bs) what = (v, reading rest)"
  shows "d_varint (reading (bs @ tail)) what = (v, reading (rest @ tail))"
proof -
  obtain w n where u: "Uvarint bs = (w, n)" by fastforce
  with assms have n: "0 < n" "drop (nat n) bs = rest"
    by (auto simp: d_varint_def Varint_def Let_def split: if_splits)
  have "nat n \<le> length bs"
    using Uvarint_length [OF u] by simp
  with n u Uvarint_extend [OF u n(1), of tail] assms show ?thesis
    by (simp add: d_varint_def Varint_def Let_def)
qed

interpretation rvarint: field_reader d_varint
  by unfold_locales (simp add: d_varint_def, rule d_varint_extend)

text \<open>Readers compose: reading one field and then another is a reader again.\<close>

lemma field_reader_pure: "field_reader (\<lambda>d what. (c, d))"
  by unfold_locales auto

lemma field_reader_bind:
  assumes f: "field_reader f" and g: "\<And>x. field_reader (g x)"
  shows "field_reader (\<lambda>d what. let (x, d) = f d what in g x d what)"
proof
  fix d :: decoder and what
  assume err: "dErr d \<noteq> None"
  then have "snd (f d what) = d"
    by (rule field_reader.sticky [OF f])
  with err show "snd (let (x, d) = f d what in g x d what) = d"
    using field_reader.sticky [OF g, of d] by (simp add: split_beta)
next
  fix bs what v rest tail
  assume eq: "(let (x, d) = f (reading bs) what in g x d what) = (v, reading rest)"
  obtain x d1 where fx: "f (reading bs) what = (x, d1)" by fastforce
  with eq have gx: "g x d1 what = (v, reading rest)" by simp
  then have "dErr d1 = None"
    using field_reader.ok_only_if [OF g, of x d1 what] by simp
  then have d1: "d1 = reading (dBuf d1)" by simp
  have "f (reading (bs @ tail)) what = (x, reading (dBuf d1 @ tail))"
    by (rule field_reader.extend [OF f]) (use fx d1 in simp)
  moreover have "g x (reading (dBuf d1 @ tail)) what = (v, reading (rest @ tail))"
    by (rule field_reader.extend [OF g]) (use gx d1 in simp)
  ultimately show "(let (x, d) = f (reading (bs @ tail)) what in g x d what) = (v, reading (rest @ tail))"
    by simp
qed

lemma field_reader_map: "field_reader f \<Longrightarrow> field_reader (\<lambda>d what. let (x, d) = f d what in (h x, d))"
  by (rule field_reader_bind) (simp_all add: field_reader_pure)

text \<open>A guard on the room left, passed once, stays passed with more input.\<close>

lemma field_reader_guard:
  assumes "field_reader g" "\<And>m n. room m \<Longrightarrow> m \<le> n \<Longrightarrow> room (n :: nat)"
    and "\<And>d what. dErr d \<noteq> None \<Longrightarrow> snd (g d what) = d"
  shows "field_reader (\<lambda>d what. if \<not> room (length (dBuf d)) then (c, d_fail d what) else g d what)"
  using assms(2) field_reader.sticky [OF assms(1)] field_reader.extend [OF assms(1)]
  by unfold_locales (auto simp: d_fail_def split: if_splits)

lemma field_reader_d_string: "field_reader d_string"
proof -
  have "field_reader (\<lambda>d what. let (b, d) = d_bytes (uint n) d what
      in (case b of None \<Rightarrow> [] | Some bs \<Rightarrow> string_of_bytes bs, d))" for n :: uint64
    by (rule field_reader_map) (rule rbytes.field_reader_axioms)
  note guarded = field_reader_guard [OF this, where room = "\<lambda>m. unat n \<le> m" and c = "[]" for n]
  have "field_reader (\<lambda>d what. let (n, d) = d_uvarint d what
      in if \<not> unat n \<le> length (dBuf d) then ([], d_fail d what)
         else let (b, d) = d_bytes (uint n) d what
              in (case b of None \<Rightarrow> [] | Some bs \<Rightarrow> string_of_bytes bs, d))"
    by (rule field_reader_bind [OF ruvarint.field_reader_axioms], rule guarded)
      (auto simp: rbytes.sticky split_beta)
  then show ?thesis
    by (simp add: d_string_def [abs_def] not_le)
qed

lemma field_reader_d_value: "field_reader (d_value kind)"
proof -
  have opt: "field_reader (\<lambda>d what. case b of
      None \<Rightarrow> (zeroValue, d) | Some b \<Rightarrow> (FloatValue (getUint64 b), d))" for b
    by (cases b) (simp_all add: field_reader_pure)
  have float: "field_reader (\<lambda>d what. case d_bytes 8 d what of
      (None, d) \<Rightarrow> (zeroValue, d) | (Some b, d) \<Rightarrow> (FloatValue (getUint64 b), d))"
    using field_reader_bind [OF rbytes.field_reader_axioms [of 8] opt]
    by (simp add: Let_def case_prod_unfold)
  have unknown: "field_reader (\<lambda>d what.
      (zeroValue, if dErr d = None then d\<lparr>dErr := Some (UnknownValueKind kind what)\<rparr> else d))"
    by unfold_locales auto
  show ?thesis
    unfolding d_value_def [abs_def]
    using field_reader_map [OF field_reader_d_string, where h = StringValue]
      field_reader_map [OF rbyte.field_reader_axioms, where h = "\<lambda>b. BoolValue (b = 1)"]
      field_reader_map [OF rvarint.field_reader_axioms, where h = IntValue]
      float unknown field_reader_pure
    by (cases "kind = ValueString"; cases "kind = ValueBool"; cases "kind = ValueInt";
        cases "kind = ValueFloat"; cases "kind = ValueInvalid") simp_all
qed

lemma field_reader_d_keyValue: "field_reader d_keyValue"
  unfolding d_keyValue_def [abs_def]
  by (intro field_reader_bind field_reader_d_string rbyte.field_reader_axioms
      field_reader_d_value field_reader_pure)

lemma field_reader_d_attrLoop:
  "field_reader (\<lambda>d what. if dErr d \<noteq> None then ([], d) else d_attrLoop n out d what)"
proof (induction n arbitrary: out)
  case 0
  then show ?case
    by unfold_locales auto
next
  case (Suc n)
  have "field_reader (\<lambda>d what. let (kv, d) = d_keyValue d what
      in if dErr d \<noteq> None then ([], d) else d_attrLoop n (out @ [kv]) d what)"
    by (rule field_reader_bind [OF field_reader_d_keyValue Suc])
  then show ?case
    by (auto simp: field_reader_def)
qed

lemma field_reader_d_attributes: "field_reader d_attributes"
proof -
  have body: "field_reader (\<lambda>d what. if dErr d \<noteq> None \<or> n = 0 then ([], d)
      else if \<not> unat n \<le> length (dBuf d) div 2 then ([], d_fail d what)
      else d_attrLoop (unat n) [] d what)" for n :: uint64
    using field_reader.extend [OF field_reader_d_attrLoop [of "unat n" "[]"]]
    by unfold_locales (auto split: if_splits intro: order.trans [OF _ div_le_mono])
  show ?thesis
    unfolding d_attributes_def not_le [symmetric]
    by (rule field_reader_bind [OF ruvarint.field_reader_axioms body])
qed

lemma field_reader_d_array: "field_reader (d_array n)"
  unfolding d_array_def [abs_def]
  by (rule field_reader_map) (rule rbytes.field_reader_axioms)

subsection \<open>Writers append\<close>

lemma appendString_append: "appendString b s = b @ appendString [] s"
  by (simp add: appendString_def AppendUvarint_append [of b])

lemma appendValue_append: "appendValue b v = b @ appendValue [] v"
  by (simp add: appendValue_def appendString_append [of b] AppendVarint_append [of b])

lemma appendKeyValue_eq:
  "appendKeyValue b kv = b @ appendString [] (kvKey kv) @ [vKind (kvValue kv)] @ appendValue [] (kvValue kv)"
  by (simp add: appendKeyValue_def Let_def appendString_append [of b]
      appendValue_append [of "_ @ _"])

lemma appendKeyValue_append: "appendKeyValue b kv = b @ appendKeyValue [] kv"
  by (simp add: appendKeyValue_eq)

lemma foldl_appendKeyValue: "foldl appendKeyValue b kvs = b @ concat (map (appendKeyValue []) kvs)"
proof (induction kvs arbitrary: b)
  case Nil
  then show ?case by simp
next
  case (Cons kv kvs)
  then show ?case
    by (simp add: appendKeyValue_append [of b])
qed

lemma appendAttributes_eq:
  "appendAttributes b kvs
   = b @ AppendUvarint [] (word_of_nat (length kvs)) @ concat (map (appendKeyValue []) kvs)"
  by (simp add: appendAttributes_def foldl_appendKeyValue AppendUvarint_append [of b])

lemma appendAttributes_append: "appendAttributes b kvs = b @ appendAttributes [] kvs"
  by (simp add: appendAttributes_eq)

text \<open>Every attribute takes at least two bytes, which is what the count check relies on.\<close>

lemma length_appendKeyValue: "2 \<le> length (appendKeyValue [] kv)"
proof -
  have "1 \<le> length (appendString [] (kvKey kv))"
    by (simp add: appendString_def Suc_le_eq)
  then show ?thesis
    by (simp add: appendKeyValue_eq)
qed

lemma length_concat_appendKeyValue: "2 * length kvs \<le> length (concat (map (appendKeyValue []) kvs))"
proof (induction kvs)
  case Nil
  then show ?case by simp
next
  case (Cons kv kvs)
  then show ?case using length_appendKeyValue [of kv] by simp
qed

subsection \<open>Every writer is inverted by its reader\<close>

lemma unat_word_of_nat_fits: "fits xs \<Longrightarrow> unat (word_of_nat (length xs) :: uint64) = length xs"
  by (simp add: fits_def unat_of_nat)

interpretation cbyte: field_codec d_byte "\<lambda>b. [b]" "\<lambda>_. True"
  by unfold_locales (simp add: d_byte_def d_bytes_def)

interpretation carray: field_codec "d_array n" "\<lambda>bs. bs" "\<lambda>bs. length bs = n" for n
  by (intro field_codec.intro field_reader_d_array field_codec_axioms.intro)
    (simp add: d_array_def d_bytes_def copyInto_def)

interpretation cuvarint: field_codec d_uvarint "AppendUvarint []" "\<lambda>_. True"
  by unfold_locales (simp add: d_uvarint_def)

interpretation cvarint: field_codec d_varint "AppendVarint []" in_int64
  by unfold_locales (simp add: d_varint_def)

lemma d_string_appendString:
  assumes "fits s"
  shows "d_string (reading (appendString [] s @ rest)) what = (s, reading rest)"
proof -
  let ?n = "word_of_nat (length s) :: uint64"
  have n: "unat ?n = length s"
    using assms by (rule unat_word_of_nat_fits)
  then have "uint ?n = int (length s)"
    by (metis of_nat_unat)
  with n show ?thesis
    using cuvarint.dec_enc [of ?n "bytes_of_string s @ rest" what]
    by (simp add: d_string_def appendString_def d_bytes_def)
qed

interpretation cstring: field_codec d_string "appendString []" fits
  by (intro field_codec.intro field_reader_d_string field_codec_axioms.intro)
    (rule d_string_appendString)

lemma d_value_appendValue:
  assumes "wf_Value v" "fits (vStr v)"
  shows "d_value (vKind v) (reading (appendValue [] v @ rest)) what = (v, reading rest)"
  using assms(1)
proof (cases rule: wf_Value_cases)
  case invalid
  then show ?thesis
    by (simp add: appendValue_def d_value_def ValueKind_defs)
next
  case (string s)
  with assms(2) have "fits s" by (simp add: StringValue_def)
  with string show ?thesis
    by (simp add: appendValue_def d_value_def d_string_appendString)
next
  case (bool b)
  then show ?thesis
    using cbyte.dec_enc [of "if b then 1 else 0" rest what]
    by (simp add: appendValue_def d_value_def ValueKind_defs)
next
  case (int i)
  then show ?thesis
    using cvarint.dec_enc [OF int(1), of rest what]
    by (simp add: appendValue_def d_value_def ValueKind_defs)
next
  case (float f)
  then show ?thesis
    by (simp add: appendValue_def d_value_def d_bytes_def ValueKind_defs)
qed

interpretation ckeyValue: field_codec d_keyValue "appendKeyValue []" kv_ok
proof (intro field_codec.intro field_reader_d_keyValue field_codec_axioms.intro)
  fix kv rest what
  assume "kv_ok kv"
  then show "d_keyValue (reading (appendKeyValue [] kv @ rest)) what = (kv, reading rest)"
    using cstring.dec_enc [of "kvKey kv"] cbyte.dec_enc d_value_appendValue
    by (simp add: d_keyValue_def appendKeyValue_eq kv_ok_def)
qed

lemma d_attrLoop_inverts:
  "\<forall>kv \<in> set kvs. kv_ok kv \<Longrightarrow>
   d_attrLoop (length kvs) out (reading (concat (map (appendKeyValue []) kvs) @ rest)) what
     = (out @ kvs, reading rest)"
proof (induction kvs arbitrary: out)
  case Nil
  then show ?case by simp
next
  case (Cons kv kvs)
  then show ?case
    using ckeyValue.dec_enc [of kv "concat (map (appendKeyValue []) kvs) @ rest" what] by simp
qed

interpretation cattributes: field_codec d_attributes "appendAttributes []" attrs_ok
proof (intro field_codec.intro field_reader_d_attributes field_codec_axioms.intro)
  fix kvs rest what
  assume ok: "attrs_ok kvs"
  let ?n = "word_of_nat (length kvs) :: uint64"
  let ?body = "concat (map (appendKeyValue []) kvs) @ rest"
  have n: "unat ?n = length kvs"
    using ok by (simp add: attrs_ok_def unat_word_of_nat_fits)
  have room: "\<not> length ?body div 2 < length kvs"
    using length_concat_appendKeyValue [of kvs] by simp
  have read: "d_uvarint (reading (AppendUvarint [] ?n @ ?body)) what = (?n, reading ?body)"
    by (rule cuvarint.dec_enc) simp
  have zero: "?n = 0 \<longleftrightarrow> kvs = []"
    using n by (metis length_0_conv unat_eq_zero)
  from ok have loop: "d_attrLoop (length kvs) [] (reading ?body) what = (kvs, reading rest)"
    using d_attrLoop_inverts [of kvs "[]"] by (simp add: attrs_ok_def)
  show "d_attributes (reading (appendAttributes [] kvs @ rest)) what = (kvs, reading rest)"
  proof (cases "kvs = []")
    case True
    with read show ?thesis by (simp add: d_attributes_def appendAttributes_eq)
  next
    case False
    with read zero room n loop show ?thesis
      by (simp add: d_attributes_def appendAttributes_eq del: length_append)
  qed
qed

subsection \<open>Whole spans\<close>

lemma encodeSpan_eq:
  "encodeSpan b s = b @ [codecVersion] @ sTraceID s @ sSpanID s @ sParentSpanID s
     @ appendString [] (sName s) @ [sKind s] @ appendString [] (sService s)
     @ AppendVarint [] (time_UnixNano (sStart s)) @ AppendVarint [] (time_UnixNano (sEnd s))
     @ [stCode (sStatus s)] @ appendString [] (stMessage (sStatus s))
     @ appendAttributes [] (sAttributes s) @ appendAttributes [] (sResource s)"
  unfolding encodeSpan_def Let_def
  by (subst appendAttributes_append, subst (2) appendAttributes_append, subst (3) appendString_append,
      subst (2) AppendVarint_append, subst AppendVarint_append, subst (2) appendString_append,
      subst appendString_append) simp

lemma encodeSpan_append: "encodeSpan b s = b @ encodeSpan [] s"
  unfolding encodeSpan_eq by simp

lemma decodeFields_inverts:
  assumes "codec_ok s" "encodeSpan [] s = codecVersion # bs"
  shows "decodeFields (reading (bs @ rest)) = (s, reading rest)"
proof -
  have ok: "length (sTraceID s) = 16" "length (sSpanID s) = 8" "length (sParentSpanID s) = 8"
    "in_int64 (sStart s)" "in_int64 (sEnd s)" "fits (sName s)" "fits (sService s)"
    "fits (stMessage (sStatus s))" "attrs_ok (sAttributes s)" "attrs_ok (sResource s)"
    using assms(1) by (auto simp: codec_ok_def wf_Span_def)
  have "bs = sTraceID s @ sSpanID s @ sParentSpanID s
     @ appendString [] (sName s) @ [sKind s] @ appendString [] (sService s)
     @ AppendVarint [] (sStart s) @ AppendVarint [] (sEnd s)
     @ [stCode (sStatus s)] @ appendString [] (stMessage (sStatus s))
     @ appendAttributes [] (sAttributes s) @ appendAttributes [] (sResource s)"
    using assms(2) ok(4,5) by (simp add: encodeSpan_eq time_UnixNano_def)
  then show ?thesis
    using ok cbyte.dec_enc
    by (simp add: decodeFields_def carray.dec_enc cstring.dec_enc cvarint.dec_enc cattributes.dec_enc
        del: append_assoc flip: append_assoc) (simp add: carray.dec_enc cstring.dec_enc cvarint.dec_enc cattributes.dec_enc)
qed

lemma field_reader_at: "field_reader f \<Longrightarrow> field_reader (\<lambda>d _. f d what)"
  using field_reader.sticky [of f] field_reader.extend [of f] by unfold_locales auto

lemmas readers_at = field_reader_d_array [THEN field_reader_at] field_reader_d_string [THEN field_reader_at]
  rbyte.field_reader_axioms [THEN field_reader_at] rvarint.field_reader_axioms [THEN field_reader_at]
  field_reader_d_attributes [THEN field_reader_at]

lemma field_reader_decodeFields: "field_reader (\<lambda>d _. decodeFields d)"
  unfolding decodeFields_def
  by (intro field_reader_bind readers_at field_reader_pure)

lemma encodeSpan_Cons: "\<exists>bs. encodeSpan [] s = codecVersion # bs"
  by (simp add: encodeSpan_eq)

lemma decodeSpan_Cons:
  "decodeSpan (v # p) =
     (if v \<noteq> codecVersion then Inl (UnknownVersion v)
      else case decodeFields (reading p) of (s, d) \<Rightarrow>
        (case dErr d of
           Some e \<Rightarrow> Inl e
         | None \<Rightarrow> if dBuf d \<noteq> [] then Inl (TrailingBytes (length (dBuf d))) else Inr s))"
  using cbyte.dec_enc [of v p "''version''"] by (simp add: decodeSpan_def)

lemma decodeSpan_encodeSpan_rest:
  assumes "codec_ok s"
  shows "decodeSpan (encodeSpan [] s @ rest)
    = (if rest = [] then Inr s else Inl (TrailingBytes (length rest)))"
proof -
  obtain bs where bs: "encodeSpan [] s = codecVersion # bs"
    using encodeSpan_Cons by blast
  then show ?thesis
    using decodeFields_inverts [OF assms bs, of rest] by (simp add: decodeSpan_Cons)
qed

lemma decodeSpan_extend:
  assumes "decodeSpan p = Inr s" "q \<noteq> []"
  shows "decodeSpan (p @ q) = Inl (TrailingBytes (length q))"
proof (cases p)
  case Nil
  have "snd (d_byte (reading []) ''version'') = \<lparr>dBuf = [], dErr = Some (Truncated ''version'')\<rparr>"
    by (simp add: d_byte_def d_bytes_def d_fail_def)
  then have "decodeSpan [] = Inl (Truncated ''version'')"
    using field_reader.sticky [OF field_reader_decodeFields,
        of "\<lparr>dBuf = [], dErr = Some (Truncated ''version'')\<rparr>"]
    by (simp add: decodeSpan_def split_beta)
  with Nil assms show ?thesis by simp
next
  case (Cons v p')
  obtain t d where f: "decodeFields (reading p') = (t, d)" by fastforce
  with Cons assms(1) have v: "v = codecVersion" and d: "d = reading []"
    by (auto simp: decodeSpan_Cons split: if_splits option.splits)
  have "decodeFields (reading (p' @ q)) = (t, reading q)"
    using field_reader.extend [OF field_reader_decodeFields, of p' t "[]" q] f d by simp
  with Cons v assms(2) show ?thesis
    by (simp add: decodeSpan_Cons)
qed

text \<open>C9: the codec round trip. Decoding what \<open>encodeSpan\<close> wrote gives back the same span, for
  every well-formed span whose times fit in int64 nanoseconds.\<close>

theorem decodeSpan_encodeSpan:
  assumes "codec_ok s"
  shows "decodeSpan (encodeSpan [] s) = Inr s"
  using decodeSpan_encodeSpan_rest [OF assms, of "[]"] by simp

theorem decodeSpan_encodeSpan_witness:
  "decodeSpan (encodeSpan [] (exampleSpan 1 2 0 5 9\<lparr>sAttributes := [\<lparr>kvKey = ''k'', kvValue = IntValue (- 3)\<rparr>]\<rparr>))
     = Inr (exampleSpan 1 2 0 5 9\<lparr>sAttributes := [\<lparr>kvKey = ''k'', kvValue = IntValue (- 3)\<rparr>]\<rparr>)"
proof (rule decodeSpan_encodeSpan)
  show "codec_ok (exampleSpan 1 2 0 5 9\<lparr>sAttributes := [\<lparr>kvKey = ''k'', kvValue = IntValue (- 3)\<rparr>]\<rparr>)"
    by (simp add: codec_ok_def wf_Span_def exampleSpan_def exampleID_def zeroSpan_def attrs_ok_def
        kv_ok_def fits_def in_int64_def) (simp add: IntValue_def)
qed

text \<open>C20: a torn encoding is never mistaken for a span. No proper prefix of an encoding decodes,
  and neither does an encoding with bytes behind it.\<close>

theorem decodeSpan_prefix_free:
  assumes "codec_ok s" "encodeSpan [] s = p @ q" "q \<noteq> []"
  shows "(\<exists>e. decodeSpan p = Inl e) \<and> decodeSpan (encodeSpan [] s @ q) = Inl (TrailingBytes (length q))"
proof
  show "\<exists>e. decodeSpan p = Inl e"
  proof (cases "decodeSpan p")
    case (Inr t)
    then have "decodeSpan (p @ q) = Inl (TrailingBytes (length q))"
      using assms(3) by (rule decodeSpan_extend)
    with decodeSpan_encodeSpan_rest [OF assms(1), of "[]"] assms(2) show ?thesis by simp
  qed simp
  show "decodeSpan (encodeSpan [] s @ q) = Inl (TrailingBytes (length q))"
    using decodeSpan_encodeSpan_rest [OF assms(1), of q] assms(3) by simp
qed

theorem decodeSpan_prefix_free_witness:
  "\<exists>e. decodeSpan (butlast (encodeSpan [] (exampleSpan 1 2 0 5 9))) = Inl e"
proof -
  let ?s = "exampleSpan 1 2 0 5 9"
  have "codec_ok ?s"
    by (simp add: codec_ok_def wf_Span_def exampleSpan_def exampleID_def zeroSpan_def attrs_ok_def
        fits_def in_int64_def)
  moreover have "encodeSpan [] ?s = butlast (encodeSpan [] ?s) @ [last (encodeSpan [] ?s)]"
    using encodeSpan_Cons [of ?s] by (metis append_butlast_last_id list.distinct(1))
  ultimately show ?thesis
    using decodeSpan_prefix_free [of ?s "butlast (encodeSpan [] ?s)" "[last (encodeSpan [] ?s)]"]
    by simp
qed

end
