(* ===== verification/Disk_Record.thy ===== *)
theory Disk_Record
  imports Codec
begin

section \<open>Segment records: the framing of internal/storage/disk.go\<close>

text \<open>
  A segment is a sequence of records: a little-endian length, a CRC-32C of the payload, and
  the encoded span. \<open>encodeRecords\<close> is the loop of \<open>Disk.Write\<close> that fills the buffer in
  place, \<open>readRecord\<close> and \<open>intactPrefix\<close> read it back. \<open>recordOf\<close> is the specification of one
  record, and the lemmas say what reading a whole or a torn sequence of records gives.
\<close>

subsection \<open>Model\<close>

definition recordHeader :: nat where "recordHeader = 8"
definition maxRecord :: nat where "maxRecord = 16 * 2 ^ 20"

datatype RecordError =
    UnexpectedEOF
  | RecordTooLong nat
  | ChecksumMismatch
  | BadSpan CodecError

definition readRecord :: "byte list \<Rightarrow> RecordError + (Span \<times> nat)" where
  "readRecord data =
     (if length data < recordHeader then Inl UnexpectedEOF
      else
        let size = unat (getUint32 (take 4 data));
            sm = getUint32 (take 4 (drop 4 data))
        in if maxRecord < size then Inl (RecordTooLong size)
           else
             let finish = recordHeader + size
             in if length data < finish then Inl UnexpectedEOF
                else
                  let payload = drop recordHeader (take finish data)
                  in if crc32_Checksum payload \<noteq> sm then Inl ChecksumMismatch
                     else case decodeSpan payload of
                            Inl err \<Rightarrow> Inl (BadSpan err)
                          | Inr span \<Rightarrow> Inr (span, finish))"

text \<open>The loop of \<open>intactPrefix\<close>, from offset \<open>good\<close>.\<close>

lemma readRecord_size: "readRecord data = Inr (s, n) \<Longrightarrow> 0 < n"
  by (auto simp: readRecord_def recordHeader_def Let_def split: if_splits sum.splits)

function intactFrom :: "byte list \<Rightarrow> Span list \<Rightarrow> nat \<Rightarrow> Span list \<times> nat \<times> RecordError option" where
  "intactFrom data spans good =
     (if good < length data then
        case readRecord (drop good data) of
          Inl err \<Rightarrow> (spans, good, Some err)
        | Inr (span, n) \<Rightarrow> intactFrom data (spans @ [span]) (good + n)
      else (spans, good, None))"
  by pat_completeness auto
termination
  by (relation "measure (\<lambda>(data, spans, good). length data - good)") (auto dest!: readRecord_size)

declare intactFrom.simps [simp del]

definition intactPrefix :: "byte list \<Rightarrow> Span list \<times> nat \<times> RecordError option" where
  "intactPrefix data = intactFrom data [] 0"

text \<open>\<open>PutUint32(buf[at:], v)\<close>.\<close>

definition putAt :: "nat \<Rightarrow> uint32 \<Rightarrow> byte list \<Rightarrow> byte list" where
  "putAt at v buf = take at buf @ putUint32 v @ drop (at + 4) buf"

text \<open>The encoding loop of \<open>Write\<close>: the position and length of a span over the limit, or the
  buffer.\<close>

fun encodeRecords :: "nat \<Rightarrow> byte list \<Rightarrow> Span list \<Rightarrow> (nat \<times> nat) + byte list" where
  "encodeRecords i buf [] = Inr buf"
| "encodeRecords i buf (s # ss) =
     (let start = length buf;
          buf = buf @ replicate recordHeader 0;
          buf = encodeSpan buf s;
          payload = drop (start + recordHeader) buf
      in if maxRecord < length payload then Inl (i, length payload)
         else
           let buf = putAt start (of_nat (length payload)) buf;
               buf = putAt (start + 4) (crc32_Checksum payload) buf
           in encodeRecords (i + 1) buf ss)"

subsection \<open>Specification\<close>

definition payloadOf :: "Span \<Rightarrow> byte list" where
  "payloadOf s = encodeSpan [] s"

definition recordOf :: "Span \<Rightarrow> byte list" where
  "recordOf s = putUint32 (of_nat (length (payloadOf s))) @ putUint32 (crc32_Checksum (payloadOf s)) @ payloadOf s"

definition recordsOf :: "Span list \<Rightarrow> byte list" where
  "recordsOf ss = concat (map recordOf ss)"

text \<open>The spans a segment can hold.\<close>

definition recordable :: "Span \<Rightarrow> bool" where
  "recordable s \<longleftrightarrow> codec_ok s \<and> length (payloadOf s) \<le> maxRecord"

subsection \<open>Lemmas\<close>

lemma recordsOf_simps [simp]:
  "recordsOf [] = []" "recordsOf (s # ss) = recordOf s @ recordsOf ss"
  "recordsOf (ss @ ts) = recordsOf ss @ recordsOf ts"
  by (simp_all add: recordsOf_def)

lemma length_recordOf [simp]: "length (recordOf s) = 8 + length (payloadOf s)"
  by (simp add: recordOf_def)

lemma recordOf_not_Nil [simp]: "recordOf s \<noteq> []"
  using length_recordOf [of s] by (metis add_is_0 length_0_conv zero_neq_numeral)

lemma unat_of_nat_maxRecord: "n \<le> maxRecord \<Longrightarrow> unat (of_nat n :: uint32) = n"
  by (simp add: maxRecord_def unat_of_nat)

text \<open>The in-place loop writes the records one after the other.\<close>

lemma encodeRecords_step:
  assumes "length (payloadOf s) \<le> maxRecord"
  shows "encodeRecords i buf (s # ss) = encodeRecords (i + 1) (buf @ recordOf s) ss"
proof -
  let ?h = "replicate 8 0 :: byte list"
  have enc: "encodeSpan (buf @ ?h) s = buf @ ?h @ payloadOf s"
    using encodeSpan_append [of "buf @ ?h" s] by (simp add: payloadOf_def)
  show ?thesis
    using assms by (simp add: enc recordHeader_def putAt_def recordOf_def Let_def)
qed

lemma encodeRecords_ok:
  "\<forall>s \<in> set ss. length (payloadOf s) \<le> maxRecord \<Longrightarrow> encodeRecords i buf ss = Inr (buf @ recordsOf ss)"
  by (induction ss arbitrary: i buf) (simp_all add: encodeRecords_step del: encodeRecords.simps(2))

lemma encodeRecords_too_long:
  "\<exists>s \<in> set ss. maxRecord < length (payloadOf s) \<Longrightarrow> \<exists>e. encodeRecords i buf ss = Inl e"
proof (induction ss arbitrary: i buf)
  case (Cons s ss)
  show ?case
  proof (cases "maxRecord < length (payloadOf s)")
    case True
    then show ?thesis
      using encodeSpan_append [of "buf @ replicate 8 0" s] by (simp add: recordHeader_def payloadOf_def)
  next
    case False
    with Cons show ?thesis by (simp add: encodeRecords_step del: encodeRecords.simps(2))
  qed
qed simp

lemma encodeRecords_Inr:
  "encodeRecords i buf ss = Inr b \<Longrightarrow> b = buf @ recordsOf ss \<and> (\<forall>s \<in> set ss. length (payloadOf s) \<le> maxRecord)"
  using encodeRecords_ok [of ss i buf] encodeRecords_too_long [of ss i buf]
  by (metis linorder_not_less old.sum.distinct(1) sum.inject(2))

text \<open>Reading one record, whole or torn.\<close>

lemma readRecord_recordOf [simp]:
  assumes "recordable s"
  shows "readRecord (recordOf s @ rest) = Inr (s, length (recordOf s))"
proof -
  have "decodeSpan (payloadOf s) = Inr s"
    using assms decodeSpan_encodeSpan_rest [of s "[]"] by (simp add: recordable_def payloadOf_def)
  then show ?thesis
    using assms unat_of_nat_maxRecord getUint32_putUint32 [where rest = "[]"]
    by (simp add: readRecord_def recordOf_def recordHeader_def recordable_def Let_def)
qed

lemma readRecord_torn:
  assumes "recordable s" "k < length (recordOf s)"
  shows "readRecord (take k (recordOf s)) = Inl UnexpectedEOF"
proof (cases "k < 8")
  case True
  then show ?thesis by (simp add: readRecord_def recordHeader_def)
next
  case False
  then have "k - 8 < length (payloadOf s)" "k - 4 - 4 = k - 8"
    using assms(2) by auto
  then show ?thesis
    using False assms unat_of_nat_maxRecord getUint32_putUint32 [where rest = "[]"]
    by (simp add: readRecord_def recordOf_def recordHeader_def recordable_def Let_def)
qed

text \<open>Reading a sequence of records that ends in an arbitrary tail.\<close>

lemma intactFrom_recordsOf:
  "\<forall>s \<in> set ss. recordable s \<Longrightarrow>
   intactFrom (pre @ recordsOf ss @ tail) acc (length pre)
   = intactFrom (pre @ recordsOf ss @ tail) (acc @ ss) (length pre + length (recordsOf ss))"
proof (induction ss arbitrary: pre acc)
  case (Cons s ss)
  have "intactFrom (pre @ recordsOf (s # ss) @ tail) acc (length pre)
      = intactFrom ((pre @ recordOf s) @ recordsOf ss @ tail) (acc @ [s]) (length (pre @ recordOf s))"
    using Cons.prems by (subst intactFrom.simps) simp
  also have "\<dots> = intactFrom ((pre @ recordOf s) @ recordsOf ss @ tail) ((acc @ [s]) @ ss)
      (length (pre @ recordOf s) + length (recordsOf ss))"
    using Cons.prems by (intro Cons.IH) simp
  finally show ?case by (simp add: add.assoc)
qed simp

lemma intactPrefix_tail:
  assumes "\<forall>s \<in> set ss. recordable s" "readRecord tail = Inl e \<or> tail = []"
  shows "intactPrefix (recordsOf ss @ tail)
    = (ss, length (recordsOf ss), if tail = [] then None else Some (projl (readRecord tail)))"
  using intactFrom_recordsOf [OF assms(1), of "[]" tail "[]"] assms(2)
  by (auto simp: intactPrefix_def intactFrom.simps [of _ ss])

text \<open>Reading looks at no byte behind the record, so the intact prefix of a file reads the same when
  the rest is cut off.\<close>

lemma readRecord_take:
  assumes "readRecord data = Inr (s, n)" "n \<le> m"
  shows "n \<le> length data" "readRecord (take m data) = Inr (s, n)"
proof -
  let ?size = "unat (getUint32 (take 4 data))"
  have n: "8 \<le> length data" "\<not> maxRecord < ?size" "n = 8 + ?size" "n \<le> length data"
    using assms(1) by (auto simp: readRecord_def recordHeader_def Let_def split: if_splits sum.splits)
  then show "n \<le> length data" by simp
  have "8 \<le> m" using n(3) assms(2) by simp
  then have "take 4 (take m data) = take 4 data" "take 4 (drop 4 (take m data)) = take 4 (drop 4 data)"
    "take n (take m data) = take n data" "8 \<le> length (take m data)" "n \<le> length (take m data)"
    using assms(2) n(1,4) by (simp_all add: drop_take min_def)
  then show "readRecord (take m data) = Inr (s, n)"
    using assms(1) n by (auto simp: readRecord_def recordHeader_def Let_def split: if_splits sum.splits)
qed

lemma intactFrom_take:
  assumes "intactFrom data spans good = (spans', good', err)" "good \<le> length data"
  shows "good \<le> good' \<and> good' \<le> length data \<and> intactFrom (take good' data) spans good = (spans', good', None)"
  using assms
proof (induction data spans good rule: intactFrom.induct)
  case (1 data spans good)
  show ?case
  proof (cases "good < length data")
    case False
    with 1(2,3) show ?thesis by (simp add: intactFrom.simps)
  next
    case True
    show ?thesis
    proof (cases "readRecord (drop good data)")
      case (Inl e)
      with True 1(2) show ?thesis by (auto simp: intactFrom.simps)
    next
      case (Inr sn)
      obtain s n where sn: "readRecord (drop good data) = Inr (s, n)" using Inr by (cases sn) simp
      have step: "intactFrom data (spans @ [s]) (good + n) = (spans', good', err)"
        using 1(2) True sn by (simp add: intactFrom.simps [of data spans good])
      have fit: "good + n \<le> length data" using readRecord_take(1) [OF sn order_refl] True by simp
      from 1(1) [OF True sn HOL.refl step fit]
      have ih: "good + n \<le> good'" "good' \<le> length data" "intactFrom (take good' data) (spans @ [s]) (good + n) = (spans', good', None)"
        by auto
      have "readRecord (drop good (take good' data)) = Inr (s, n)"
        using readRecord_take(2) [OF sn, of "good' - good"] ih(1) by (simp add: drop_take)
      moreover have "0 < n" by (rule readRecord_size [OF sn])
      ultimately show ?thesis
        using ih by (simp add: intactFrom.simps [of "take good' data" spans good])
    qed
  qed
qed

lemma intactPrefix_cut:
  assumes "intactPrefix data = (spans, good, err)"
  shows "good \<le> length data" "intactPrefix (take good data) = (spans, good, None)" "err = None \<Longrightarrow> good = length data"
proof -
  have "intactFrom data [] 0 = (spans, good, err)" using assms by (simp add: intactPrefix_def)
  from intactFrom_take [OF this] show "good \<le> length data" "intactPrefix (take good data) = (spans, good, None)"
    by (auto simp: intactPrefix_def)
  have "intactFrom data spans g = (spans', good', None) \<Longrightarrow> g \<le> length data \<Longrightarrow> good' = length data" for data spans g spans' good'
  proof (induction data spans g rule: intactFrom.induct)
    case (1 data spans g)
    then show ?case
      by (auto simp: intactFrom.simps [of data spans g] dest: readRecord_take(1) [OF _ order_refl] split: if_splits sum.splits)
  qed
  then show "err = None \<Longrightarrow> good = length data" using assms by (auto simp: intactPrefix_def)
qed

lemma intactPrefix_recordsOf:
  "\<forall>s \<in> set ss. recordable s \<Longrightarrow> intactPrefix (recordsOf ss) = (ss, length (recordsOf ss), None)"
  using intactPrefix_tail [of ss "[]"] by simp

text \<open>Any prefix of a sequence of records is some whole records and one torn record.\<close>

lemma take_recordsOf:
  "\<exists>j tail. take k (recordsOf ss) = recordsOf (take j ss) @ tail
     \<and> (tail = [] \<or> (\<exists>s \<in> set ss. \<exists>i < length (recordOf s). tail = take i (recordOf s)))"
proof (induction ss arbitrary: k)
  case (Cons s ss)
  show ?case
  proof (cases "k < length (recordOf s)")
    case True
    then have "take k (recordsOf (s # ss)) = recordsOf (take 0 (s # ss)) @ take k (recordOf s)"
      by simp
    with True show ?thesis by (metis list.set_intros(1))
  next
    case False
    obtain j tail where IH: "take (k - length (recordOf s)) (recordsOf ss) = recordsOf (take j ss) @ tail"
      "tail = [] \<or> (\<exists>s \<in> set ss. \<exists>i < length (recordOf s). tail = take i (recordOf s))"
      using Cons.IH by blast
    then have "take k (recordsOf (s # ss)) = recordsOf (take (Suc j) (s # ss)) @ tail"
      using False by simp
    with IH(2) show ?thesis by (metis list.set_intros(2))
  qed
qed (auto intro: exI [of _ "[]"])

lemma intactPrefix_take:
  assumes "\<forall>s \<in> set ss \<union> set ts. recordable s"
  shows "\<exists>j e. intactPrefix (recordsOf ss @ take k (recordsOf ts))
      = (ss @ take j ts, length (recordsOf (ss @ take j ts)), e)
    \<and> take (length (recordsOf (ss @ take j ts))) (recordsOf ss @ take k (recordsOf ts)) = recordsOf (ss @ take j ts)
    \<and> (e = None \<longrightarrow> recordsOf ss @ take k (recordsOf ts) = recordsOf (ss @ take j ts))"
proof -
  obtain j tail where t: "take k (recordsOf ts) = recordsOf (take j ts) @ tail"
    "tail = [] \<or> (\<exists>s \<in> set ts. \<exists>i < length (recordOf s). tail = take i (recordOf s))"
    using take_recordsOf by blast
  have r: "\<forall>s \<in> set (ss @ take j ts). recordable s"
    using assms by (auto dest: in_set_takeD)
  have tail: "readRecord tail = Inl UnexpectedEOF \<or> tail = []"
    using t(2) assms readRecord_torn by auto
  show ?thesis
    using intactPrefix_tail [OF r tail] unfolding t(1) by (intro exI [of _ j]) auto
qed

end
