(* ===== verification/Disk.thy ===== *)
theory Disk
  imports Disk_Record Go_Strconv Memory_Inv
begin

section \<open>The disk store: internal/storage/disk.go\<close>

text \<open>
  The state of \<open>Disk\<close> is a record that also holds the directory: a finite map from file names
  to contents (subdirectories, which \<open>segments\<close> skips, are left out). Every system call that
  can fail takes its outcome as an argument, so each error path is a branch of the model: the
  record \<open>writeIO\<close> for the calls of \<open>Write\<close>, \<open>openIO\<close> for those of \<open>OpenDisk\<close>. A failed write
  may have put any number of bytes in the file; a failed truncate leaves it as it was. An
  \<open>os.File\<close> is closed once \<open>Close\<close> was called, whatever \<open>Close\<close> reported, and every later
  call on it fails. The scratch buffer \<open>buf\<close> is local to \<open>Write\<close>. The hour is \<open>Unix() / 3600\<close>
  with Go's truncating division.
\<close>

subsection \<open>State\<close>

type_synonym Dir = "(string, byte list) fmap"

record segmentFile =
  fPath :: string
  fPos :: nat
  fClosed :: bool

record Disk =
  dMem :: Memory
  dFiles :: Dir
  dRetention :: Duration
  dClosed :: bool
  dSeg :: "segmentFile option"
  dSegHour :: int
  dSegSize :: nat
  dDirty :: bool
  dDirtyHour :: int
  dDirtySize :: nat

datatype DiskError =
    StoreErr StoreError
  | RecordOverLimit nat nat
  | AppendFailed
  | SyncFailed
  | RollbackFailed DiskError
  | CloseFailed
  | RepairFailed string
  | OpenFailed string
  | SeekFailed string
  | MkdirFailed
  | ListFailed
  | ReadFailed string
  | TruncateFailed string
  | ErrCorruptSegment string nat RecordError
  | ErrCorruptSpans string StoreError

text \<open>The outcomes of the system calls a \<open>Write\<close> may make. \<open>wWrote\<close> is the number of bytes that
  reached the file when the write fails.\<close>

record writeIO =
  wClose :: bool
  wRepair :: bool
  wOpen :: bool
  wSeekEnd :: bool
  wWrite :: bool
  wWrote :: nat
  wSync :: bool
  wTruncate :: bool
  wSeek :: bool

record openIO =
  oMkdir :: bool
  oList :: bool
  oRead :: "string \<Rightarrow> bool"
  oTruncate :: "string \<Rightarrow> bool"
  oEvictList :: bool
  oRemove :: "string \<Rightarrow> bool"

subsection \<open>Files\<close>

definition segmentPrefix :: string where "segmentPrefix = ''spans-''"
definition segmentSuffix :: string where "segmentSuffix = ''.seg''"

definition hourOf :: "Time \<Rightarrow> int" where
  "hourOf now = go_div (time_Unix now) 3600"

definition pathOf :: "int \<Rightarrow> string" where
  "pathOf hour = segmentPrefix @ FormatInt hour @ segmentSuffix"

definition HasPrefix :: "string \<Rightarrow> string \<Rightarrow> bool" where
  "HasPrefix s p \<longleftrightarrow> length p \<le> length s \<and> take (length p) s = p"

definition HasSuffix :: "string \<Rightarrow> string \<Rightarrow> bool" where
  "HasSuffix s p \<longleftrightarrow> length p \<le> length s \<and> drop (length s - length p) s = p"

definition TrimPrefix :: "string \<Rightarrow> string \<Rightarrow> string" where
  "TrimPrefix s p = (if HasPrefix s p then drop (length p) s else s)"

definition TrimSuffix :: "string \<Rightarrow> string \<Rightarrow> string" where
  "TrimSuffix s p = (if HasSuffix s p then take (length s - length p) s else s)"

definition segmentHour :: "string \<Rightarrow> int option" where
  "segmentHour name =
     (if \<not> HasPrefix name segmentPrefix \<or> \<not> HasSuffix name segmentSuffix then None
      else ParseInt (TrimSuffix (TrimPrefix name segmentPrefix) segmentSuffix))"

definition segments :: "Dir \<Rightarrow> int list" where
  "segments files = sort (List.map_filter segmentHour (mapKeys files))"

text \<open>\<open>Truncate\<close> cuts a file or extends it with zeros; a write at a position overwrites and
  extends.\<close>

definition truncated :: "nat \<Rightarrow> byte list \<Rightarrow> byte list" where
  "truncated n c = take n c @ replicate (n - length c) 0"

definition writtenAt :: "nat \<Rightarrow> byte list \<Rightarrow> byte list \<Rightarrow> byte list" where
  "writtenAt pos b c = truncated pos c @ b @ drop (pos + length b) c"

definition onFile :: "string \<Rightarrow> (byte list \<Rightarrow> byte list) \<Rightarrow> Dir \<Rightarrow> Dir" where
  "onFile path f files = (case fmlookup files path of None \<Rightarrow> files | Some c \<Rightarrow> fmupd path (f c) files)"

subsection \<open>Rolling to the current hour\<close>

text \<open>\<open>wRepair\<close> says that \<open>os.Truncate\<close> returned no error, or the one that says the file does not
  exist: both count as repaired.\<close>

definition repair :: "writeIO \<Rightarrow> Disk \<Rightarrow> DiskError option \<times> Disk" where
  "repair io d =
     (let path = pathOf (dDirtyHour d)
      in if \<not> wRepair io then (Some (RepairFailed path), d)
         else (None, d\<lparr>dFiles := onFile path (truncated (dDirtySize d)) (dFiles d), dDirty := False\<rparr>))"

definition openSegment :: "writeIO \<Rightarrow> int \<Rightarrow> Disk \<Rightarrow> DiskError option \<times> Disk" where
  "openSegment io hour d =
     (let path = pathOf hour
      in if \<not> wOpen io then (Some (OpenFailed path), d)
         else
           let content = (case fmlookup (dFiles d) path of None \<Rightarrow> [] | Some c \<Rightarrow> c);
               d = d\<lparr>dFiles := fmupd path content (dFiles d)\<rparr>
           in if \<not> wSeekEnd io then (Some (SeekFailed path), d)
              else (None, d\<lparr>dSeg := Some \<lparr>fPath = path, fPos = length content, fClosed = False\<rparr>,
                            dSegHour := hour, dSegSize := length content\<rparr>))"

definition roll :: "Time \<Rightarrow> writeIO \<Rightarrow> Disk \<Rightarrow> DiskError option \<times> Disk" where
  "roll now io d =
     (let hour = hourOf now
      in if dSeg d \<noteq> None \<and> hour = dSegHour d then (None, d)
         else
           let (err, d) =
             (case dSeg d of
                None \<Rightarrow> (None, d)
              | Some f \<Rightarrow>
                  if fClosed f \<or> \<not> wClose io
                  then (Some CloseFailed, d\<lparr>dSeg := Some (f\<lparr>fClosed := True\<rparr>)\<rparr>)
                  else (None, d\<lparr>dSeg := None\<rparr>))
           in case err of
                Some e \<Rightarrow> (Some e, d)
              | None \<Rightarrow>
                  let (err, d) = (if dDirty d then repair io d else (None, d))
                  in case err of
                       Some e \<Rightarrow> (Some e, d)
                     | None \<Rightarrow> openSegment io hour d)"

subsection \<open>Appending\<close>

definition rollback :: "writeIO \<Rightarrow> segmentFile \<Rightarrow> Disk \<Rightarrow> DiskError \<Rightarrow> DiskError option \<times> Disk" where
  "rollback io f d cause =
     (let cut = wTruncate io \<and> \<not> fClosed f;
          d = (if cut then d\<lparr>dFiles := onFile (fPath f) (truncated (dSegSize d)) (dFiles d)\<rparr> else d)
      in if cut \<and> wSeek io
         then (Some cause, d\<lparr>dSeg := Some (f\<lparr>fPos := dSegSize d\<rparr>)\<rparr>)
         else (Some (RollbackFailed cause),
               d\<lparr>dDirty := True, dDirtyHour := dSegHour d, dDirtySize := dSegSize d,
                 dSeg := None, dSegHour := -1\<rparr>))"

definition Disk_append :: "writeIO \<Rightarrow> segmentFile \<Rightarrow> byte list \<Rightarrow> Disk \<Rightarrow> DiskError option \<times> Disk" where
  "Disk_append io f b d =
     (if fClosed f then rollback io f d AppendFailed
      else
        let put = (if wWrite io then b else take (wWrote io) b);
            d = d\<lparr>dFiles := onFile (fPath f) (writtenAt (fPos f) put) (dFiles d)\<rparr>;
            f = f\<lparr>fPos := fPos f + length put\<rparr>
        in if \<not> wWrite io then rollback io f d AppendFailed
           else if \<not> wSync io then rollback io f d SyncFailed
           else (None, d\<lparr>dSeg := Some f, dSegSize := dSegSize d + length b\<rparr>))"

definition Disk_Write :: "Time \<Rightarrow> writeIO \<Rightarrow> Disk \<Rightarrow> Span list \<Rightarrow> DiskError option \<times> Disk" where
  "Disk_Write now io d spans =
     (case firstInvalid 0 spans of
        Some err \<Rightarrow> (Some (StoreErr err), d)
      | None \<Rightarrow>
          if dClosed d then (Some (StoreErr ErrClosed), d)
          else
            let (err, d) = roll now io d
            in case err of
                 Some e \<Rightarrow> (Some e, d)
               | None \<Rightarrow>
                   (case encodeRecords 0 [] spans of
                      Inl (i, n) \<Rightarrow> (Some (RecordOverLimit i n), d)
                    | Inr buf \<Rightarrow>
                        let (err, d) = Disk_append io (the (dSeg d)) buf d
                        in case err of
                             Some e \<Rightarrow> (Some e, d)
                           | None \<Rightarrow>
                               let (err, mem) = Memory_Write (dMem d) spans
                               in (map_option StoreErr err, d\<lparr>dMem := mem\<rparr>)))"

subsection \<open>Opening\<close>

definition replay :: "openIO \<Rightarrow> int \<Rightarrow> bool \<Rightarrow> Disk \<Rightarrow> DiskError option \<times> Disk" where
  "replay io hour newest d =
     (let path = pathOf hour
      in case fmlookup (dFiles d) path of
           None \<Rightarrow> (Some (ReadFailed path), d)
         | Some data \<Rightarrow>
             if \<not> oRead io path then (Some (ReadFailed path), d)
             else
               let (spans, good, err) = intactPrefix data;
                   (fail, d) =
                     (case err of
                        None \<Rightarrow> (None, d)
                      | Some e \<Rightarrow>
                          if \<not> newest then (Some (ErrCorruptSegment path good e), d)
                          else if \<not> oTruncate io path then (Some (TruncateFailed path), d)
                          else (None, d\<lparr>dFiles := onFile path (truncated good) (dFiles d)\<rparr>))
               in case fail of
                    Some e \<Rightarrow> (Some e, d)
                  | None \<Rightarrow>
                      if spans = [] then (None, d)
                      else
                        let (err, mem) = Memory_Write (dMem d) spans
                        in case err of
                             Some e \<Rightarrow> (Some (ErrCorruptSpans path e), d)
                           | None \<Rightarrow> (None, d\<lparr>dMem := mem\<rparr>))"

fun replayAll :: "openIO \<Rightarrow> int list \<Rightarrow> Disk \<Rightarrow> DiskError option \<times> Disk" where
  "replayAll io [] d = (None, d)"
| "replayAll io (hour # hours) d =
     (let (err, d) = replay io hour (hours = []) d
      in case err of Some e \<Rightarrow> (Some e, d) | None \<Rightarrow> replayAll io hours d)"

definition newDisk :: "Duration \<Rightarrow> Dir \<Rightarrow> Disk" where
  "newDisk retention files =
     \<lparr>dMem = NewMemory retention, dFiles = files, dRetention = retention, dClosed = False, dSeg = None,
      dSegHour = -1, dSegSize = 0, dDirty = False, dDirtyHour = 0, dDirtySize = 0\<rparr>"

subsection \<open>Eviction\<close>

text \<open>\<open>EvictExpired\<close> evicts from memory under the memory store's lock, then, under its own lock,
  deletes segments: two atomic steps, each with its own reading of the clock.\<close>

definition evictMem :: "Time \<Rightarrow> Disk \<Rightarrow> nat \<times> Disk" where
  "evictMem now d = (let (n, m) = Memory_EvictExpired now (dMem d) in (n, d\<lparr>dMem := m\<rparr>))"

definition segmentExpired :: "int \<Rightarrow> Disk \<Rightarrow> int \<Rightarrow> bool" where
  "segmentExpired cutoffHour d hour \<longleftrightarrow> \<not> (cutoffHour < wrap64 (hour + 1) \<or> (dSeg d \<noteq> None \<and> hour = dSegHour d))"

definition evictSegments :: "Time \<Rightarrow> bool \<Rightarrow> (string \<Rightarrow> bool) \<Rightarrow> Disk \<Rightarrow> Disk" where
  "evictSegments now listed remove d =
     (if dRetention d \<le> 0 then d
      else
        let cutoffHour = hourOf (now - dRetention d)
        in if \<not> listed then d
           else d\<lparr>dFiles := foldl (\<lambda>files hour.
               if \<not> segmentExpired cutoffHour d hour then files
               else if remove (pathOf hour) then fmdrop (pathOf hour) files else files)
             (dFiles d) (segments (dFiles d))\<rparr>)"

definition Disk_EvictExpired :: "Time \<Rightarrow> Time \<Rightarrow> bool \<Rightarrow> (string \<Rightarrow> bool) \<Rightarrow> Disk \<Rightarrow> nat \<times> Disk" where
  "Disk_EvictExpired now now' listed remove d =
     (let (n, d) = evictMem now d in (n, evictSegments now' listed remove d))"

text \<open>\<open>OpenDisk\<close> gives the store or the error. When it fails, the newest segment may already have been
  cut back to its intact records; that directory is not part of the result.\<close>

definition OpenDisk :: "Time \<Rightarrow> Time \<Rightarrow> openIO \<Rightarrow> Duration \<Rightarrow> Dir \<Rightarrow> DiskError + Disk" where
  "OpenDisk now now' io retention files =
     (if \<not> oMkdir io then Inl MkdirFailed
      else if \<not> oList io then Inl ListFailed
      else
        let (err, d) = replayAll io (segments files) (newDisk retention files)
        in case err of
             Some e \<Rightarrow> Inl e
           | None \<Rightarrow> Inr (snd (Disk_EvictExpired now now' (oEvictList io) (oRemove io) d)))"

subsection \<open>Reading and closing\<close>

definition Disk_Trace :: "Disk \<Rightarrow> TraceID \<Rightarrow> StoreError + Span list" where
  "Disk_Trace d tid = Memory_Trace (dMem d) tid"

definition Disk_Find :: "Disk \<Rightarrow> Query \<Rightarrow> (StoreError + Summary list) option" where
  "Disk_Find d q = Memory_Find (dMem d) q"

definition Disk_Len :: "Disk \<Rightarrow> nat" where
  "Disk_Len d = Memory_Len (dMem d)"

text \<open>\<open>Close\<close>: the error of syncing and the error of closing are joined.\<close>

definition Disk_Close :: "bool \<Rightarrow> bool \<Rightarrow> Disk \<Rightarrow> DiskError list \<times> Disk" where
  "Disk_Close syncOk closeOk d =
     (if dClosed d then ([], d)
      else
        let d = d\<lparr>dClosed := True\<rparr>;
            errs = (case dSeg d of
                      None \<Rightarrow> []
                    | Some f \<Rightarrow> (if syncOk \<and> \<not> fClosed f then [] else [SyncFailed])
                        @ (if closeOk \<and> \<not> fClosed f then [] else [CloseFailed]))
        in (errs, d\<lparr>dSeg := None, dMem := Memory_Close (dMem d)\<rparr>))"

end
