(* ===== verification/Disk_Durable.thy ===== *)
theory Disk_Durable
  imports Disk
begin

section \<open>The disk store: what is acknowledged survives\<close>

text \<open>
  The specification is a log: the acknowledged spans with the hour each was written in, in the
  order of the acknowledgements. \<open>dir_holds\<close> says that the segment files hold exactly the
  records of a log, followed by a tail per hour. \<open>disk_reach\<close> are the stores a session can
  reach, with their logs, whatever the system calls return.
\<close>

subsection \<open>Specification\<close>

type_synonym ackLog = "(int \<times> Span) list"

definition ackedIn :: "ackLog \<Rightarrow> int \<Rightarrow> Span list" where
  "ackedIn log h = map snd (filter (\<lambda>e. fst e = h) log)"

definition writable :: "Span list \<Rightarrow> bool" where
  "writable ss \<longleftrightarrow> (\<forall>s \<in> set ss. Validate s = None \<and> recordable s)"

definition log_ok :: "ackLog \<Rightarrow> bool" where
  "log_ok log \<longleftrightarrow> writable (map snd log) \<and> (\<forall>h \<in> fst ` set log. in_int64 h)"

text \<open>Every segment file has the name its hour gives it.\<close>

definition canonical :: "Dir \<Rightarrow> bool" where
  "canonical files \<longleftrightarrow> (\<forall>name h. fmlookup files name \<noteq> None \<longrightarrow> segmentHour name = Some h \<longrightarrow> name = pathOf h)"

definition dir_holds :: "Dir \<Rightarrow> ackLog \<Rightarrow> (int \<Rightarrow> byte list) \<Rightarrow> bool" where
  "dir_holds files log tail \<longleftrightarrow> canonical files \<and> log_ok log \<and>
     (\<forall>h. in_int64 h \<longrightarrow>
        (case fmlookup files (pathOf h) of
           None \<Rightarrow> ackedIn log h = [] \<and> tail h = []
         | Some c \<Rightarrow> c = recordsOf (ackedIn log h) @ tail h))"

abbreviation noTail :: "int \<Rightarrow> byte list" where
  "noTail \<equiv> \<lambda>_. []"

text \<open>A store between two operations. The tail, if any, is what a failed append left in the dirty
  segment: some bytes of the records of spans that were never acknowledged.\<close>

definition seg_ok :: "Disk \<Rightarrow> ackLog \<Rightarrow> bool" where
  "seg_ok d log \<longleftrightarrow> (case dSeg d of
      None \<Rightarrow> True
    | Some f \<Rightarrow> \<not> dDirty d \<and> in_int64 (dSegHour d) \<and> fPath f = pathOf (dSegHour d)
        \<and> fmlookup (dFiles d) (pathOf (dSegHour d)) \<noteq> None
        \<and> dSegSize d = length (recordsOf (ackedIn log (dSegHour d)))
        \<and> (\<not> fClosed f \<longrightarrow> fPos f = dSegSize d))"

definition dirty_ok :: "Disk \<Rightarrow> ackLog \<Rightarrow> bool" where
  "dirty_ok d log \<longleftrightarrow> (dDirty d \<longrightarrow> in_int64 (dDirtyHour d) \<and>
     (fmlookup (dFiles d) (pathOf (dDirtyHour d)) \<noteq> None \<longrightarrow>
        dDirtySize d = length (recordsOf (ackedIn log (dDirtyHour d)))))"

definition tail_of :: "Disk \<Rightarrow> byte list \<Rightarrow> int \<Rightarrow> byte list" where
  "tail_of d b = (if dDirty d then noTail(dDirtyHour d := b) else noTail)"

definition files_inv :: "Disk \<Rightarrow> ackLog \<Rightarrow> bool" where
  "files_inv d log \<longleftrightarrow> seg_ok d log \<and> dirty_ok d log
     \<and> (\<exists>ts k. writable ts \<and> dir_holds (dFiles d) log (tail_of d (take k (recordsOf ts))))"

definition disk_inv :: "Disk \<Rightarrow> ackLog \<Rightarrow> bool" where
  "disk_inv d log \<longleftrightarrow> mem_reachable (dMem d) \<and> mClosed (dMem d) = dClosed d \<and> files_inv d log"

subsection \<open>Names\<close>

lemma segmentHour_pathOf [simp]: "in_int64 h \<Longrightarrow> segmentHour (pathOf h) = Some h"
  by (simp add: segmentHour_def pathOf_def HasPrefix_def HasSuffix_def TrimPrefix_def TrimSuffix_def
      segmentPrefix_def segmentSuffix_def)

lemma pathOf_inj: "in_int64 h \<Longrightarrow> in_int64 h' \<Longrightarrow> pathOf h = pathOf h' \<longleftrightarrow> h = h'"
  by (metis option.inject segmentHour_pathOf)

lemma segmentHour_int64: "segmentHour name = Some h \<Longrightarrow> in_int64 h"
  by (auto simp: segmentHour_def ParseInt_def Let_def split: if_splits option.splits)

lemma set_segments:
  "canonical files \<Longrightarrow> set (segments files) = {h. in_int64 h \<and> fmlookup files (pathOf h) \<noteq> None}"
proof -
  assume can: "canonical files"
  have "h \<in> set (segments files) \<longleftrightarrow> (\<exists>n. fmlookup files n \<noteq> None \<and> segmentHour n = Some h)" for h
    by (force simp: segments_def List.map_filter_def)
  moreover have "(\<exists>n. fmlookup files n \<noteq> None \<and> segmentHour n = Some h) \<longleftrightarrow> in_int64 h \<and> fmlookup files (pathOf h) \<noteq> None" for h
    using can segmentHour_int64 segmentHour_pathOf unfolding canonical_def by metis
  ultimately show ?thesis by blast
qed

lemma sorted_segments [simp]: "sorted (segments files)"
  by (simp add: segments_def)

lemma distinct_segments:
  assumes "canonical files"
  shows "distinct (segments files)"
proof -
  have "inj_on (the \<circ> segmentHour) {n \<in> set (mapKeys files). segmentHour n \<noteq> None}"
    using assms unfolding inj_on_def canonical_def by (auto, metis)
  then show ?thesis
    by (simp add: segments_def List.map_filter_def distinct_map)
qed

lemma hourOf_int64:
  assumes "in_int64 (time_Unix now)"
  shows "in_int64 (hourOf now)"
proof -
  have "\<bar>time_Unix now\<bar> \<le> 2 ^ 63"
    using assms by (auto simp: in_int64_def)
  then have "\<bar>time_Unix now\<bar> div 3600 \<le> 2 ^ 63 div 3600"
    by (rule zdiv_mono1) simp
  moreover have "\<bar>hourOf now\<bar> = \<bar>time_Unix now\<bar> div 3600"
    by (auto simp: hourOf_def go_div_def abs_mult sgn_if)
  ultimately show ?thesis
    unfolding in_int64_def by simp linarith
qed

subsection \<open>Logs and directories\<close>

lemma ackedIn_simps [simp]:
  "ackedIn [] h = []" "ackedIn (log @ log') h = ackedIn log h @ ackedIn log' h"
  "ackedIn (map (Pair h') ss) h = (if h = h' then ss else [])"
  by (auto simp: ackedIn_def filter_map comp_def)

lemma ackedIn_sort [simp]: "ackedIn (sort_key fst log) h = ackedIn log h"
  using sort_key_stable [of fst h log] by (simp add: ackedIn_def)

lemma writable_ackedIn: "log_ok log \<Longrightarrow> writable (ackedIn log h)"
  by (auto simp: log_ok_def writable_def ackedIn_def)

lemma writable_append [simp]: "writable (ss @ ts) \<longleftrightarrow> writable ss \<and> writable ts"
  by (auto simp: writable_def)

lemma writable_recordable: "writable ss \<Longrightarrow> \<forall>s \<in> set ss. recordable s"
  by (simp add: writable_def)

lemma writable_take: "writable ss \<Longrightarrow> writable (take n ss)"
  by (auto simp: writable_def dest: in_set_takeD)

lemma writable_Write: "writable ss \<Longrightarrow> \<not> mClosed m \<Longrightarrow> Memory_Write m ss = (None, foldl Memory_insert m ss)"
  using firstInvalid_None_iff [of 0 ss] by (simp add: writable_def Memory_Write_def)

text \<open>Hour by hour, the log is read back in the order of the hours.\<close>

lemma concat_by_hour:
  assumes "sorted hs" "distinct hs" "fst ` set log \<subseteq> set hs"
  shows "concat (map (ackedIn log) hs) = map snd (sort_key fst log)"
proof -
  let ?ys = "concat (map (\<lambda>h. filter (\<lambda>e. fst e = h) log) hs)"
  have at: "filter (\<lambda>e. fst e = h) (concat (map (\<lambda>h. filter (\<lambda>e. fst e = h) log) hs))
      = (if h \<in> set hs then filter (\<lambda>e. fst e = h) log else [])" if "distinct hs" for h hs
    using that by (induction hs) (auto simp: filter_empty_conv)
  have "sorted (map fst ?ys)"
    using assms(1)
  proof (induction hs)
    case (Cons h hs)
    moreover have "sorted (map fst (filter (\<lambda>e. fst e = h) log))"
      by (induction log) auto
    ultimately show ?case by (auto simp: sorted_append)
  qed simp
  moreover have "filter (\<lambda>x. fst k = fst x) ?ys = filter (\<lambda>x. fst k = fst x) log" if "k \<in> set ?ys" for k
    using that at [OF assms(2), of "fst k"] by (auto simp: eq_commute)
  moreover have "mset ?ys = mset log"
  proof (rule multiset_eqI)
    fix e :: "int \<times> Span"
    have "count (mset xs) e = count (mset (filter (\<lambda>x. fst x = fst e) xs)) e" for xs :: ackLog
      by (induction xs) auto
    moreover have "filter (\<lambda>x. fst x = fst e) ?ys = filter (\<lambda>x. fst x = fst e) log"
    proof (cases "fst e \<in> set hs")
      case False
      with assms(3) have "filter (\<lambda>x. fst x = fst e) log = []"
        by (auto simp: filter_empty_conv)
      with False at [OF assms(2), of "fst e"] show ?thesis by simp
    qed (simp add: at [OF assms(2)])
    ultimately show "count (mset ?ys) e = count (mset log) e" by metis
  qed
  ultimately have "sort_key fst log = ?ys"
    by (intro properties_for_sort_key) auto
  then show ?thesis
    by (simp add: map_concat comp_def ackedIn_def [abs_def])
qed

lemma dir_holds_Some:
  "dir_holds files log tail \<Longrightarrow> in_int64 h \<Longrightarrow> fmlookup files (pathOf h) = Some c \<Longrightarrow>
   c = recordsOf (ackedIn log h) @ tail h"
  by (fastforce simp: dir_holds_def)

lemma dir_holds_None:
  "dir_holds files log tail \<Longrightarrow> in_int64 h \<Longrightarrow> fmlookup files (pathOf h) = None \<Longrightarrow>
   ackedIn log h = [] \<and> tail h = []"
  by (fastforce simp: dir_holds_def)

lemma canonical_upd: "canonical files \<Longrightarrow> in_int64 h \<Longrightarrow> canonical (fmupd (pathOf h) c files)"
  by (auto simp: canonical_def)

lemma canonical_drop: "canonical files \<Longrightarrow> canonical (fmdrop name files)"
  by (auto simp: canonical_def)

text \<open>Replacing the content of one segment.\<close>

lemma dir_holds_upd:
  assumes "dir_holds files log tail" "in_int64 h" "log_ok log'"
    and "c = recordsOf (ackedIn log' h) @ tail' h"
    and "\<And>h'. h' \<noteq> h \<Longrightarrow> ackedIn log' h' = ackedIn log h' \<and> tail' h' = tail h'"
  shows "dir_holds (fmupd (pathOf h) c files) log' tail'"
  using assms canonical_upd [of files h c]
  by (auto simp: dir_holds_def pathOf_inj split: option.splits)

lemma dir_holds_log_ok: "dir_holds files log tail \<Longrightarrow> log_ok log"
  by (simp add: dir_holds_def)

lemma truncated_take: "n \<le> length c \<Longrightarrow> truncated n c = take n c"
  by (simp add: truncated_def)

lemma truncated_prefix [simp]: "truncated (length a) (a @ b) = a"
  by (simp add: truncated_take)

lemma writtenAt_end [simp]: "writtenAt (length c) b c = c @ b"
  by (simp add: writtenAt_def truncated_take)

subsection \<open>Rolling\<close>

lemma tail_of_clean [simp]: "\<not> dDirty d \<Longrightarrow> tail_of d b = noTail"
  by (simp add: tail_of_def)

lemma files_inv_clean:
  "\<not> dDirty d \<Longrightarrow> files_inv d log \<longleftrightarrow> seg_ok d log \<and> dir_holds (dFiles d) log noTail"
  by (auto simp: files_inv_def dirty_ok_def writable_def intro: exI [of _ "[]"])

lemma files_inv_dMem [simp]: "files_inv (d\<lparr>dMem := m\<rparr>) log = files_inv d log"
  by (simp add: files_inv_def seg_ok_def dirty_ok_def tail_of_def cong: option.case_cong)

lemma repair_inv:
  assumes inv: "files_inv d log" and "dSeg d = None" "dDirty d" "repair io d = (err, d')"
  shows "files_inv d' log \<and> dSeg d' = None \<and> (err = None \<longrightarrow> \<not> dDirty d')"
proof (cases "\<not> wRepair io")
  case True
  with assms show ?thesis by (auto simp: repair_def Let_def)
next
  case False
  let ?h = "dDirtyHour d"
  obtain ts k where dir: "dir_holds (dFiles d) log (tail_of d (take k (recordsOf ts)))"
    using inv by (auto simp: files_inv_def)
  have h: "in_int64 ?h" and sz: "fmlookup (dFiles d) (pathOf ?h) \<noteq> None \<longrightarrow> dDirtySize d = length (recordsOf (ackedIn log ?h))"
    using inv assms(3) by (auto simp: files_inv_def dirty_ok_def)
  have d': "d' = d\<lparr>dFiles := onFile (pathOf ?h) (truncated (dDirtySize d)) (dFiles d), dDirty := False\<rparr>" "err = None"
    using assms(4) False by (auto simp: repair_def Let_def)
  have "dir_holds (dFiles d') log noTail"
  proof (cases "fmlookup (dFiles d) (pathOf ?h)")
    case None
    then have "tail_of d (take k (recordsOf ts)) = noTail"
      using dir_holds_None [OF dir h] by (auto simp: tail_of_def fun_eq_iff)
    with None dir show ?thesis by (simp add: d' onFile_def)
  next
    case (Some c)
    then have "c = recordsOf (ackedIn log ?h) @ take k (recordsOf ts)"
      using dir_holds_Some [OF dir h] assms(3) by (simp add: tail_of_def)
    with Some sz have "dFiles d' = fmupd (pathOf ?h) (recordsOf (ackedIn log ?h)) (dFiles d)"
      by (simp add: d' onFile_def)
    then show ?thesis
      using dir_holds_upd [OF dir h dir_holds_log_ok [OF dir], where tail' = noTail] assms(3) by (simp add: tail_of_def)
  qed
  with d' assms(2) show ?thesis by (simp add: files_inv_clean seg_ok_def)
qed

lemma openSegment_inv:
  assumes inv: "files_inv d log" and "dSeg d = None" "\<not> dDirty d" "in_int64 hour"
    and "openSegment io hour d = (err, d')"
  shows "files_inv d' log \<and> (err = None \<longrightarrow> dSeg d' \<noteq> None \<and> dSegHour d' = hour)"
proof (cases "wOpen io")
  case True
  have dir: "dir_holds (dFiles d) log noTail"
    using inv assms(3) by (simp add: files_inv_clean)
  define c where "c = (case fmlookup (dFiles d) (pathOf hour) of None \<Rightarrow> [] | Some c \<Rightarrow> c)"
  have c: "c = recordsOf (ackedIn log hour)"
    using dir_holds_Some [OF dir assms(4)] dir_holds_None [OF dir assms(4)]
    by (auto simp: c_def split: option.splits)
  then have "dir_holds (fmupd (pathOf hour) c (dFiles d)) log noTail"
    using dir_holds_upd [OF dir assms(4) dir_holds_log_ok [OF dir], where tail' = noTail] by simp
  then show ?thesis
    using True assms c by (auto simp: openSegment_def Let_def files_inv_clean seg_ok_def simp flip: c_def split: if_splits)
next
  case False
  with assms show ?thesis by (auto simp: openSegment_def Let_def)
qed

lemma roll_keeps:
  assumes "roll now io d = (err, d')"
  shows "dMem d' = dMem d \<and> dClosed d' = dClosed d \<and> dRetention d' = dRetention d"
  using assms by (auto simp: roll_def repair_def openSegment_def Let_def split: if_splits option.splits prod.splits)

lemma roll_inv:
  assumes inv: "files_inv d log" and h: "in_int64 (hourOf now)" and r: "roll now io d = (err, d')"
  shows "files_inv d' log \<and> (err = None \<longrightarrow> dSeg d' \<noteq> None \<and> dSegHour d' = hourOf now)"
proof -
  have step: "files_inv d' log \<and> (err = None \<longrightarrow> dSeg d' \<noteq> None \<and> dSegHour d' = hourOf now)"
    if inv: "files_inv d log" and none: "dSeg d = None"
      and r: "(let (err, d) = (if dDirty d then repair io d else (None, d))
               in case err of Some e \<Rightarrow> (Some e, d) | None \<Rightarrow> openSegment io (hourOf now) d) = (err, d')" for d
  proof (cases "dDirty d")
    case True
    obtain e1 d1 where 1: "repair io d = (e1, d1)" by fastforce
    note repair_inv [OF inv none True 1]
    with 1 r True openSegment_inv [of d1 log] h show ?thesis
      by (cases e1) auto
  next
    case False
    with r openSegment_inv [OF inv none _ h] show ?thesis by simp
  qed
  consider (same) "dSeg d \<noteq> None" "hourOf now = dSegHour d" | (none) "dSeg d = None"
    | (other) f where "dSeg d = Some f" "hourOf now \<noteq> dSegHour d" by blast
  then show ?thesis
  proof cases
    case same
    with r inv show ?thesis by (auto simp: roll_def)
  next
    case none
    with r step [OF inv none] show ?thesis by (simp add: roll_def Let_def)
  next
    case other
    then have clean: "\<not> dDirty d"
      using inv by (simp add: files_inv_def seg_ok_def)
    show ?thesis
    proof (cases "fClosed f \<or> \<not> wClose io")
      case True
      with r other have "d' = d\<lparr>dSeg := Some (f\<lparr>fClosed := True\<rparr>)\<rparr>" "err = Some CloseFailed"
        by (auto simp: roll_def Let_def)
      with inv other clean show ?thesis
        by (simp add: files_inv_clean seg_ok_def)
    next
      case False
      have "files_inv (d\<lparr>dSeg := None\<rparr>) log"
        using inv clean by (simp add: files_inv_clean seg_ok_def)
      with r other False step [of "d\<lparr>dSeg := None\<rparr>"] show ?thesis
        by (simp add: roll_def Let_def)
    qed
  qed
qed

subsection \<open>Appending\<close>

lemma rollback_keeps: "rollback io f d cause = (err, d') \<Longrightarrow>
   dMem d' = dMem d \<and> dClosed d' = dClosed d \<and> dRetention d' = dRetention d \<and> err \<noteq> None"
  by (auto simp: rollback_def Let_def split: if_splits)

text \<open>A rollback from a segment that holds the acknowledged records and some bytes of others.\<close>

lemma rollback_inv:
  assumes dir: "dir_holds (dFiles d) log (noTail(h := take k (recordsOf ts)))" and "writable ts"
    and h: "in_int64 h" "h = dSegHour d" and "\<not> dDirty d" and sz: "dSegSize d = length (recordsOf (ackedIn log h))"
    and f: "fPath f = pathOf h" and ex: "fmlookup (dFiles d) (pathOf h) \<noteq> None"
    and r: "rollback io f d cause = (err, d')"
  shows "files_inv d' log"
proof -
  obtain c where look: "fmlookup (dFiles d) (pathOf h) = Some c" using ex by blast
  then have c: "c = recordsOf (ackedIn log h) @ take k (recordsOf ts)"
    using dir_holds_Some [OF dir h(1)] by simp
  let ?cut = "fmupd (pathOf h) (recordsOf (ackedIn log h)) (dFiles d)"
  have cutf: "onFile (fPath f) (truncated (dSegSize d)) (dFiles d) = ?cut"
    by (simp add: onFile_def f look c sz)
  have clean: "dir_holds ?cut log noTail"
    by (rule dir_holds_upd [OF dir h(1) dir_holds_log_ok [OF dir]]) auto
  have cutdirty: "dir_holds ?cut log (noTail(h := take 0 (recordsOf ts)))"
    using clean by (simp add: fun_upd_idem)
  consider "wTruncate io" "\<not> fClosed f" "wSeek io" | "wTruncate io" "\<not> fClosed f" "\<not> wSeek io"
    | "\<not> (wTruncate io \<and> \<not> fClosed f)" by blast
  then show ?thesis
  proof cases
    case 1
    with r have "d' = d\<lparr>dFiles := ?cut, dSeg := Some (f\<lparr>fPos := dSegSize d\<rparr>)\<rparr>"
      by (auto simp: rollback_def Let_def cutf)
    with clean assms show ?thesis by (simp add: files_inv_clean seg_ok_def)
  next
    case 2
    with r have "d' = d\<lparr>dFiles := ?cut, dDirty := True, dDirtyHour := h, dDirtySize := dSegSize d, dSeg := None, dSegHour := -1\<rparr>"
      using h(2) by (auto simp: rollback_def Let_def cutf)
    moreover have "\<exists>ts k. writable ts \<and> dir_holds ?cut log (noTail(h := take k (recordsOf ts)))"
      using cutdirty assms(2) by blast
    ultimately show ?thesis
      using assms by (simp add: files_inv_def seg_ok_def dirty_ok_def tail_of_def)
  next
    case 3
    with r have "d' = d\<lparr>dDirty := True, dDirtyHour := h, dDirtySize := dSegSize d, dSeg := None, dSegHour := -1\<rparr>"
      using h(2) by (auto simp: rollback_def Let_def)
    with assms show ?thesis
      by (auto simp: files_inv_def seg_ok_def dirty_ok_def tail_of_def)
  qed
qed

lemma Disk_append_keeps:
  "Disk_append io f b d = (err, d') \<Longrightarrow>
   dMem d' = dMem d \<and> dClosed d' = dClosed d \<and> dRetention d' = dRetention d"
  by (auto simp: Disk_append_def Let_def dest!: rollback_keeps split: if_splits)

lemma Disk_append_inv:
  assumes inv: "files_inv d log" and f: "dSeg d = Some f" and ts: "writable ts"
    and r: "Disk_append io f (recordsOf ts) d = (err, d')"
  shows "files_inv d' (if err = None then log @ map (Pair (dSegHour d)) ts else log)"
proof -
  let ?h = "dSegHour d" and ?ack = "recordsOf (ackedIn log (dSegHour d))"
  have clean: "\<not> dDirty d" and h: "in_int64 ?h" and path: "fPath f = pathOf ?h"
    and ex: "fmlookup (dFiles d) (pathOf ?h) \<noteq> None" and sz: "dSegSize d = length ?ack"
    and pos: "\<not> fClosed f \<longrightarrow> fPos f = dSegSize d"
    using inv f by (auto simp: files_inv_def seg_ok_def)
  have dir: "dir_holds (dFiles d) log noTail"
    using inv clean by (simp add: files_inv_clean)
  then have look: "fmlookup (dFiles d) (pathOf ?h) = Some ?ack"
    using ex dir_holds_Some [OF dir h] by auto
  show ?thesis
  proof (cases "fClosed f")
    case True
    with r have rb: "rollback io f d AppendFailed = (err, d')"
      by (simp add: Disk_append_def)
    have "dir_holds (dFiles d) log (noTail(?h := take 0 (recordsOf ts)))"
      using dir by (simp add: fun_upd_idem)
    from rollback_inv [OF this ts h refl clean sz path ex rb] rollback_keeps [OF rb] show ?thesis by auto
  next
    case False
    define put where "put = (if wWrite io then recordsOf ts else take (wWrote io) (recordsOf ts))"
    define d1 where "d1 = d\<lparr>dFiles := fmupd (pathOf ?h) (?ack @ put) (dFiles d)\<rparr>"
    let ?f = "f\<lparr>fPos := fPos f + length put\<rparr>"
    have on: "onFile (fPath f) (writtenAt (fPos f) put) (dFiles d) = fmupd (pathOf ?h) (?ack @ put) (dFiles d)"
      using False pos sz by (simp add: onFile_def path look)
    have torn: "dir_holds (dFiles d1) log (noTail(?h := take k (recordsOf ts)))" if "put = take k (recordsOf ts)" for k
      unfolding d1_def using that by (simp add: dir_holds_upd [OF dir h dir_holds_log_ok [OF dir]])
    have rb: "files_inv d' log" if "rollback io ?f d1 cause = (err, d')" "put = take k (recordsOf ts)" for cause k
      by (rule rollback_inv [OF torn ts h _ _ _ _ _ that(1)]) (use that clean sz path in \<open>simp_all add: d1_def\<close>)
    consider "\<not> wWrite io" | "wWrite io" "\<not> wSync io" | "wWrite io" "wSync io" by blast
    then show ?thesis
    proof cases
      case 1
      with r False have rbk: "rollback io ?f d1 AppendFailed = (err, d')"
        using on by (simp add: Disk_append_def Let_def d1_def put_def)
      with rb [OF this, of "wWrote io"] rollback_keeps [OF rbk] 1 show ?thesis by (auto simp: put_def)
    next
      case 2
      with r False have rbk: "rollback io ?f d1 SyncFailed = (err, d')"
        using on by (simp add: Disk_append_def Let_def d1_def put_def)
      with rb [OF this, of "length (recordsOf ts)"] rollback_keeps [OF rbk] 2 show ?thesis by (auto simp: put_def)
    next
      case 3
      then have put: "put = recordsOf ts" by (simp add: put_def)
      with r False 3 have d': "d' = d1\<lparr>dSeg := Some ?f, dSegSize := dSegSize d + length put\<rparr>" "err = None"
        using on by (auto simp: Disk_append_def Let_def d1_def)
      have "log_ok (log @ map (Pair ?h) ts)"
        using dir_holds_log_ok [OF dir] ts h by (auto simp: log_ok_def comp_def)
      then have "dir_holds (dFiles d') (log @ map (Pair ?h) ts) noTail"
        unfolding d' d1_def by (simp add: put dir_holds_upd [OF dir h])
      with d' clean f h path sz pos False show ?thesis
        by (simp add: files_inv_clean seg_ok_def d1_def put)
    qed
  qed
qed

subsection \<open>Writing\<close>

lemma Disk_Write_inv:
  assumes inv: "disk_inv d log" and h: "in_int64 (hourOf now)" and ss: "\<forall>s \<in> set ss. codec_ok s"
    and w: "Disk_Write now io d ss = (err, d')"
  shows "disk_inv d' (if err = None then log @ map (Pair (hourOf now)) ss else log)
    \<and> (if err = None then writable ss \<and> \<not> dClosed d \<and> dMem d' = foldl Memory_insert (dMem d) ss else dMem d' = dMem d)"
proof (cases "firstInvalid 0 ss \<noteq> None \<or> dClosed d")
  case True
  with w inv show ?thesis by (auto simp: Disk_Write_def split: option.splits)
next
  case False
  then have valid: "\<forall>s \<in> set ss. Validate s = None" and op: "\<not> dClosed d" and mop: "\<not> mClosed (dMem d)"
    and fi: "files_inv d log" and reach: "mem_reachable (dMem d)"
    using inv firstInvalid_None_iff [of 0 ss] by (auto simp: disk_inv_def)
  obtain e1 d1 where r: "roll now io d = (e1, d1)" by fastforce
  note keep1 = roll_keeps [OF r] and inv1 = roll_inv [OF fi h r]
  have inv1': "disk_inv d1 log"
    using inv inv1 keep1 by (simp add: disk_inv_def)
  show ?thesis
  proof (cases e1)
    case (Some e)
    with w False r keep1 inv1' show ?thesis by (auto simp: Disk_Write_def)
  next
    case None
    then obtain f where f: "dSeg d1 = Some f" "dSegHour d1 = hourOf now"
      using inv1 by blast
    show ?thesis
    proof (cases "encodeRecords 0 [] ss")
      case (Inl p)
      with w False r None keep1 inv1' show ?thesis by (cases p) (auto simp: Disk_Write_def)
    next
      case (Inr b)
      then have b: "b = recordsOf ss" and wr: "writable ss"
        using encodeRecords_Inr [of 0 "[]" ss b] valid ss by (auto simp: writable_def recordable_def)
      obtain e2 d2 where a: "Disk_append io f (recordsOf ss) d1 = (e2, d2)" by fastforce
      note keep2 = Disk_append_keeps [OF a] and inv2 = Disk_append_inv [OF inv1 [THEN conjunct1] f(1) wr a]
      have mw: "Memory_Write (dMem d2) ss = (None, foldl Memory_insert (dMem d) ss)"
        using keep1 keep2 mop wr by (simp add: writable_Write)
      have w': "(err, d') = (if e2 = None then (None, d2\<lparr>dMem := foldl Memory_insert (dMem d) ss\<rparr>) else (e2, d2))"
        using w False r None Inr b f a mw by (auto simp: Disk_Write_def split: option.splits)
      show ?thesis
      proof (cases "e2 = None")
        case True
        have "mem_reachable (foldl Memory_insert (dMem d) ss)"
          using mem_reachable.wrote [OF reach, of ss] writable_Write [OF wr mop] by simp
        moreover have "mClosed (foldl Memory_insert (dMem d) ss) = dClosed d"
          using mop op by simp
        ultimately show ?thesis
          using True w' inv2 keep1 keep2 f wr op by (simp add: disk_inv_def)
      next
        case False
        with w' inv2 keep1 keep2 inv1' show ?thesis by (auto simp: disk_inv_def)
      qed
    qed
  qed
qed

end
