(* ===== verification/Disk_Recovery.thy ===== *)
theory Disk_Recovery
  imports Disk_Durable
begin

section \<open>The disk store: restart, eviction and the properties\<close>

text \<open>
  Replaying a directory rebuilds the memory store from the log, hour by hour, and cuts a torn
  tail off the newest segment. The properties at the end are about every store a session can
  reach.
\<close>

subsection \<open>Replaying\<close>

lemma replay_whole:
  assumes "fmlookup (dFiles d) (pathOf h) = Some (recordsOf ss)" "writable ss" "\<not> mClosed (dMem d)"
  shows "replay io h newest d = (if oRead io (pathOf h) then (None, d\<lparr>dMem := foldl Memory_insert (dMem d) ss\<rparr>)
    else (Some (ReadFailed (pathOf h)), d))"
  using assms intactPrefix_recordsOf [of ss] writable_Write [of ss]
  by (simp add: replay_def Let_def writable_recordable)

lemma replay_torn:
  assumes "fmlookup (dFiles d) (pathOf h) = Some (recordsOf ss @ take k (recordsOf ts))" "writable (ss @ ts)"
    and "\<not> mClosed (dMem d)" "oRead io (pathOf h)" "oTruncate io (pathOf h)"
  shows "\<exists>j. replay io h True d = (None, d\<lparr>dFiles := fmupd (pathOf h) (recordsOf (ss @ take j ts)) (dFiles d),
    dMem := foldl Memory_insert (dMem d) (ss @ take j ts)\<rparr>)"
proof -
  obtain j e where ip: "intactPrefix (recordsOf ss @ take k (recordsOf ts))
      = (ss @ take j ts, length (recordsOf (ss @ take j ts)), e)"
    and cut: "take (length (recordsOf (ss @ take j ts))) (recordsOf ss @ take k (recordsOf ts)) = recordsOf (ss @ take j ts)"
    and whole: "e = None \<longrightarrow> recordsOf ss @ take k (recordsOf ts) = recordsOf (ss @ take j ts)"
    using intactPrefix_take [of ss ts k] assms(2) writable_recordable by (metis Un_iff writable_append)
  let ?c = "recordsOf ss @ take k (recordsOf ts)"
  have "length (recordsOf (ss @ take j ts)) \<le> length ?c"
    using cut by (metis length_take min.bounded_iff order_refl)
  then have tr: "truncated (length (recordsOf (ss @ take j ts))) ?c = recordsOf (ss @ take j ts)"
    using cut by (simp only: truncated_take)
  have same: "fmupd (pathOf h) ?c (dFiles d) = dFiles d"
    using assms(1) by (intro fmap_ext) auto
  have on: "onFile (pathOf h) (truncated (length (recordsOf (ss @ take j ts)))) (dFiles d)
      = fmupd (pathOf h) (recordsOf (ss @ take j ts)) (dFiles d)"
    unfolding onFile_def assms(1) option.case tr ..
  have mw: "Memory_Write m (ss @ take j ts) = (None, foldl Memory_insert m (ss @ take j ts))" if "\<not> mClosed m" for m
    using that assms(2) writable_take by (intro writable_Write) auto
  define xs where "xs = ss @ take j ts"
  note folded = ip [folded xs_def] on [folded xs_def] mw [folded xs_def]
  show ?thesis
  proof (cases e)
    case None
    then have eq: "recordsOf xs = ?c" using whole by (simp add: xs_def)
    have "replay io h True d = (None, d\<lparr>dMem := foldl Memory_insert (dMem d) xs\<rparr>)"
      using assms(1,3,4) None folded by (auto simp: replay_def Let_def)
    then show ?thesis
      using same eq by (intro exI [of _ j]) (simp del: foldl_append recordsOf_simps flip: xs_def)
  next
    case (Some x)
    then show ?thesis
      using assms(1,3,4,5) folded unfolding xs_def [symmetric]
      by (intro exI [of _ j]) (auto simp: replay_def Let_def simp flip: xs_def)
  qed
qed

definition whole :: "Dir \<Rightarrow> (int \<Rightarrow> Span list) \<Rightarrow> int \<Rightarrow> bool" where
  "whole files f h \<longleftrightarrow> fmlookup files (pathOf h) = Some (recordsOf (f h)) \<and> writable (f h)"

lemma replayAll_whole:
  assumes "\<forall>h \<in> set hs. whole (dFiles d) f h" "\<not> mClosed (dMem d)" "replayAll io hs d = (None, d')"
  shows "d' = d\<lparr>dMem := foldl Memory_insert (dMem d) (concat (map f hs))\<rparr>"
  using assms
proof (induction hs arbitrary: d)
  case (Cons h hs)
  let ?d = "d\<lparr>dMem := foldl Memory_insert (dMem d) (f h)\<rparr>"
  have "replay io h (hs = []) d = (if oRead io (pathOf h) then (None, ?d) else (Some (ReadFailed (pathOf h)), d))"
    using Cons.prems by (intro replay_whole) (auto simp: whole_def)
  then have "replayAll io hs ?d = (None, d')"
    using Cons.prems(3) by (auto split: if_splits)
  then have "d' = ?d\<lparr>dMem := foldl Memory_insert (dMem ?d) (concat (map f hs))\<rparr>"
    using Cons.prems(1,2) by (intro Cons.IH) auto
  then show ?case by simp
qed simp

lemma replayAll_whole_then:
  assumes "\<forall>h \<in> set hs. whole (dFiles d) f h" "\<not> mClosed (dMem d)" "\<forall>h \<in> set hs. oRead io (pathOf h)"
  shows "replayAll io (hs @ [h']) d
    = replay io h' True (d\<lparr>dMem := foldl Memory_insert (dMem d) (concat (map f hs))\<rparr>)"
  using assms
proof (induction hs arbitrary: d)
  case Nil
  then show ?case by (auto split: option.splits prod.splits)
next
  case (Cons h hs)
  let ?d = "d\<lparr>dMem := foldl Memory_insert (dMem d) (f h)\<rparr>"
  have "replay io h False d = (None, ?d)"
    using Cons.prems replay_whole [of d h "f h" io False] by (simp add: whole_def)
  then have "replayAll io ((h # hs) @ [h']) d = replayAll io (hs @ [h']) ?d"
    by simp
  also have "\<dots> = replay io h' True (?d\<lparr>dMem := foldl Memory_insert (dMem ?d) (concat (map f hs))\<rparr>)"
    using Cons.prems by (intro Cons.IH) auto
  finally show ?case by simp
qed

lemma replayAll_whole_ok:
  assumes "\<forall>h \<in> set hs. whole (dFiles d) f h" "\<not> mClosed (dMem d)" "\<forall>h \<in> set hs. oRead io (pathOf h)"
  shows "fst (replayAll io hs d) = None"
  using assms
proof (induction hs arbitrary: d)
  case (Cons h hs)
  then show ?case
    using replay_whole [of d h "f h" io "hs = []"] by (simp add: whole_def)
qed simp

lemma replayAll_stops:
  assumes "\<forall>h \<in> set hs. whole (dFiles d) f h" "\<not> mClosed (dMem d)" "\<forall>h \<in> set hs. oRead io (pathOf h)"
    and "hs' \<noteq> []" "\<And>d1. dFiles d1 = dFiles d \<Longrightarrow> replay io h' False d1 = (Some e, d1)"
  shows "fst (replayAll io (hs @ h' # hs') d) = Some e"
  using assms
proof (induction hs arbitrary: d)
  case (Cons h hs)
  then show ?case
    using replay_whole [of d h "f h" io False] by (simp add: whole_def)
qed simp

lemma log_hours:
  assumes "dir_holds files log tail"
  shows "fst ` set log \<subseteq> set (segments files)"
proof
  fix h assume "h \<in> fst ` set log"
  then have "in_int64 h" "ackedIn log h \<noteq> []"
    using assms by (auto simp: dir_holds_def log_ok_def ackedIn_def filter_empty_conv)
  with dir_holds_None [OF assms] set_segments [of files] assms show "h \<in> set (segments files)"
    by (auto simp: dir_holds_def)
qed

text \<open>What a restart makes of a directory with a torn newest segment.\<close>

lemma replayAll_recovers:
  assumes dir: "dir_holds files log (noTail(hh := take k (recordsOf ts)))" and ts: "writable ts"
    and hh: "in_int64 hh" "segments files = hs @ [hh]" and io: "\<forall>p. oRead io p" "\<forall>p. oTruncate io p"
  shows "\<exists>j. let log' = log @ map (Pair hh) (take j ts) in
    replayAll io (segments files) (newDisk r files) =
      (None, (newDisk r files)\<lparr>dFiles := fmupd (pathOf hh) (recordsOf (ackedIn log' hh)) files,
         dMem := foldl Memory_insert (NewMemory r) (map snd (sort_key fst log'))\<rparr>)
    \<and> dir_holds (fmupd (pathOf hh) (recordsOf (ackedIn log' hh)) files) log' noTail"
proof -
  have can: "canonical files" and ok: "log_ok log" using dir by (auto simp: dir_holds_def)
  have hs: "sorted (hs @ [hh])" "distinct (hs @ [hh])"
    using distinct_segments [OF can] sorted_segments [of files] hh(2) by auto
  have look: "in_int64 h \<and> fmlookup files (pathOf h) = Some (recordsOf (ackedIn log h) @ (noTail(hh := take k (recordsOf ts))) h)"
    if "h \<in> set (hs @ [hh])" for h
  proof -
    have "in_int64 h" "fmlookup files (pathOf h) \<noteq> None"
      using that set_segments [OF can] hh(2) by auto
    then show ?thesis using dir_holds_Some [OF dir, of h] by auto
  qed
  let ?d = "newDisk r files"
  let ?m = "foldl Memory_insert (NewMemory r) (concat (map (ackedIn log) hs))"
  have "whole (dFiles ?d) (ackedIn log) h" if "h \<in> set hs" for h
    using that look [of h] hs(2) writable_ackedIn [OF ok] by (auto simp: whole_def newDisk_def)
  moreover have op: "\<not> mClosed (dMem ?d)" "\<not> mClosed ?m"
    by (simp_all add: newDisk_def NewMemory_def)
  ultimately have all: "replayAll io (hs @ [hh]) ?d = replay io hh True (?d\<lparr>dMem := ?m\<rparr>)"
    using replayAll_whole_then [of hs ?d "ackedIn log" io hh] io by (simp add: newDisk_def)
  obtain j where j: "replay io hh True (?d\<lparr>dMem := ?m\<rparr>) = (None,
      ?d\<lparr>dFiles := fmupd (pathOf hh) (recordsOf (ackedIn log hh @ take j ts)) files,
         dMem := foldl Memory_insert ?m (ackedIn log hh @ take j ts)\<rparr>)"
    using replay_torn [of "?d\<lparr>dMem := ?m\<rparr>" hh "ackedIn log hh" k ts io] look [of hh] ts io op
      writable_ackedIn [OF ok] by (auto simp: newDisk_def simp del: foldl_append recordsOf_simps)
  define log' where "log' = log @ map (Pair hh) (take j ts)"
  have ack: "ackedIn log' hh = ackedIn log hh @ take j ts" "h \<noteq> hh \<Longrightarrow> ackedIn log' h = ackedIn log h" for h
    by (simp_all add: log'_def)
  have "map (ackedIn log') hs = map (ackedIn log) hs"
    using hs(2) by (intro map_cong refl ack(2)) auto
  then have "concat (map (ackedIn log) hs) @ (ackedIn log hh @ take j ts) = concat (map (ackedIn log') (hs @ [hh]))"
    using ack(1) by (simp only: map_append concat_append list.map concat.simps append_Nil2)
  also have "\<dots> = map snd (sort_key fst log')"
    using log_hours [OF dir] hh(2) hs by (intro concat_by_hour) (auto simp: log'_def)
  finally have mem: "foldl Memory_insert ?m (ackedIn log hh @ take j ts)
      = foldl Memory_insert (NewMemory r) (map snd (sort_key fst log'))"
    by (metis foldl_append)
  have "log_ok log'"
    using ok ts hh(1) writable_take [of ts j] by (auto simp: log'_def log_ok_def comp_def)
  then have "dir_holds (fmupd (pathOf hh) (recordsOf (ackedIn log' hh)) files) log' noTail"
    using ack(2) by (intro dir_holds_upd [OF dir hh(1)]) auto
  then show ?thesis
    using all j mem hh(2) ack(1) unfolding log'_def Let_def by (intro exI [of _ j]) simp
qed

subsection \<open>Eviction\<close>

text \<open>The hours whose segment an eviction deletes.\<close>

definition segmentGone :: "Time \<Rightarrow> bool \<Rightarrow> (string \<Rightarrow> bool) \<Rightarrow> Disk \<Rightarrow> int \<Rightarrow> bool" where
  "segmentGone now listed remove d h \<longleftrightarrow> 0 < dRetention d \<and> listed
     \<and> segmentExpired (hourOf (now - dRetention d)) d h \<and> remove (pathOf h)"

definition kept :: "(int \<Rightarrow> bool) \<Rightarrow> ackLog \<Rightarrow> ackLog" where
  "kept gone log = filter (\<lambda>e. \<not> gone (fst e)) log"

lemma ackedIn_kept: "ackedIn (kept gone log) h = (if gone h then [] else ackedIn log h)"
  by (auto simp: ackedIn_def kept_def filter_empty_conv intro!: arg_cong [where f = "map snd"] filter_cong)

lemma log_ok_kept: "log_ok log \<Longrightarrow> log_ok (kept gone log)"
  by (auto simp: log_ok_def kept_def writable_def)

lemma lookup_foldl_drop:
  "fmlookup (foldl (\<lambda>files h. if \<not> p h then files else if q h then fmdrop (pathOf h) files else files) files hs) name
   = (if \<exists>h \<in> set hs. p h \<and> q h \<and> name = pathOf h then None else fmlookup files name)"
  by (induction hs arbitrary: files) auto

lemma lookup_evictSegments:
  assumes "canonical (dFiles d)" "in_int64 h"
  shows "fmlookup (dFiles (evictSegments now listed remove d)) (pathOf h)
    = (if segmentGone now listed remove d h then None else fmlookup (dFiles d) (pathOf h))"
  using assms
  by (auto simp: evictSegments_def segmentGone_def Let_def lookup_foldl_drop set_segments pathOf_inj)

lemma canonical_evictSegments: "canonical (dFiles d) \<Longrightarrow> canonical (dFiles (evictSegments now listed remove d))"
  by (auto simp: canonical_def evictSegments_def Let_def lookup_foldl_drop split: if_splits)

lemma evictSegments_fields [simp]:
  "dSeg (evictSegments now listed remove d) = dSeg d" "dMem (evictSegments now listed remove d) = dMem d"
  "dSegHour (evictSegments now listed remove d) = dSegHour d" "dSegSize (evictSegments now listed remove d) = dSegSize d"
  "dDirty (evictSegments now listed remove d) = dDirty d" "dDirtyHour (evictSegments now listed remove d) = dDirtyHour d"
  "dDirtySize (evictSegments now listed remove d) = dDirtySize d" "dClosed (evictSegments now listed remove d) = dClosed d"
  by (simp_all add: evictSegments_def Let_def)

lemma evictSegments_inv:
  assumes inv: "files_inv d log"
  shows "files_inv (evictSegments now listed remove d) (kept (segmentGone now listed remove d) log)"
proof -
  let ?d = "evictSegments now listed remove d" and ?g = "segmentGone now listed remove d"
  obtain ts k where ts: "writable ts" and dir: "dir_holds (dFiles d) log (tail_of d (take k (recordsOf ts)))"
    using inv by (auto simp: files_inv_def)
  have can: "canonical (dFiles d)" and ok: "log_ok log" using dir by (auto simp: dir_holds_def)
  note look = lookup_evictSegments [OF can, of _ now listed remove]
  have "dir_holds (dFiles ?d) (kept ?g log) (\<lambda>h. if ?g h then [] else tail_of d (take k (recordsOf ts)) h)"
    using dir canonical_evictSegments [OF can] log_ok_kept [OF ok]
    by (auto simp: dir_holds_def look ackedIn_kept split: option.splits)
  moreover have "(\<lambda>h. if ?g h then [] else tail_of d (take k (recordsOf ts)) h)
      = tail_of ?d (take (if ?g (dDirtyHour d) then 0 else k) (recordsOf ts))"
    by (auto simp: tail_of_def fun_eq_iff)
  ultimately have "\<exists>ts k. writable ts \<and> dir_holds (dFiles ?d) (kept ?g log) (tail_of ?d (take k (recordsOf ts)))"
    using ts by metis
  moreover have "seg_ok ?d (kept ?g log)"
    using inv by (auto simp: files_inv_def seg_ok_def look ackedIn_kept segmentGone_def segmentExpired_def
        split: option.splits)
  moreover have "dirty_ok ?d (kept ?g log)"
    using inv by (auto simp: files_inv_def dirty_ok_def look ackedIn_kept split: if_splits)
  ultimately show ?thesis by (simp add: files_inv_def)
qed

subsection \<open>Sessions\<close>

text \<open>The stores that any number of sessions can reach, with the log of the spans their files hold. A
  session starts by replaying whatever directory the last one left, torn or not; the log is then
  what the files hold after the replay.\<close>

inductive disk_reach :: "Disk \<Rightarrow> ackLog \<Rightarrow> bool" where
  opened: "canonical files \<Longrightarrow> replayAll io (segments files) (newDisk r files) = (None, d) \<Longrightarrow>
    dir_holds (dFiles d) log noTail \<Longrightarrow> disk_reach d (sort_key fst log)"
| wrote: "disk_reach d log \<Longrightarrow> in_int64 (time_Unix now) \<Longrightarrow> \<forall>s \<in> set ss. codec_ok s \<Longrightarrow>
    Disk_Write now io d ss = (None, d') \<Longrightarrow> disk_reach d' (log @ map (Pair (hourOf now)) ss)"
| failed: "disk_reach d log \<Longrightarrow> in_int64 (time_Unix now) \<Longrightarrow> \<forall>s \<in> set ss. codec_ok s \<Longrightarrow>
    Disk_Write now io d ss = (Some err, d') \<Longrightarrow> disk_reach d' log"
| evicted: "disk_reach d log \<Longrightarrow> disk_reach (snd (evictMem now d)) log"
| deleted: "disk_reach d log \<Longrightarrow> disk_reach (evictSegments now listed remove d) (kept (segmentGone now listed remove d) log)"
| closed: "disk_reach d log \<Longrightarrow> disk_reach (snd (Disk_Close syncOk closeOk d)) log"

lemma reachable_inserts:
  "writable ss \<Longrightarrow> mem_reachable m \<Longrightarrow> \<not> mClosed m \<Longrightarrow> mem_reachable (foldl Memory_insert m ss)"
  using mem_reachable.wrote [of m ss] writable_Write [of ss m] by simp

lemma replayed_eq:
  assumes "dir_holds files log noTail" "replayAll io (segments files) (newDisk r files) = (None, d)"
  shows "d = (newDisk r files)\<lparr>dMem := foldl Memory_insert (NewMemory r) (map snd (sort_key fst log))\<rparr>"
proof -
  have can: "canonical files" and ok: "log_ok log" using assms(1) by (auto simp: dir_holds_def)
  have "whole files (ackedIn log) h" if "h \<in> set (segments files)" for h
    using that set_segments [OF can] dir_holds_Some [OF assms(1)] writable_ackedIn [OF ok] by (auto simp: whole_def)
  then have "d = (newDisk r files)\<lparr>dMem := foldl Memory_insert (NewMemory r) (concat (map (ackedIn log) (segments files)))\<rparr>"
    using replayAll_whole [OF _ _ assms(2), of "ackedIn log"] by (simp add: newDisk_def NewMemory_def)
  then show ?thesis
    using concat_by_hour [OF _ distinct_segments [OF can] log_hours [OF assms(1)]] by simp
qed

lemma log_ok_sort: "log_ok (sort_key fst log) = log_ok log"
  by (simp add: log_ok_def writable_def)

lemma dir_holds_sort: "dir_holds files (sort_key fst log) tail = dir_holds files log tail"
  by (simp add: dir_holds_def log_ok_sort cong: option.case_cong)

text \<open>Replaying any directory: the memory store gets what the files hold afterwards.\<close>

definition segSpans :: "Dir \<Rightarrow> int \<Rightarrow> Span list" where
  "segSpans files h = (case fmlookup files (pathOf h) of None \<Rightarrow> [] | Some c \<Rightarrow> fst (intactPrefix c))"

lemma replay_done:
  assumes "replay io h newest d = (None, d')" "\<not> mClosed (dMem d)"
  shows "\<exists>c. fmlookup (dFiles d) (pathOf h) \<noteq> None
    \<and> d' = d\<lparr>dFiles := fmupd (pathOf h) c (dFiles d), dMem := foldl Memory_insert (dMem d) (fst (intactPrefix c))\<rparr>"
proof -
  obtain data where data: "fmlookup (dFiles d) (pathOf h) = Some data" "oRead io (pathOf h)"
    using assms(1) by (auto simp: replay_def Let_def split: option.splits if_splits)
  obtain spans good err where ip: "intactPrefix data = (spans, good, err)" by (metis surj_pair)
  note cut = intactPrefix_cut [OF ip]
  let ?d1 = "d\<lparr>dFiles := fmupd (pathOf h) (take good data) (dFiles d)\<rparr>"
  have same: "fmupd (pathOf h) data (dFiles d) = dFiles d" using data(1) by (intro fmap_ext) auto
  have "(case err of None \<Rightarrow> d | Some e \<Rightarrow> d\<lparr>dFiles := onFile (pathOf h) (truncated good) (dFiles d)\<rparr>) = ?d1"
    using cut(1,3) same data(1) by (auto simp: onFile_def truncated_take split: option.split)
  then have "d' = (if spans = [] then ?d1 else ?d1\<lparr>dMem := snd (Memory_Write (dMem d) spans)\<rparr>)
      \<and> (spans \<noteq> [] \<longrightarrow> fst (Memory_Write (dMem d) spans) = None)"
    using assms(1) data ip by (auto simp: replay_def Let_def split: option.splits if_splits prod.splits)
  moreover have "snd (Memory_Write (dMem d) spans) = foldl Memory_insert (dMem d) spans" if "fst (Memory_Write (dMem d) spans) = None"
    using that assms(2) by (auto simp: Memory_Write_def split: option.splits)
  ultimately have "d' = ?d1\<lparr>dMem := foldl Memory_insert (dMem d) (fst (intactPrefix (take good data)))\<rparr>"
    using cut(2) by (auto split: if_splits)
  with data(1) show ?thesis by auto
qed

lemma replayAll_done:
  assumes "replayAll io hs d = (None, d')" "\<not> mClosed (dMem d)" "distinct (map pathOf hs)"
  shows "d' = d\<lparr>dFiles := dFiles d', dMem := foldl Memory_insert (dMem d) (concat (map (segSpans (dFiles d')) hs))\<rparr>
    \<and> fmdom (dFiles d') = fmdom (dFiles d) \<and> (\<forall>name. name \<notin> pathOf ` set hs \<longrightarrow> fmlookup (dFiles d') name = fmlookup (dFiles d) name)"
  using assms
proof (induction hs arbitrary: d)
  case (Cons h hs)
  obtain d1 where r: "replay io h (hs = []) d = (None, d1)" "replayAll io hs d1 = (None, d')"
    using Cons.prems(1) by (auto split: prod.splits option.splits)
  obtain c where c: "fmlookup (dFiles d) (pathOf h) \<noteq> None"
    "d1 = d\<lparr>dFiles := fmupd (pathOf h) c (dFiles d), dMem := foldl Memory_insert (dMem d) (fst (intactPrefix c))\<rparr>"
    using replay_done [OF r(1) Cons.prems(2)] by blast
  have "\<not> mClosed (dMem d1)" using Cons.prems(2) by (simp add: c(2))
  note ih = Cons.IH [OF r(2) this]
  have "fmlookup (dFiles d') (pathOf h) = Some c" using ih Cons.prems(3) by (simp add: c(2))
  then have seg: "segSpans (dFiles d') h = fst (intactPrefix c)" by (simp add: segSpans_def)
  have "pathOf h |\<in>| fmdom (dFiles d)" using c(1) by (auto intro: fmdomI)
  then have dom: "fmdom (dFiles d1) = fmdom (dFiles d)" by (auto simp: c(2))
  have d': "d' = d1\<lparr>dFiles := dFiles d', dMem := foldl Memory_insert (dMem d1) (concat (map (segSpans (dFiles d')) hs))\<rparr>"
    using ih Cons.prems(3) by simp
  have "d' = d\<lparr>dFiles := dFiles d', dMem := foldl Memory_insert (dMem d) (concat (map (segSpans (dFiles d')) (h # hs)))\<rparr>"
    by (subst d') (simp add: c(2) seg)
  moreover have "fmlookup (dFiles d') name = fmlookup (dFiles d) name" if "name \<notin> pathOf ` set (h # hs)" for name
    using ih Cons.prems(3) that by (auto simp: c(2))
  ultimately show ?case using ih Cons.prems(3) dom by auto
qed simp

lemma opened_eq:
  assumes "canonical files" "replayAll io (segments files) (newDisk r files) = (None, d)" "dir_holds (dFiles d) log noTail"
  shows "d = (newDisk r (dFiles d))\<lparr>dMem := foldl Memory_insert (NewMemory r) (map snd (sort_key fst log))\<rparr>"
proof -
  have int: "in_int64 h" if "h \<in> set (segments files)" for h using that set_segments [OF assms(1)] by simp
  have "distinct (map pathOf (segments files))"
    using distinct_segments [OF assms(1)] int by (auto simp: distinct_map inj_on_def pathOf_inj)
  from replayAll_done [OF assms(2) _ this]
  have d: "d = (newDisk r (dFiles d))\<lparr>dMem := foldl Memory_insert (NewMemory r) (concat (map (segSpans (dFiles d)) (segments files)))\<rparr>"
    and dom: "fmdom (dFiles d) = fmdom files" by (auto simp: newDisk_def NewMemory_def)
  have can: "canonical (dFiles d)" and ok: "log_ok log" using assms(3) by (auto simp: dir_holds_def)
  have segs: "segments (dFiles d) = segments files" using dom by (simp add: segments_def mapKeys_def)
  have "segSpans (dFiles d) h = ackedIn log h" if h: "h \<in> set (segments files)" for h
  proof -
    obtain c where c: "fmlookup (dFiles d) (pathOf h) = Some c"
      using h set_segments [OF can] unfolding segs by auto
    then have "c = recordsOf (ackedIn log h)" using dir_holds_Some [OF assms(3) int [OF h]] by simp
    then show ?thesis
      using c intactPrefix_recordsOf [OF writable_recordable [OF writable_ackedIn [OF ok], of h]] by (simp add: segSpans_def)
  qed
  then have "concat (map (segSpans (dFiles d)) (segments files)) = concat (map (ackedIn log) (segments (dFiles d)))"
    by (simp add: segs cong: map_cong)
  also have "\<dots> = map snd (sort_key fst log)"
    using concat_by_hour [OF _ distinct_segments [OF can] log_hours [OF assms(3)]] by simp
  finally show ?thesis using d by simp
qed

lemma reach_replayed:
  assumes "dir_holds files log noTail" "replayAll io (segments files) (newDisk r files) = (None, d)"
  shows "disk_reach d (sort_key fst log)"
proof -
  have "dFiles d = files" using arg_cong [OF replayed_eq [OF assms], of dFiles] by (simp add: newDisk_def)
  with assms show ?thesis by (intro disk_reach.opened [OF _ assms(2)]) (auto simp: dir_holds_def)
qed

lemma opened_inv:
  assumes "canonical files" "replayAll io (segments files) (newDisk r files) = (None, d)" "dir_holds (dFiles d) log noTail"
  shows "disk_inv d (sort_key fst log)"
proof -
  have "writable (map snd (sort_key fst log))"
    using assms(3) by (auto simp: dir_holds_def log_ok_def writable_def)
  then have "mem_reachable (foldl Memory_insert (NewMemory r) (map snd (sort_key fst log)))"
    by (rule reachable_inserts [OF _ mem_reachable.new]) (simp add: NewMemory_def)
  then show ?thesis
    by (subst opened_eq [OF assms]) (use assms(3) in \<open>simp add: disk_inv_def files_inv_clean seg_ok_def newDisk_def dir_holds_sort NewMemory_def\<close>)
qed

lemma Memory_EvictExpired_closed: "mClosed (snd (Memory_EvictExpired now m)) = mClosed m"
  by (simp add: Memory_EvictExpired_def Let_def foldl_remove_closed)

lemma reach_disk_inv: "disk_reach d log \<Longrightarrow> disk_inv d log"
proof (induction rule: disk_reach.induct)
  case (opened files io r d log)
  then show ?case by (rule opened_inv)
next
  case (wrote d log now ss io d')
  then show ?case using Disk_Write_inv [of d log now ss io None d'] hourOf_int64 by simp
next
  case (failed d log now ss io err d')
  then show ?case using Disk_Write_inv [of d log now ss io "Some err" d'] hourOf_int64 by simp
next
  case (evicted d log now)
  then show ?case
    using mem_reachable.evicted [of "dMem d" now] Memory_EvictExpired_closed [of now "dMem d"]
    by (auto simp: disk_inv_def evictMem_def split: prod.splits)
next
  case (deleted d log now listed remove)
  then show ?case using evictSegments_inv by (simp add: disk_inv_def)
next
  case (closed d log syncOk closeOk)
  show ?case
  proof (cases "dClosed d")
    case False
    then have d': "snd (Disk_Close syncOk closeOk d) = d\<lparr>dClosed := True, dSeg := None, dMem := Memory_Close (dMem d)\<rparr>"
      by (simp add: Disk_Close_def Let_def)
    have tail: "tail_of (d\<lparr>dClosed := True, dSeg := None\<rparr>) = tail_of d"
      by (simp add: tail_of_def fun_eq_iff)
    have "files_inv (d\<lparr>dClosed := True, dSeg := None\<rparr>) log"
      using closed.IH unfolding disk_inv_def files_inv_def tail by (simp add: seg_ok_def dirty_ok_def)
    then show ?thesis
      using closed.IH mem_reachable.closed [of "dMem d"] unfolding d'
      by (simp add: disk_inv_def Memory_Close_def)
  qed (use closed.IH in \<open>simp add: Disk_Close_def\<close>)
qed

subsection \<open>Crashes\<close>

text \<open>What a crash in the middle of an append leaves: the first bytes of the batch behind the open
  segment.\<close>

definition crashed :: "Disk \<Rightarrow> nat \<Rightarrow> Span list \<Rightarrow> Dir" where
  "crashed d k ts = onFile (pathOf (dSegHour d)) (\<lambda>c. c @ take k (recordsOf ts)) (dFiles d)"

definition openOk :: "openIO \<Rightarrow> bool" where
  "openOk io \<longleftrightarrow> oMkdir io \<and> oList io \<and> (\<forall>p. oRead io p) \<and> (\<forall>p. oTruncate io p)"

lemma replayAll_clean:
  assumes "dir_holds files log noTail" "openOk io"
  shows "\<exists>d. replayAll io (segments files) (newDisk r files) = (None, d)"
proof -
  have can: "canonical files" and ok: "log_ok log" using assms(1) by (auto simp: dir_holds_def)
  have "whole files (ackedIn log) h" if "h \<in> set (segments files)" for h
    using that set_segments [OF can] dir_holds_Some [OF assms(1)] writable_ackedIn [OF ok] by (auto simp: whole_def)
  then have "fst (replayAll io (segments files) (newDisk r files)) = None"
    using assms(2) by (intro replayAll_whole_ok [of _ _ "ackedIn log"]) (auto simp: newDisk_def NewMemory_def openOk_def)
  then show ?thesis by (metis prod.collapse)
qed

lemma crashed_holds:
  assumes inv: "disk_inv d log" and seg: "dSeg d = Some f"
  shows "dir_holds (crashed d k ts) log (noTail(dSegHour d := take k (recordsOf ts)))
    \<and> in_int64 (dSegHour d) \<and> dSegHour d \<in> set (segments (crashed d k ts))
    \<and> segments (crashed d k ts) = segments (dFiles d)"
proof -
  let ?h = "dSegHour d"
  have clean: "\<not> dDirty d" and h: "in_int64 ?h" and ex: "fmlookup (dFiles d) (pathOf ?h) \<noteq> None"
    using inv seg by (auto simp: disk_inv_def files_inv_def seg_ok_def)
  have dir: "dir_holds (dFiles d) log noTail"
    using inv clean by (simp add: disk_inv_def files_inv_clean)
  then have eq: "crashed d k ts = fmupd (pathOf ?h) (recordsOf (ackedIn log ?h) @ take k (recordsOf ts)) (dFiles d)"
    using ex dir_holds_Some [OF dir h] by (auto simp: crashed_def onFile_def)
  have "dir_holds (crashed d k ts) log (noTail(?h := take k (recordsOf ts)))"
    unfolding eq by (rule dir_holds_upd [OF dir h dir_holds_log_ok [OF dir]]) auto
  moreover have "?h \<in> set (segments (crashed d k ts))"
    using calculation h set_segments [of "crashed d k ts"] by (auto simp: dir_holds_def eq)
  moreover have "mapKeys (crashed d k ts) = mapKeys (dFiles d)"
    using ex by (auto simp: eq mapKeys_def fmdom_notI intro!: arg_cong [where f = setElems])
  ultimately show ?thesis
    using h by (simp add: segments_def)
qed

lemma recovered_inv:
  assumes "dir_holds files log noTail"
  shows "disk_inv ((newDisk r files)\<lparr>dMem := foldl Memory_insert (NewMemory r) (map snd (sort_key fst log))\<rparr>) log"
proof -
  have "writable (map snd (sort_key fst log))"
    using assms by (auto simp: dir_holds_def log_ok_def writable_def)
  then have "mem_reachable (foldl Memory_insert (NewMemory r) (map snd (sort_key fst log)))"
    by (rule reachable_inserts [OF _ mem_reachable.new]) (simp add: NewMemory_def)
  then show ?thesis
    using assms by (simp add: disk_inv_def files_inv_clean seg_ok_def newDisk_def NewMemory_def)
qed

subsection \<open>Memory during a session\<close>

lemma Disk_Write_keeps:
  "Disk_Write now io d ss = (err, d') \<Longrightarrow> dRetention d' = dRetention d \<and> dClosed d' = dClosed d"
  by (auto simp: Disk_Write_def Let_def dest!: roll_keeps Disk_append_keeps
      split: option.splits sum.splits prod.splits if_splits)

lemma foldl_remove_retention: "mRetention (foldl Memory_remove m ts) = mRetention m"
  by (induction ts arbitrary: m) (simp_all add: Memory_remove_def split: option.split)

lemma reach_memory:
  "disk_reach d log \<Longrightarrow> mRetention (dMem d) = dRetention d
    \<and> (dRetention d \<le> 0 \<longrightarrow> \<not> dClosed d \<longrightarrow> dMem d = foldl Memory_insert (NewMemory (dRetention d)) (map snd log))"
proof (induction rule: disk_reach.induct)
  case (opened files io r d log)
  show ?case
    by (subst (1 2 3 4 5 6) opened_eq [OF opened]) (simp add: newDisk_def NewMemory_def)
next
  case (wrote d log now ss io d')
  have "dMem d' = foldl Memory_insert (dMem d) ss"
    using Disk_Write_inv [OF reach_disk_inv [OF wrote(1)] hourOf_int64 [OF wrote(2)] wrote(3,4)] by simp
  with wrote Disk_Write_keeps [OF wrote(4)] show ?case by (simp add: comp_def)
next
  case (failed d log now ss io err d')
  have "dMem d' = dMem d"
    using Disk_Write_inv [OF reach_disk_inv [OF failed(1)] hourOf_int64 [OF failed(2)] failed(3,4)] by simp
  with failed Disk_Write_keeps [OF failed(4)] show ?case by simp
next
  case (evicted d log now)
  then show ?case
    by (auto simp: evictMem_def Memory_EvictExpired_def Let_def foldl_remove_retention)
next
  case (deleted d log now listed remove)
  have "kept (segmentGone now listed remove d) log = log" if "dRetention d \<le> 0"
    using that by (simp add: kept_def segmentGone_def)
  moreover have "dRetention (evictSegments now listed remove d) = dRetention d"
    by (simp add: evictSegments_def Let_def)
  ultimately show ?case using deleted by simp
next
  case (closed d log syncOk closeOk)
  then show ?case by (simp add: Disk_Close_def Let_def Memory_Close_def)
qed

lemma Disk_Write_seg:
  assumes "Disk_Write now io d ss = (None, d')"
  shows "dSeg d' \<noteq> None \<and> dSegHour d' = hourOf now"
proof -
  have "dSeg d1 \<noteq> None \<and> dSegHour d1 = hourOf now" if "roll now io d = (None, d1)" for d1
    using that by (auto simp: roll_def openSegment_def repair_def Let_def split: if_splits option.splits prod.splits)
  moreover have "dSeg d2 \<noteq> None \<and> dSegHour d2 = dSegHour d1" if "Disk_append io f b d1 = (None, d2)" for f b d1 d2
    using that by (auto simp: Disk_append_def Let_def dest: rollback_keeps split: if_splits)
  ultimately show ?thesis
    using assms by (auto simp: Disk_Write_def Let_def split: option.splits sum.splits prod.splits if_splits)
qed

definition segOpen :: "Disk \<Rightarrow> bool" where
  "segOpen d \<longleftrightarrow> (case dSeg d of None \<Rightarrow> True | Some f \<Rightarrow> \<not> fClosed f)"

definition writeOk :: "writeIO \<Rightarrow> bool" where
  "writeOk io \<longleftrightarrow> wClose io \<and> wRepair io \<and> wOpen io \<and> wSeekEnd io \<and> wWrite io \<and> wSync io"

lemma roll_ok:
  assumes "writeOk io" "segOpen d"
  shows "\<exists>d1 f. roll now io d = (None, d1) \<and> dSeg d1 = Some f \<and> \<not> fClosed f"
  using assms
  by (auto simp: roll_def openSegment_def repair_def Let_def segOpen_def writeOk_def split: option.splits)

lemma Disk_Write_ok:
  assumes "writeOk io" "segOpen d" "writable ss" "\<not> dClosed d" "\<not> mClosed (dMem d)"
  shows "\<exists>d'. Disk_Write now io d ss = (None, d')"
proof -
  have valid: "firstInvalid 0 ss = None"
    using assms(3) by (simp add: writable_def firstInvalid_None_iff)
  obtain d1 f where r: "roll now io d = (None, d1)" and f: "dSeg d1 = Some f" "\<not> fClosed f"
    using roll_ok [OF assms(1,2)] by blast
  have enc: "encodeRecords 0 [] ss = Inr (recordsOf ss)"
    using assms(3) by (simp add: encodeRecords_ok writable_def recordable_def)
  obtain d2 where a: "Disk_append io f (recordsOf ss) d1 = (None, d2)"
    using assms(1) f(2) by (simp add: Disk_append_def writeOk_def Let_def)
  have "Memory_Write (dMem d2) ss = (None, foldl Memory_insert (dMem d2) ss)"
    using Disk_append_keeps [OF a] roll_keeps [OF r] assms(3,5) by (simp add: writable_Write)
  then show ?thesis
    using valid assms(4) r enc a f(1) by (simp add: Disk_Write_def)
qed

lemma Disk_Write_clean:
  assumes "Disk_Write now io d ss = (None, d')" "dSeg d \<noteq> None \<longrightarrow> \<not> dDirty d"
  shows "\<not> dDirty d'"
proof -
  have "\<not> dDirty d1" if "roll now io d = (None, d1)" for d1
    using that assms(2)
    by (auto simp: roll_def openSegment_def repair_def Let_def split: if_splits option.splits prod.splits)
  moreover have "dDirty d2 = dDirty d1" if "Disk_append io f b d1 = (None, d2)" for f b d1 d2
    using that by (auto simp: Disk_append_def Let_def dest: rollback_keeps split: if_splits)
  ultimately show ?thesis
    using assms(1) by (auto simp: Disk_Write_def Let_def split: option.splits sum.splits prod.splits if_splits)
qed

lemma Disk_Write_segOpen:
  assumes "Disk_Write now io d ss = (None, d')"
  shows "segOpen d'"
proof -
  have "segOpen d2" if "Disk_append io f b d1 = (None, d2)" for f b d1 d2
    using that by (auto simp: Disk_append_def Let_def segOpen_def dest: rollback_keeps split: if_splits)
  then have "segOpen (d2\<lparr>dMem := m\<rparr>)" if "Disk_append io f b d1 = (None, d2)" for f b d1 d2 m
    using that by (simp add: segOpen_def)
  then show ?thesis
    using assms by (auto simp: Disk_Write_def Let_def split: option.splits sum.splits prod.splits if_splits)
qed

lemma Disk_Write_CloseFailed:
  assumes "Disk_Write now io d ss = (Some CloseFailed, d')"
  shows "(\<exists>f. dSeg d' = Some f \<and> fClosed f) \<and> \<not> dClosed d"
proof -
  have "\<exists>f. dSeg d1 = Some f \<and> fClosed f" if "roll now io d = (Some CloseFailed, d1)" for d1
    using that
    by (auto simp: roll_def openSegment_def repair_def Let_def split: if_splits option.splits prod.splits)
  moreover have "Disk_append io f b d1 \<noteq> (Some CloseFailed, d2)" for f b d1 d2
    by (auto simp: Disk_append_def rollback_def Let_def split: if_splits)
  ultimately show ?thesis
    using assms by (auto simp: Disk_Write_def Let_def split: option.splits sum.splits prod.splits if_splits)
qed

subsection \<open>An example session\<close>

definition okWrite :: writeIO where
  "okWrite = \<lparr>wClose = True, wRepair = True, wOpen = True, wSeekEnd = True, wWrite = True, wWrote = 0,
     wSync = True, wTruncate = True, wSeek = True\<rparr>"

definition okOpen :: openIO where
  "okOpen = \<lparr>oMkdir = True, oList = True, oRead = (\<lambda>_. True), oTruncate = (\<lambda>_. True), oEvictList = True,
     oRemove = (\<lambda>_. True)\<rparr>"

abbreviation span1 :: Span where "span1 \<equiv> exampleSpan 1 2 0 5 9"

definition disk1 :: Disk where
  "disk1 = snd (Disk_Write 0 okWrite (newDisk 0 fmempty) [span1])"

lemma length_span1: "length (encodeSpan [] span1) = 47"
  by code_simp

lemma codec_ok_span1: "codec_ok span1"
  by (simp add: codec_ok_def wf_Span_def exampleSpan_def exampleID_def zeroSpan_def attrs_ok_def fits_def in_int64_def)

lemma writable_span1: "writable [span1]"
  using length_span1 codec_ok_span1 by (simp add: writable_def recordable_def payloadOf_def maxRecord_def)

lemma encode_span1: "encodeRecords 0 [] [span1] = Inr (recordsOf [span1])"
  using writable_span1 encodeRecords_ok [of "[span1]" 0 "[]"] by (simp add: writable_def recordable_def)

lemma write_span1: "Disk_Write 0 okWrite (newDisk 0 fmempty) [span1] = (None, disk1)"
proof -
  have "\<exists>d'. Disk_Write 0 okWrite (newDisk 0 fmempty) [span1] = (None, d')"
    by (rule Disk_Write_ok) (simp_all add: writable_span1 writeOk_def okWrite_def segOpen_def newDisk_def NewMemory_def)
  then show ?thesis by (auto simp: disk1_def)
qed

lemma dir_holds_empty: "dir_holds fmempty [] noTail"
  by (simp add: dir_holds_def canonical_def log_ok_def writable_def)

lemma reach_empty: "disk_reach (newDisk r fmempty) []"
  using reach_replayed [OF dir_holds_empty, of okOpen r "newDisk r fmempty"]
  by (simp add: segments_def List.map_filter_def)

lemma reach_disk1: "disk_reach disk1 [(0, span1)]"
  using disk_reach.wrote [OF reach_empty _ _ write_span1] codec_ok_span1
  by (simp add: in_int64_def time_Unix_def hourOf_def go_div_def)

lemma disk1_seg: "\<exists>f. dSeg disk1 = Some f \<and> \<not> fClosed f" "dSegHour disk1 = 0" "\<not> dClosed disk1" "dRetention disk1 = 0"
  "\<not> dDirty disk1"
proof -
  show "dSegHour disk1 = 0" "\<not> dClosed disk1" "dRetention disk1 = 0"
    using Disk_Write_seg [OF write_span1] Disk_Write_keeps [OF write_span1]
    by (simp_all add: newDisk_def hourOf_def time_Unix_def go_div_def)
  show seg: "\<exists>f. dSeg disk1 = Some f \<and> \<not> fClosed f"
    unfolding disk1_def
    using encode_span1 by (simp add: Disk_Write_def roll_def openSegment_def Disk_append_def okWrite_def newDisk_def Let_def split_beta)
  then show "\<not> dDirty disk1"
    using reach_disk_inv [OF reach_disk1] by (auto simp: disk_inv_def files_inv_def seg_ok_def)
qed

lemma segments_disk1: "segments (dFiles disk1) = [0]"
proof -
  have h: "hourOf 0 = 0" by (simp add: hourOf_def time_Unix_def go_div_def)
  have "mapKeys (dFiles disk1) = [pathOf 0]"
    unfolding disk1_def
    using encode_span1 by (simp add: Disk_Write_def roll_def openSegment_def Disk_append_def okWrite_def newDisk_def
        Let_def split_beta h onFile_def mapKeys_def)
  moreover have "segmentHour (pathOf 0) = Some 0"
    by (simp add: in_int64_def)
  ultimately show ?thesis
    by (simp add: segments_def List.map_filter_def)
qed

lemma disk1_file: "fmlookup (dFiles disk1) (pathOf 0) = Some (recordsOf [span1])"
proof -
  have dir: "dir_holds (dFiles disk1) [(0, span1)] noTail"
    using reach_disk_inv [OF reach_disk1] disk1_seg(5) by (simp add: disk_inv_def files_inv_clean)
  have "0 \<in> set (segments (dFiles disk1))" by (simp add: segments_disk1)
  then obtain c where c: "fmlookup (dFiles disk1) (pathOf 0) = Some c"
    using dir set_segments [of "dFiles disk1"] by (auto simp: dir_holds_def)
  then show ?thesis
    using dir_holds_Some [OF dir _ c] by (simp add: in_int64_def ackedIn_def)
qed

lemma hourOf_0: "hourOf 0 = 0" and hourOf_1: "hourOf (3600 * Second) = 1"
  by (simp_all add: hourOf_def time_Unix_def go_div_def)

text \<open>A session in which the clock steps back from hour 1 to hour 0.\<close>

lemma clock_stepped_back:
  "\<exists>d log f. disk_reach d log \<and> dSeg d = Some f \<and> dSegHour d = 0 \<and> ackedIn log 0 = [span1]
    \<and> last (segments (dFiles d)) \<noteq> 0"
proof -
  have ok: "writeOk okWrite" by (simp add: writeOk_def okWrite_def)
  have codec: "\<forall>s \<in> set [span1]. codec_ok s" by (simp add: codec_ok_span1)
  obtain d1 where w1: "Disk_Write (3600 * Second) okWrite (newDisk 0 fmempty) [span1] = (None, d1)"
    using Disk_Write_ok [OF ok, of "newDisk 0 fmempty" "[span1]"] writable_span1
    by (auto simp: segOpen_def newDisk_def NewMemory_def)
  have r1: "disk_reach d1 [(1, span1)]"
    using disk_reach.wrote [OF reach_empty _ codec w1] hourOf_1 by (simp add: in_int64_def time_Unix_def)
  have "segOpen d1" "\<not> dClosed d1" "\<not> mClosed (dMem d1)"
    using Disk_Write_segOpen [OF w1] Disk_Write_keeps [OF w1] reach_disk_inv [OF r1]
    by (simp_all add: segOpen_def newDisk_def disk_inv_def)
  then obtain d2 where w2: "Disk_Write 0 okWrite d1 [span1] = (None, d2)"
    using Disk_Write_ok [OF ok _ writable_span1] by blast
  have r2: "disk_reach d2 ([(1, span1)] @ [(0, span1)])"
    using disk_reach.wrote [OF r1 _ codec w2] hourOf_0 by (simp add: in_int64_def time_Unix_def)
  have seg: "dSeg d2 \<noteq> None" "dSegHour d2 = 0"
    using Disk_Write_seg [OF w2] hourOf_0 by auto
  have "\<exists>tail. dir_holds (dFiles d2) ([(1, span1)] @ [(0, span1)]) tail"
    using reach_disk_inv [OF r2] by (auto simp: disk_inv_def files_inv_def)
  then have "1 \<in> set (segments (dFiles d2))"
    using log_hours by fastforce
  then have "1 \<le> last (segments (dFiles d2))"
    using sorted_segments [of "dFiles d2"] by (cases "segments (dFiles d2)" rule: rev_cases) (auto simp: sorted_append)
  with r2 seg show ?thesis
    by (intro exI [of _ d2] exI [of _ "[(1, span1)] @ [(0, span1)]"]) (auto simp: ackedIn_def)
qed

text \<open>A session in which the first append fails to sync and the rollback fails too: the record is in
  the file, and the segment is dirty.\<close>

lemma dirty_session:
  "\<exists>d. disk_reach d [] \<and> dDirty d \<and> dSeg d = None \<and> \<not> dClosed d
    \<and> fmlookup (dFiles d) (pathOf 0) = Some (recordsOf [span1])"
proof -
  let ?io = "okWrite\<lparr>wSync := False, wTruncate := False\<rparr>"
  obtain d where d: "Disk_Write 0 ?io (newDisk 0 fmempty) [span1] = (Some (RollbackFailed SyncFailed), d)"
    "dDirty d" "dSeg d = None" "\<not> dClosed d" "fmlookup (dFiles d) (pathOf 0) = Some (recordsOf [span1])"
    using encode_span1 by (simp add: Disk_Write_def roll_def openSegment_def Disk_append_def rollback_def okWrite_def
        newDisk_def Let_def hourOf_0 onFile_def writtenAt_def truncated_def)
  moreover have "disk_reach d []"
    using disk_reach.failed [OF reach_empty _ _ d(1)] codec_ok_span1 by (simp add: in_int64_def time_Unix_def)
  ultimately show ?thesis by blast
qed

text \<open>A session with a retention of one hour, writing in hour 0 and in hour 10.\<close>

lemma aged_session:
  "\<exists>d. disk_reach d [(0, span1), (10, span1)] \<and> dRetention d = 3600 * Second \<and> dSegHour d = 10
    \<and> fmlookup (dFiles d) (pathOf 0) = Some (recordsOf [span1])"
proof -
  have ok: "writeOk okWrite" by (simp add: writeOk_def okWrite_def)
  have codec: "\<forall>s \<in> set [span1]. codec_ok s" by (simp add: codec_ok_span1)
  have h: "hourOf (36000 * Second) = 10" by (simp add: hourOf_def time_Unix_def go_div_def)
  obtain d1 where w1: "Disk_Write 0 okWrite (newDisk (3600 * Second) fmempty) [span1] = (None, d1)"
    using Disk_Write_ok [OF ok, of "newDisk (3600 * Second) fmempty" "[span1]"] writable_span1
    by (auto simp: segOpen_def newDisk_def NewMemory_def)
  have r1: "disk_reach d1 [(0, span1)]"
    using disk_reach.wrote [OF reach_empty _ codec w1] hourOf_0 by (simp add: in_int64_def time_Unix_def)
  have "segOpen d1" "\<not> dClosed d1" "\<not> mClosed (dMem d1)" "dRetention d1 = 3600 * Second"
    using Disk_Write_segOpen [OF w1] Disk_Write_keeps [OF w1] reach_disk_inv [OF r1]
    by (simp_all add: segOpen_def newDisk_def disk_inv_def)
  then obtain d2 where w2: "Disk_Write (36000 * Second) okWrite d1 [span1] = (None, d2)"
    and r: "dRetention d2 = 3600 * Second"
    using Disk_Write_ok [OF ok _ writable_span1] Disk_Write_keeps by metis
  have r2: "disk_reach d2 ([(0, span1)] @ [(10, span1)])"
    using disk_reach.wrote [OF r1 _ codec w2] h by (simp add: in_int64_def time_Unix_def)
  have seg: "dSeg d2 \<noteq> None" "dSegHour d2 = 10"
    using Disk_Write_seg [OF w2] h by auto
  then have dir: "dir_holds (dFiles d2) ([(0, span1)] @ [(10, span1)]) noTail"
    using reach_disk_inv [OF r2] by (auto simp: disk_inv_def files_inv_clean seg_ok_def files_inv_def)
  then have "fmlookup (dFiles d2) (pathOf 0) = Some (recordsOf [span1])"
    using dir_holds_Some [OF dir, of 0] dir_holds_None [OF dir, of 0]
    by (cases "fmlookup (dFiles d2) (pathOf 0)") (auto simp: in_int64_def ackedIn_def)
  with r r2 seg show ?thesis by auto
qed

subsection \<open>Properties\<close>



text \<open>C14: a write either appends the whole batch, to the file and then to memory, or changes
  nothing a client can see: memory is untouched, every file still starts with its
  acknowledged records, and it holds nothing else unless it is the segment marked dirty.\<close>

theorem Disk_Write_all_or_nothing:
  assumes "disk_reach d log" "in_int64 (time_Unix now)" "\<forall>s \<in> set ss. codec_ok s"
    and "Disk_Write now io d ss = (err, d')"
  shows "if err = None
    then dMem d' = foldl Memory_insert (dMem d) ss
      \<and> fmlookup (dFiles d') (pathOf (hourOf now)) = Some (recordsOf (ackedIn log (hourOf now) @ ss))
    else dMem d' = dMem d
      \<and> (\<forall>h c. in_int64 h \<longrightarrow> fmlookup (dFiles d') (pathOf h) = Some c \<longrightarrow>
           (\<exists>tail. c = recordsOf (ackedIn log h) @ tail \<and> (tail = [] \<or> dDirty d' \<and> h = dDirtyHour d')))"
proof -
  have h: "in_int64 (hourOf now)" using assms(2) by (rule hourOf_int64)
  note inv = Disk_Write_inv [OF reach_disk_inv [OF assms(1)] h assms(3,4)]
  show ?thesis
  proof (cases "err = None")
    case True
    have "dSeg d' \<noteq> None \<and> dSegHour d' = hourOf now"
      using assms(4) True Disk_Write_seg by blast
    then have "\<not> dDirty d'" "fmlookup (dFiles d') (pathOf (hourOf now)) \<noteq> None"
      using inv True by (auto simp: disk_inv_def files_inv_def seg_ok_def)
    with inv True h show ?thesis
      by (auto simp: disk_inv_def files_inv_clean dest: dir_holds_Some [OF _ h])
  next
    case False
    obtain ts k where "dir_holds (dFiles d') log (tail_of d' (take k (recordsOf ts)))"
      using inv False by (auto simp: disk_inv_def files_inv_def)
    then have "\<exists>tail. c = recordsOf (ackedIn log h) @ tail \<and> (tail = [] \<or> dDirty d' \<and> h = dDirtyHour d')"
      if "in_int64 h" "fmlookup (dFiles d') (pathOf h) = Some c" for h c
      using dir_holds_Some [OF _ that] by (auto simp: tail_of_def split: if_splits)
    with inv False show ?thesis by auto
  qed
qed

theorem Disk_Write_all_or_nothing_witness:
  "dMem disk1 = foldl Memory_insert (NewMemory 0) [span1]
    \<and> fmlookup (dFiles disk1) (pathOf (hourOf 0)) = Some (recordsOf [span1])"
  using Disk_Write_all_or_nothing [OF reach_empty _ _ write_span1] codec_ok_span1
  by (simp add: in_int64_def time_Unix_def newDisk_def)

text \<open>C5: an acknowledged span survives a crash. Cut the process off at any byte of an append to
  the newest segment: the store opens again, holds every acknowledged span and at most a
  prefix of the batch being written, and its files are whole again. It is a store like any other,
  so this holds for any number of crashes. (Opening ends with an eviction, as every pass of the
  retention loop does.)\<close>

theorem OpenDisk_recovers_crash:
  assumes "disk_reach d log" "dSeg d = Some f" "last (segments (dFiles d)) = dSegHour d"
    and "writable ts" "openOk io"
  shows "\<exists>j d1. OpenDisk now now' io r (crashed d k ts)
      = Inr (snd (Disk_EvictExpired now now' (oEvictList io) (oRemove io) d1))
    \<and> disk_reach d1 (sort_key fst (log @ map (Pair (dSegHour d)) (take j ts)))
    \<and> disk_inv d1 (log @ map (Pair (dSegHour d)) (take j ts)) \<and> \<not> dDirty d1
    \<and> dMem d1 = foldl Memory_insert (NewMemory r) (map snd (sort_key fst (log @ map (Pair (dSegHour d)) (take j ts))))"
proof -
  let ?h = "dSegHour d" and ?files = "crashed d k ts"
  have dir: "dir_holds ?files log (noTail(?h := take k (recordsOf ts)))" and h: "in_int64 ?h"
    and mem: "?h \<in> set (segments ?files)" and seg: "segments ?files = segments (dFiles d)"
    using crashed_holds [OF reach_disk_inv [OF assms(1)] assms(2), of k ts] by auto
  have hs: "segments ?files = butlast (segments ?files) @ [?h]"
    using mem seg assms(3) by (metis append_butlast_last_id empty_iff list.set(1))
  obtain j where j: "replayAll io (segments ?files) (newDisk r ?files) = (None, (newDisk r ?files)\<lparr>dFiles :=
        fmupd (pathOf ?h) (recordsOf (ackedIn (log @ map (Pair ?h) (take j ts)) ?h)) ?files,
      dMem := foldl Memory_insert (NewMemory r) (map snd (sort_key fst (log @ map (Pair ?h) (take j ts))))\<rparr>)"
    "dir_holds (fmupd (pathOf ?h) (recordsOf (ackedIn (log @ map (Pair ?h) (take j ts)) ?h)) ?files)
      (log @ map (Pair ?h) (take j ts)) noTail"
    using replayAll_recovers [OF dir assms(4) h hs, of io r] assms(5) by (auto simp: openOk_def Let_def)
  have "canonical ?files" using dir by (simp add: dir_holds_def)
  from disk_reach.opened [OF this j(1)] j(2)
  have "disk_reach ((newDisk r ?files)\<lparr>dFiles :=
        fmupd (pathOf ?h) (recordsOf (ackedIn (log @ map (Pair ?h) (take j ts)) ?h)) ?files,
      dMem := foldl Memory_insert (NewMemory r) (map snd (sort_key fst (log @ map (Pair ?h) (take j ts))))\<rparr>)
    (sort_key fst (log @ map (Pair ?h) (take j ts)))" by simp
  then show ?thesis
    using assms(5) j(1) recovered_inv [OF j(2), of r]
    by (intro exI [of _ j] exI conjI) (auto simp: OpenDisk_def openOk_def newDisk_def)
qed

theorem OpenDisk_recovers_crash_witness:
  "\<exists>j d1. OpenDisk 0 0 okOpen 0 (crashed disk1 10 [span1])
      = Inr (snd (Disk_EvictExpired 0 0 (oEvictList okOpen) (oRemove okOpen) d1))
    \<and> disk_inv d1 ([(0, span1)] @ map (Pair 0) (take j [span1])) \<and> \<not> dDirty d1"
proof -
  obtain f where f: "dSeg disk1 = Some f" using disk1_seg(1) by blast
  have "last (segments (dFiles disk1)) = dSegHour disk1" "openOk okOpen"
    by (simp_all add: segments_disk1 disk1_seg openOk_def okOpen_def)
  from OpenDisk_recovers_crash [OF reach_disk1 f this(1) writable_span1 this(2), of 0 0 0 10] disk1_seg(2)
  show ?thesis by auto
qed

text \<open>C16: without a retention limit and with a clock that does not go back an hour, closing and
  opening a store gives back the same memory store, so every later read answers the same.\<close>

theorem OpenDisk_same_memory:
  assumes "disk_reach d log" "dRetention d \<le> 0" "\<not> dClosed d" "\<not> dDirty d" "sorted (map fst log)" "openOk io"
  shows "\<exists>d'. OpenDisk now now' io (dRetention d) (dFiles d) = Inr d' \<and> dMem d' = dMem d \<and> dFiles d' = dFiles d"
proof -
  let ?r = "dRetention d" and ?files = "dFiles d"
  have dir: "dir_holds ?files log noTail"
    using reach_disk_inv [OF assms(1)] assms(4) by (simp add: disk_inv_def files_inv_clean)
  then have can: "canonical ?files" and ok: "log_ok log" by (auto simp: dir_holds_def)
  obtain d1 where d1: "replayAll io (segments ?files) (newDisk ?r ?files) = (None, d1)"
    using replayAll_clean [OF dir assms(6)] by blast
  have d1_eq: "d1 = (newDisk ?r ?files)\<lparr>dMem := dMem d\<rparr>"
    using replayed_eq [OF dir d1] reach_memory [OF assms(1)] assms(2,3,5) by (simp add: sort_key_id_if_sorted)
  have "Disk_EvictExpired now now' l rm d1 = (0, d1)" for l rm
    using assms(2) reach_memory [OF assms(1)]
    by (simp add: Disk_EvictExpired_def evictMem_def evictSegments_def Memory_EvictExpired_def d1_eq newDisk_def)
  then show ?thesis
    using d1 assms(6) by (simp add: OpenDisk_def openOk_def d1_eq newDisk_def)
qed

theorem OpenDisk_same_memory_witness:
  "\<exists>d'. OpenDisk 0 0 okOpen (dRetention disk1) (dFiles disk1) = Inr d' \<and> dMem d' = dMem disk1 \<and> dFiles d' = dFiles disk1"
  by (rule OpenDisk_same_memory [OF reach_disk1]) (simp_all add: disk1_seg openOk_def okOpen_def)

text \<open>C24: a torn segment that is not the newest is refused. When the clock stepped back, so that
  the open segment is older than another, a crash in the middle of an append leaves a
  directory the store does not open, although no acknowledged record is damaged. The
  documentation of \<open>ErrCorruptSegment\<close> says that such a state cannot be the result of a crash.\<close>

theorem OpenDisk_refuses_torn_sealed:
  assumes "disk_reach d log" "dSeg d = Some f" "last (segments (dFiles d)) \<noteq> dSegHour d"
    and "writable [s]" "0 < k" "k < length (recordOf s)" "openOk io"
  shows "OpenDisk now now' io r (crashed d k [s])
    = Inl (ErrCorruptSegment (pathOf (dSegHour d)) (length (recordsOf (ackedIn log (dSegHour d)))) UnexpectedEOF)"
proof -
  let ?h = "dSegHour d" and ?files = "crashed d k [s]"
  have dir: "dir_holds ?files log (noTail(?h := take k (recordOf s)))" and h: "in_int64 ?h"
    and mem: "?h \<in> set (segments ?files)" and seg: "segments ?files = segments (dFiles d)"
    using crashed_holds [OF reach_disk_inv [OF assms(1)] assms(2), of k "[s]"] by auto
  have can: "canonical ?files" and ok: "log_ok log" using dir by (auto simp: dir_holds_def)
  obtain as bs where split: "segments ?files = as @ ?h # bs"
    using mem by (meson split_list)
  have bs: "bs \<noteq> []" using split seg assms(3) by auto
  have look: "fmlookup ?files (pathOf x) = Some (recordsOf (ackedIn log x) @ (noTail(?h := take k (recordOf s))) x)"
    if x: "x \<in> set (segments ?files)" for x
  proof -
    obtain c where "in_int64 x" "fmlookup ?files (pathOf x) = Some c"
      using x unfolding set_segments [OF can] by auto
    with dir_holds_Some [OF dir this] show ?thesis by simp
  qed
  have torn: "replay io ?h False d1 = (Some (ErrCorruptSegment (pathOf ?h) (length (recordsOf (ackedIn log ?h))) UnexpectedEOF), d1)"
    if "dFiles d1 = ?files" for d1
  proof -
    have "recordable s" using assms(4) by (simp add: writable_def)
    moreover have "take k (recordOf s) \<noteq> []" using assms(5,6) by auto
    ultimately have "intactPrefix (recordsOf (ackedIn log ?h) @ take k (recordOf s))
        = (ackedIn log ?h, length (recordsOf (ackedIn log ?h)), Some UnexpectedEOF)"
      using intactPrefix_tail [of "ackedIn log ?h" "take k (recordOf s)" UnexpectedEOF] readRecord_torn [of s k]
        assms(6) writable_recordable [OF writable_ackedIn [OF ok]] by simp
    then show ?thesis
      using look [OF mem] that assms(7) by (simp add: replay_def Let_def openOk_def)
  qed
  have "fst (replayAll io (as @ ?h # bs) d1)
      = Some (ErrCorruptSegment (pathOf ?h) (length (recordsOf (ackedIn log ?h))) UnexpectedEOF)"
    if "dFiles d1 = ?files" "\<not> mClosed (dMem d1)" "\<forall>x \<in> set as. whole ?files (ackedIn log) x" for d1
    using that assms(7) torn bs by (intro replayAll_stops) (auto simp: openOk_def)
  moreover have "whole ?files (ackedIn log) x" if "x \<in> set as" for x
  proof -
    have "x \<noteq> ?h" using that distinct_segments [OF can] split by auto
    then show ?thesis
      using that look [of x] split writable_ackedIn [OF ok] by (simp add: whole_def)
  qed
  ultimately have "fst (replayAll io (segments ?files) (newDisk r ?files))
      = Some (ErrCorruptSegment (pathOf ?h) (length (recordsOf (ackedIn log ?h))) UnexpectedEOF)"
    unfolding split by (simp add: newDisk_def NewMemory_def)
  then show ?thesis
    using assms(7) by (auto simp: OpenDisk_def openOk_def split: prod.splits)
qed

theorem OpenDisk_refuses_torn_sealed_witness:
  "\<exists>d log. disk_reach d log \<and> ackedIn log 0 = [span1]
    \<and> OpenDisk 0 0 okOpen 0 (crashed d 3 [span1]) = Inl (ErrCorruptSegment (pathOf 0) (length (recordsOf [span1])) UnexpectedEOF)"
proof -
  obtain d log f where d: "disk_reach d log" "dSeg d = Some f" "dSegHour d = 0" "ackedIn log 0 = [span1]"
    "last (segments (dFiles d)) \<noteq> 0"
    using clock_stepped_back by blast
  have "OpenDisk 0 0 okOpen 0 (crashed d 3 [span1])
      = Inl (ErrCorruptSegment (pathOf (dSegHour d)) (length (recordsOf (ackedIn log (dSegHour d)))) UnexpectedEOF)"
    using d by (intro OpenDisk_refuses_torn_sealed [OF d(1,2) _ writable_span1]) (simp_all add: openOk_def okOpen_def)
  with d show ?thesis by auto
qed

text \<open>C21: the store accepts every valid batch when the system calls succeed, as long as the open
  segment has not failed to close, and also after a failed append left a dirty segment behind:
  the dirty segment is cut back first. Afterwards memory has the batch, nothing is dirty, and
  every segment file holds exactly the records acknowledged in its hour, the batch included;
  what the failed append left is gone.\<close>

theorem Disk_Write_succeeds:
  assumes "disk_reach d log" "\<not> dClosed d" "segOpen d" "writable ss" "writeOk io" "in_int64 (time_Unix now)"
  shows "\<exists>d'. Disk_Write now io d ss = (None, d') \<and> \<not> dDirty d' \<and> dMem d' = foldl Memory_insert (dMem d) ss
    \<and> dir_holds (dFiles d') (log @ map (Pair (hourOf now)) ss) noTail"
proof -
  have inv: "disk_inv d log" using assms(1) by (rule reach_disk_inv)
  obtain d' where w: "Disk_Write now io d ss = (None, d')"
    using Disk_Write_ok [OF assms(5,3,4,2)] inv assms(2) by (auto simp: disk_inv_def)
  have "\<not> dDirty d'"
    by (rule Disk_Write_clean [OF w]) (use inv in \<open>auto simp: disk_inv_def files_inv_def seg_ok_def\<close>)
  moreover have "disk_inv d' (log @ map (Pair (hourOf now)) ss) \<and> dMem d' = foldl Memory_insert (dMem d) ss"
    using Disk_Write_inv [OF inv hourOf_int64 [OF assms(6)] _ w] assms(4) by (simp add: writable_def recordable_def)
  ultimately show ?thesis
    using w by (simp add: disk_inv_def files_inv_clean)
qed

theorem Disk_Write_succeeds_witness:
  "\<exists>d d'. dDirty d \<and> fmlookup (dFiles d) (pathOf 0) = Some (recordsOf [span1])
    \<and> Disk_Write 0 okWrite d [span1] = (None, d') \<and> \<not> dDirty d'
    \<and> dir_holds (dFiles d') [(0, span1)] noTail"
proof -
  obtain d where d: "disk_reach d []" "dDirty d" "dSeg d = None" "\<not> dClosed d"
    "fmlookup (dFiles d) (pathOf 0) = Some (recordsOf [span1])"
    using dirty_session by blast
  have "\<exists>d'. Disk_Write 0 okWrite d [span1] = (None, d') \<and> \<not> dDirty d'
      \<and> dMem d' = foldl Memory_insert (dMem d) [span1] \<and> dir_holds (dFiles d') ([] @ map (Pair (hourOf 0)) [span1]) noTail"
    using d by (intro Disk_Write_succeeds [OF d(1,4) _ writable_span1])
      (simp_all add: segOpen_def writeOk_def okWrite_def in_int64_def time_Unix_def)
  with d hourOf_0 show ?thesis by auto
qed

text \<open>C25: a failed close stops the store. When the hour turns and closing the old segment fails,
  the segment stays recorded as open, and every later write in another hour fails with the
  same error and changes nothing, whatever the system calls return.\<close>

theorem Disk_Write_after_failed_close:
  assumes "Disk_Write now io d ss = (Some CloseFailed, d')" "disk_reach d log"
    and "hourOf now' \<noteq> dSegHour d'" "firstInvalid 0 ss' = None"
  shows "Disk_Write now' io' d' ss' = (Some CloseFailed, d')"
proof -
  have "\<exists>f. dSeg d' = Some f \<and> fClosed f" and "\<not> dClosed d'"
    using Disk_Write_CloseFailed [OF assms(1)] Disk_Write_keeps [OF assms(1)] by auto
  then show ?thesis
    using assms(3,4) by (auto simp: Disk_Write_def roll_def Let_def)
qed

theorem Disk_Write_after_failed_close_witness:
  "\<exists>d'. Disk_Write (3600 * Second) (okWrite\<lparr>wClose := False\<rparr>) disk1 [span1] = (Some CloseFailed, d')
    \<and> Disk_Write (7200 * Second) okWrite d' [span1] = (Some CloseFailed, d')"
proof -
  obtain f where f: "dSeg disk1 = Some f" using disk1_seg(1) by blast
  let ?d = "disk1\<lparr>dSeg := Some (f\<lparr>fClosed := True\<rparr>)\<rparr>"
  have w: "Disk_Write (3600 * Second) (okWrite\<lparr>wClose := False\<rparr>) disk1 [span1] = (Some CloseFailed, ?d)"
    using f disk1_seg by (simp add: Disk_Write_def roll_def hourOf_def time_Unix_def go_div_def)
  moreover have "Disk_Write (7200 * Second) okWrite ?d [span1] = (Some CloseFailed, ?d)"
    by (rule Disk_Write_after_failed_close [OF w reach_disk1])
      (simp_all add: disk1_seg hourOf_def time_Unix_def go_div_def)
  ultimately show ?thesis by blast
qed

text \<open>C22: deleting segments is safe. The retention pass deletes the file of an hour only when every
  instant of that hour lies before the retention window and the segment is not the open one;
  every other segment keeps its records.\<close>

theorem evictSegments_only_expired:
  assumes "disk_reach d log" "in_int64 h" "in_int64 (h + 1)" "fmlookup (dFiles d) (pathOf h) = Some c"
  shows "case fmlookup (dFiles (evictSegments now listed remove d)) (pathOf h) of
      Some c' \<Rightarrow> c' = c
    | None \<Rightarrow> 0 < dRetention d \<and> (\<forall>t. hourOf t = h \<longrightarrow> t < now - dRetention d) \<and> \<not> (dSeg d \<noteq> None \<and> h = dSegHour d)"
proof -
  have can: "canonical (dFiles d)"
    using reach_disk_inv [OF assms(1)] by (auto simp: disk_inv_def files_inv_def dir_holds_def)
  have "t < now - dRetention d" if "segmentGone now listed remove d h" "hourOf t = h" for t
  proof (rule ccontr)
    assume "\<not> t < now - dRetention d"
    then have "hourOf (now - dRetention d) \<le> hourOf t"
      unfolding hourOf_def by (intro go_div_mono time_Unix_mono) auto
    with that assms(3) show False by (simp add: segmentGone_def segmentExpired_def)
  qed
  then show ?thesis
    using lookup_evictSegments [OF can assms(2), of now listed remove] assms(4)
    by (auto simp: segmentGone_def segmentExpired_def)
qed

theorem evictSegments_only_expired_witness:
  "\<exists>d log. disk_reach d log \<and> fmlookup (dFiles d) (pathOf 0) = Some (recordsOf [span1])
    \<and> fmlookup (dFiles (evictSegments (36000 * Second) True (\<lambda>_. True) d)) (pathOf 0) = None
    \<and> (\<forall>t. hourOf t = 0 \<longrightarrow> t < 36000 * Second - dRetention d)"
proof -
  obtain d where d: "disk_reach d [(0, span1), (10, span1)]" "dRetention d = 3600 * Second" "dSegHour d = 10"
    "fmlookup (dFiles d) (pathOf 0) = Some (recordsOf [span1])"
    using aged_session by blast
  have "canonical (dFiles d)"
    using reach_disk_inv [OF d(1)] by (auto simp: disk_inv_def files_inv_def dir_holds_def)
  then have "fmlookup (dFiles (evictSegments (36000 * Second) True (\<lambda>_. True) d)) (pathOf 0) = None"
    using d by (subst lookup_evictSegments) (simp_all add: in_int64_def segmentGone_def segmentExpired_def hourOf_def
        time_Unix_def go_div_def wrap64_def)
  with evictSegments_only_expired [OF d(1) _ _ d(4), of "36000 * Second" True "\<lambda>_. True"] d show ?thesis
    by (auto simp: in_int64_def)
qed

text \<open>C26: a write that failed can come back. A sync that fails after the bytes are in the file, and
  a truncate that fails too, make \<open>Write\<close> report an error and mark the segment dirty. When no
  further write follows before the process stops, the next start replays the record and the
  span that was reported as failed is stored.\<close>

theorem Disk_failed_write_returns:
  "let (err, d) = Disk_Write 0 (okWrite\<lparr>wSync := False, wTruncate := False\<rparr>) (newDisk 0 fmempty) [span1];
       files = dFiles (snd (Disk_Close True True d))
   in err = Some (RollbackFailed SyncFailed) \<and> Disk_Len d = 0
      \<and> (\<exists>d'. OpenDisk 0 0 okOpen 0 files = Inr d' \<and> Disk_Trace d' (exampleID 16 1) = Inr [span1])"
proof -
  let ?io = "okWrite\<lparr>wSync := False, wTruncate := False\<rparr>"
  let ?files = "fmupd (pathOf 0) (recordsOf [span1]) fmempty"
  have "\<exists>d. Disk_Write 0 ?io (newDisk 0 fmempty) [span1] = (Some (RollbackFailed SyncFailed), d)
      \<and> dFiles d = ?files \<and> dMem d = NewMemory 0 \<and> dFiles (snd (Disk_Close True True d)) = ?files"
    using encode_span1 by (simp add: Disk_Write_def roll_def openSegment_def Disk_append_def rollback_def okWrite_def newDisk_def
        Let_def hourOf_0 onFile_def writtenAt_def truncated_def Disk_Close_def)
  moreover have "OpenDisk 0 0 okOpen 0 ?files = Inr ((newDisk 0 ?files)\<lparr>dMem := Memory_insert (NewMemory 0) span1\<rparr>)"
  proof -
    have "segments ?files = [0]"
      by (simp add: segments_def List.map_filter_def mapKeys_def in_int64_def)
    moreover have "replay okOpen 0 True (newDisk 0 ?files) = (None, (newDisk 0 ?files)\<lparr>dMem := Memory_insert (NewMemory 0) span1\<rparr>)"
      using replay_whole [of "newDisk 0 ?files" 0 "[span1]" okOpen True] writable_span1
      by (simp add: newDisk_def NewMemory_def okOpen_def)
    ultimately show ?thesis
      by (simp add: OpenDisk_def okOpen_def Disk_EvictExpired_def evictMem_def evictSegments_def Memory_EvictExpired_def
          Memory_insert_eq newDisk_def NewMemory_def)
  qed
  moreover have "Memory_Trace (Memory_insert (NewMemory 0) span1) (exampleID 16 1) = Inr [span1]"
    by (simp add: Memory_Trace_def Memory_insert_eq updatedEntry_def NewMemory_def newEntry_def storeSpan_def widen_def
        Let_def exampleSpan_def)
  ultimately show ?thesis
    by (auto simp: Disk_Len_def Memory_Len_def NewMemory_def Disk_Trace_def)
qed

end
