(* ===== verification/Assembly.thy ===== *)
theory Assembly
  imports Trace_Span Go_Map
begin

section \<open>Assembling a trace: internal/assembly/assembly.go\<close>

text \<open>
  The nodes of a tree live in a heap. A pointer to a node is the span identifier of the node:
  \<open>Build\<close> allocates one node per received span identifier and one placeholder per missing
  parent, and the two sets of identifiers are disjoint. Nothing frees a node, so every pointer
  resolves; the nil pointer is \<open>None\<close> in a \<open>Parent\<close> field, and dereferencing it is the outcome
  \<open>None\<close> of the operation, as is running out of fuel. \<open>tIDs\<close> are the keys of \<open>t.nodes\<close>.

  Go ranges over \<open>t.nodes\<close> in an unspecified order. \<open>buildOver\<close> takes the order as an argument.
\<close>

subsection \<open>State\<close>

datatype AssemblyError = ErrNoSpans | ErrMixedTraces TraceID TraceID

datatype Phase = Open | Sealed

datatype Presence = Received | Awaited | Lost

definition Presence_String :: "Presence \<Rightarrow> string" where
  "Presence_String p = (case p of Awaited \<Rightarrow> ''awaited'' | Lost \<Rightarrow> ''lost'' | Received \<Rightarrow> ''received'')"

record Node =
  nSpan :: Span
  nPresence :: Presence
  nParent :: "SpanID option"
  nChildren :: "SpanID list"
  nCycleBroken :: bool

type_synonym heap = "(SpanID, Node) fmap"

record Tree =
  tTraceID :: TraceID
  tRoots :: "SpanID list"
  tIDs :: "SpanID fset"
  tMissing :: "SpanID list"
  tCycles :: "SpanID list"
  tHeap :: heap

definition newNode :: "Span \<Rightarrow> Node" where
  "newNode s = \<lparr>nSpan = s, nPresence = Received, nParent = None, nChildren = [], nCycleBroken = False\<rparr>"

definition deref :: "heap \<Rightarrow> SpanID \<Rightarrow> Node" where
  "deref h p = (case fmlookup h p of Some n \<Rightarrow> n | None \<Rightarrow> newNode zeroSpan)"

definition updNode :: "SpanID \<Rightarrow> (Node \<Rightarrow> Node) \<Rightarrow> heap \<Rightarrow> heap" where
  "updNode p f h = fmupd p (f (deref h p)) h"

definition Node_Missing :: "Node \<Rightarrow> bool" where
  "Node_Missing n \<longleftrightarrow> nPresence n \<noteq> Received"

definition byStart :: "heap \<Rightarrow> SpanID \<Rightarrow> SpanID \<Rightarrow> int" where
  "byStart h a b =
     (let c = time_Compare (sStart (nSpan (deref h a))) (sStart (nSpan (deref h b)))
      in if c \<noteq> 0 then c else compareBytes (sSpanID (nSpan (deref h a))) (sSpanID (nSpan (deref h b))))"

subsection \<open>Breaking cycles\<close>

text \<open>\<open>mark\<close>: the stack, top first; the fuel bounds the number of pops.\<close>

fun mark :: "nat \<Rightarrow> heap \<Rightarrow> SpanID list \<Rightarrow> SpanID fset \<Rightarrow> SpanID fset option" where
  "mark k h [] reached = Some reached"
| "mark 0 h (n # stack) reached = None"
| "mark (Suc k) h (n # stack) reached =
     mark k h (rev (nChildren (deref h n)) @ stack) (finsert n reached)"

fun markAll :: "nat \<Rightarrow> heap \<Rightarrow> SpanID list \<Rightarrow> SpanID fset \<Rightarrow> SpanID fset option" where
  "markAll k h [] reached = Some reached"
| "markAll k h (r # rs) reached =
     (case mark k h [r] reached of None \<Rightarrow> None | Some reached \<Rightarrow> markAll k h rs reached)"

text \<open>Following the parents until a node repeats.\<close>

fun walkUp :: "nat \<Rightarrow> heap \<Rightarrow> SpanID fset \<Rightarrow> SpanID \<Rightarrow> SpanID option" where
  "walkUp 0 h seen n = None"
| "walkUp (Suc k) h seen n =
     (if n |\<in>| seen then Some n
      else case nParent (deref h n) of
             None \<Rightarrow> None
           | Some p \<Rightarrow> walkUp k h (finsert n seen) p)"

text \<open>The earliest node of the cycle through \<open>n\<close>, from \<open>m\<close> on.\<close>

fun earliestFrom :: "nat \<Rightarrow> heap \<Rightarrow> SpanID \<Rightarrow> SpanID option \<Rightarrow> SpanID \<Rightarrow> SpanID option" where
  "earliestFrom k h n None ct = None"
| "earliestFrom 0 h n (Some m) ct = (if m = n then Some ct else None)"
| "earliestFrom (Suc k) h n (Some m) ct =
     (if m = n then Some ct
      else earliestFrom k h n (nParent (deref h m)) (if byStart h m ct < 0 then m else ct))"

definition cutFrom :: "heap \<Rightarrow> SpanID \<Rightarrow> SpanID \<Rightarrow> heap" where
  "cutFrom h p ct =
     updNode ct (\<lambda>c. c\<lparr>nParent := None, nCycleBroken := True\<rparr>)
       (updNode p (\<lambda>q. q\<lparr>nChildren := filter (\<lambda>c. c \<noteq> ct) (nChildren q)\<rparr>) h)"

definition breakAt :: "nat \<Rightarrow> Tree \<Rightarrow> SpanID fset \<Rightarrow> SpanID \<Rightarrow> (Tree \<times> SpanID fset) option" where
  "breakAt k t reached n =
     (let h = tHeap t
      in case walkUp k h {||} n of
           None \<Rightarrow> None
         | Some n \<Rightarrow>
             (case earliestFrom k h n (nParent (deref h n)) n of
                None \<Rightarrow> None
              | Some ct \<Rightarrow>
                  (case nParent (deref h ct) of
                     None \<Rightarrow> None
                   | Some p \<Rightarrow>
                       let t = t\<lparr>tHeap := cutFrom h p ct, tRoots := tRoots t @ [ct], tCycles := tCycles t @ [ct]\<rparr>
                       in map_option (Pair t) (mark k (tHeap t) [ct] reached))))"

fun breakLoop :: "nat \<Rightarrow> Tree \<Rightarrow> SpanID fset \<Rightarrow> SpanID list \<Rightarrow> Tree option" where
  "breakLoop k t reached [] = Some t"
| "breakLoop k t reached (n # ns) =
     (if n |\<in>| reached then breakLoop k t reached ns
      else case breakAt k t reached n of
             None \<Rightarrow> None
           | Some (t, reached) \<Rightarrow> breakLoop k t reached ns)"

definition breakCycles :: "Tree \<Rightarrow> Tree option" where
  "breakCycles t =
     (let h = tHeap t; k = mapLen h + 1
      in case markAll k h (tRoots t) {||} of
           None \<Rightarrow> None
         | Some reached \<Rightarrow>
             if fcard reached = fcard (tIDs t) + length (tMissing t) then Some t
             else
               let stranded = sortFunc (byStart h) (filter (\<lambda>n. n |\<notin>| reached) (setElems (tIDs t)))
               in case breakLoop k t reached stranded of
                    None \<Rightarrow> None
                  | Some t \<Rightarrow> Some (t\<lparr>tCycles := sortFunc (byStart (tHeap t)) (tCycles t)\<rparr>))"

subsection \<open>Build\<close>

fun collect :: "TraceID \<Rightarrow> Span list \<Rightarrow> heap \<Rightarrow> AssemblyError + heap" where
  "collect tid [] h = Inr h"
| "collect tid (s # ss) h =
     (if sTraceID s \<noteq> tid then Inl (ErrMixedTraces tid (sTraceID s))
      else collect tid ss (fmupd (sSpanID s) (newNode s) h))"

text \<open>One turn of the linking loop.\<close>

definition linkNode :: "Presence \<Rightarrow> Tree \<Rightarrow> SpanID \<Rightarrow> Tree" where
  "linkNode absent t n =
     (let span = nSpan (deref (tHeap t) n)
      in if IsRoot span then t\<lparr>tRoots := tRoots t @ [n]\<rparr>
         else
           let p = sParentSpanID span;
               t = (if fmlookup (tHeap t) p \<noteq> None then t
                    else t\<lparr>tHeap := fmupd p ((newNode (zeroSpan\<lparr>sTraceID := tTraceID t, sSpanID := p\<rparr>))\<lparr>nPresence := absent\<rparr>) (tHeap t),
                           tRoots := tRoots t @ [p], tMissing := tMissing t @ [p]\<rparr>)
           in t\<lparr>tHeap := updNode p (\<lambda>q. q\<lparr>nChildren := nChildren q @ [n]\<rparr>)
                  (updNode n (\<lambda>m. m\<lparr>nParent := Some p\<rparr>) (tHeap t))\<rparr>)"

text \<open>A placeholder borrows the envelope of its children.\<close>

definition widenBy :: "heap \<Rightarrow> Span \<Rightarrow> SpanID \<Rightarrow> Span" where
  "widenBy h s c =
     (let s = (if sStart (nSpan (deref h c)) < sStart s then s\<lparr>sStart := sStart (nSpan (deref h c))\<rparr> else s)
      in if sEnd s < sEnd (nSpan (deref h c)) then s\<lparr>sEnd := sEnd (nSpan (deref h c))\<rparr> else s)"

definition envelope :: "heap \<Rightarrow> SpanID \<Rightarrow> heap option" where
  "envelope h p =
     (case nChildren (deref h p) of
        [] \<Rightarrow> None
      | c # cs \<Rightarrow>
          let s = (nSpan (deref h p))\<lparr>sStart := sStart (nSpan (deref h c)), sEnd := sEnd (nSpan (deref h c))\<rparr>
          in Some (updNode p (\<lambda>q. q\<lparr>nSpan := foldl (widenBy h) s cs\<rparr>) h))"

fun envelopes :: "heap \<Rightarrow> SpanID list \<Rightarrow> heap option" where
  "envelopes h [] = Some h"
| "envelopes h (p # ps) = (case envelope h p of None \<Rightarrow> None | Some h \<Rightarrow> envelopes h ps)"

definition sortChildren :: "heap \<Rightarrow> SpanID \<Rightarrow> heap" where
  "sortChildren h n = updNode n (\<lambda>q. q\<lparr>nChildren := sortFunc (byStart h) (nChildren q)\<rparr>) h"

definition sortTree :: "Tree \<Rightarrow> Tree" where
  "sortTree t =
     (let h = tHeap t
      in t\<lparr>tRoots := sortFunc (byStart h) (tRoots t), tMissing := sortFunc (byStart h) (tMissing t),
           tHeap := foldl sortChildren (foldl sortChildren h (setElems (tIDs t))) (sortFunc (byStart h) (tMissing t))\<rparr>)"

definition buildOver :: "SpanID list \<Rightarrow> heap \<Rightarrow> TraceID \<Rightarrow> Phase \<Rightarrow> Tree option" where
  "buildOver order h tid phase =
     (let absent = (if phase = Sealed then Lost else Awaited);
          t = \<lparr>tTraceID = tid, tRoots = [], tIDs = fmdom h, tMissing = [], tCycles = [], tHeap = h\<rparr>;
          t = foldl (linkNode absent) t order
      in case breakCycles t of
           None \<Rightarrow> None
         | Some t \<Rightarrow>
             (case envelopes (tHeap t) (tMissing t) of
                None \<Rightarrow> None
              | Some h \<Rightarrow> Some (sortTree (t\<lparr>tHeap := h\<rparr>))))"

definition Build :: "Span list \<Rightarrow> Phase \<Rightarrow> (AssemblyError + Tree) option" where
  "Build spans phase =
     (case spans of
        [] \<Rightarrow> Some (Inl ErrNoSpans)
      | s # _ \<Rightarrow>
          (case collect (sTraceID s) spans fmempty of
             Inl err \<Rightarrow> Some (Inl err)
           | Inr h \<Rightarrow> map_option Inr (buildOver (mapKeys h) h (sTraceID s) phase)))"

subsection \<open>Reading a tree\<close>

definition Tree_Len :: "Tree \<Rightarrow> nat" where
  "Tree_Len t = fcard (tIDs t)"

definition Tree_Missing :: "Tree \<Rightarrow> SpanID list" where
  "Tree_Missing t = tMissing t"

definition Tree_Cycles :: "Tree \<Rightarrow> SpanID list" where
  "Tree_Cycles t = tCycles t"

definition Tree_Complete :: "Tree \<Rightarrow> bool" where
  "Tree_Complete t \<longleftrightarrow> length (tMissing t) = 0 \<and> length (tCycles t) = 0 \<and> length (tRoots t) = 1"

definition Tree_Node :: "Tree \<Rightarrow> SpanID \<Rightarrow> Node option" where
  "Tree_Node t n = (if n |\<in>| tIDs t then Some (deref (tHeap t) n) else None)"

text \<open>\<open>Walk\<close> with a visitor that threads a state and says whether to go on. The fuel bounds the
  depth of the recursion.\<close>

type_synonym 's visitor = "'s \<Rightarrow> SpanID \<Rightarrow> nat \<Rightarrow> bool \<times> 's"

fun walk :: "nat \<Rightarrow> heap \<Rightarrow> 's visitor \<Rightarrow> SpanID \<Rightarrow> nat \<Rightarrow> 's \<Rightarrow> (bool \<times> 's) option"
  and walkList :: "nat \<Rightarrow> heap \<Rightarrow> 's visitor \<Rightarrow> SpanID list \<Rightarrow> nat \<Rightarrow> 's \<Rightarrow> (bool \<times> 's) option" where
  "walk 0 h fn n depth s = None"
| "walk (Suc k) h fn n depth s =
     (case fn s n depth of
        (False, s) \<Rightarrow> Some (False, s)
      | (True, s) \<Rightarrow> walkList k h fn (nChildren (deref h n)) (depth + 1) s)"
| "walkList k h fn [] depth s = Some (True, s)"
| "walkList k h fn (c # cs) depth s =
     (case walk k h fn c depth s of
        None \<Rightarrow> None
      | Some (False, s) \<Rightarrow> Some (False, s)
      | Some (True, s) \<Rightarrow> walkList k h fn cs depth s)"

definition Walk :: "'s visitor \<Rightarrow> Tree \<Rightarrow> 's \<Rightarrow> 's option" where
  "Walk fn t s = map_option snd (walkList (mapLen (tHeap t)) (tHeap t) fn (tRoots t) 0 s)"

end
