(* ===== verification/Parent_Graph.thy ===== *)
theory Parent_Graph
  imports Main
begin

section \<open>Graphs given by a parent function\<close>

text \<open>
  The parent links of a trace are a partial function. \<open>below f x r\<close> says that following parents
  from \<open>x\<close> leads to \<open>r\<close>, \<open>rooted f x\<close> that it ends. These are the facts behind breaking cycles:
  what cutting one link does, and how the nodes below a root split over its children.
\<close>

inductive rooted :: "('a \<Rightarrow> 'a option) \<Rightarrow> 'a \<Rightarrow> bool" for f where
  root: "f x = None \<Longrightarrow> rooted f x"
| up: "f x = Some y \<Longrightarrow> rooted f y \<Longrightarrow> rooted f x"

inductive below :: "('a \<Rightarrow> 'a option) \<Rightarrow> 'a \<Rightarrow> 'a \<Rightarrow> bool" for f where
  refl: "below f x x"
| up: "f x = Some y \<Longrightarrow> below f y r \<Longrightarrow> below f x r"

inductive_simps rooted_iff: "rooted f x"
inductive_cases below_cases: "below f x r"

lemma below_trans: "below f x y \<Longrightarrow> below f y z \<Longrightarrow> below f x z"
  by (induction rule: below.induct) (auto intro: below.intros)

lemma below_step: "below f x y \<Longrightarrow> f y = Some z \<Longrightarrow> below f x z"
  by (meson below.intros below_trans)

lemma below_rooted: "below f x r \<Longrightarrow> rooted f x \<longleftrightarrow> rooted f r"
proof (induction rule: below.induct)
  case (up x y r)
  then show ?case using rooted_iff [of f x] by auto
qed simp

lemma rooted_below_root: "rooted f x \<longleftrightarrow> (\<exists>r. f r = None \<and> below f x r)"
proof
  show "rooted f x \<Longrightarrow> \<exists>r. f r = None \<and> below f x r"
    by (induction rule: rooted.induct) (auto intro: below.intros)
  show "\<exists>r. f r = None \<and> below f x r \<Longrightarrow> rooted f x"
    using below_rooted rooted.root by metis
qed

lemma below_linear: "below f x y \<Longrightarrow> below f x z \<Longrightarrow> below f y z \<or> below f z y"
proof (induction rule: below.induct)
  case (up x y r)
  have "x = z \<or> below f y z"
    using \<open>below f x z\<close> up.hyps(1) by (auto elim: below_cases)
  then show ?case
  proof
    assume "x = z"
    with up.hyps below.up [of f x y r] show ?thesis by simp
  qed (use up.IH in simp)
qed simp

lemma rooted_no_cycle: "rooted f x \<Longrightarrow> f x = Some p \<Longrightarrow> \<not> below f p x"
proof (induction arbitrary: p rule: rooted.induct)
  case (up x y)
  show ?case
  proof
    assume b: "below f p x"
    have "p = y" using up by simp
    with b have "below f y x" by simp
    then show False
    proof (cases rule: below.cases)
      case refl
      with up.hyps up.IH [of y] show ?thesis by (auto intro: below.refl)
    next
      case (up z)
      then have "below f z y" using \<open>f x = Some y\<close> below_step by fast
      with up \<open>\<And>p. f y = Some p \<Longrightarrow> \<not> below f p y\<close> show ?thesis by blast
    qed
  qed
qed simp

text \<open>Cutting the link above \<open>c\<close>.\<close>

lemma below_cut: "below f x c \<Longrightarrow> below (f(c := None)) x c"
proof (induction rule: below.induct)
  case (up x y r)
  then show ?case by (cases "x = r") (auto intro: below.intros)
qed (rule below.refl)

lemma rooted_cut: "rooted (f(c := None)) x \<longleftrightarrow> rooted f x \<or> below (f(c := None)) x c"
proof
  let ?g = "f(c := None)"
  show "rooted ?g x \<Longrightarrow> rooted f x \<or> below ?g x c"
  proof (induction rule: rooted.induct)
    case (root x)
    then show ?case by (auto intro: below.refl rooted.root split: if_splits)
  next
    case (up x y)
    then show ?case by (auto intro: below.up rooted.up split: if_splits)
  qed
  have "rooted f x \<Longrightarrow> rooted ?g x"
  proof (induction rule: rooted.induct)
    case (root x)
    then show ?case by (intro rooted.root) simp
  next
    case (up x y)
    then show ?case by (cases "x = c") (auto intro: rooted.intros)
  qed
  moreover have "below ?g x c \<Longrightarrow> rooted ?g x"
    using below_rooted [of ?g x c] rooted.root [of ?g c] by simp
  ultimately show "rooted f x \<or> below ?g x c \<Longrightarrow> rooted ?g x" by blast
qed

subsection \<open>The nodes below a root\<close>

text \<open>Below a rooted node is the node itself and, disjointly, what is below each child.\<close>

lemma below_split: "{y. below f y x} = insert x (\<Union>c \<in> {c. f c = Some x}. {y. below f y c})"
proof -
  have "below f y x \<Longrightarrow> y = x \<or> (\<exists>c. f c = Some x \<and> below f y c)" for y
    by (induction rule: below.induct) (auto intro: below.intros)
  then show ?thesis by (auto intro: below.intros below_step)
qed

lemma child_not_above: "rooted f x \<Longrightarrow> f c = Some x \<Longrightarrow> \<not> below f x c"
  using rooted_no_cycle [of f c x] by (auto intro: rooted.up)

lemma children_disjoint:
  assumes "rooted f x" "f c = Some x" "f d = Some x" "c \<noteq> d"
  shows "{y. below f y c} \<inter> {y. below f y d} = {}"
proof -
  have "False" if "below f y c" "below f y d" for y
  proof -
    from below_linear [OF that] consider "below f c d" | "below f d c" by blast
    then show False
    proof cases
      case 1
      then have "below f x d" using assms by (auto elim: below_cases)
      with child_not_above [OF assms(1,3)] show ?thesis by simp
    next
      case 2
      then have "below f x c" using assms by (auto elim: below_cases)
      with child_not_above [OF assms(1,2)] show ?thesis by simp
    qed
  qed
  then show ?thesis by blast
qed

lemma card_below:
  assumes "rooted f x" "distinct cs" "set cs = {c. f c = Some x}" "finite {y. below f y x}"
  shows "card {y. below f y x} = Suc (\<Sum>c \<leftarrow> cs. card {y. below f y c})"
proof -
  let ?D = "\<lambda>x. {y. below f y x}"
  have fin: "finite (?D c)" if "c \<in> set cs" for c
    by (rule finite_subset [OF _ assms(4)]) (use that assms(3) in \<open>auto intro: below_step\<close>)
  have "x \<notin> (\<Union>c \<in> set cs. ?D c)"
    using child_not_above [OF assms(1)] assms(3) by auto
  moreover have "card (\<Union>c \<in> set cs. ?D c) = (\<Sum>c \<in> set cs. card (?D c))"
    using fin children_disjoint [OF assms(1)] by (intro card_UN_disjoint) (simp_all add: assms(3) [symmetric], auto simp: assms(3))
  moreover have "?D x = insert x (\<Union>c \<in> set cs. ?D c)"
    using below_split [of f x] assms(3) by simp
  moreover have "finite (\<Union>c \<in> set cs. ?D c)"
    using fin by blast
  ultimately show ?thesis
    using assms(2) by (simp add: sum_list_distinct_conv_sum_set)
qed

subsection \<open>Paths\<close>

text \<open>The nodes passed on the way from \<open>m\<close> until \<open>n\<close> is met for the first time.\<close>

fun steps :: "('a \<Rightarrow> 'a option) \<Rightarrow> 'a \<Rightarrow> 'a list \<Rightarrow> 'a \<Rightarrow> bool" where
  "steps f m [] n \<longleftrightarrow> m = n"
| "steps f m (x # xs) n \<longleftrightarrow> m = x \<and> x \<noteq> n \<and> (\<exists>y. f x = Some y \<and> steps f y xs n)"

lemma steps_unique: "steps f m xs n \<Longrightarrow> steps f m ys n \<Longrightarrow> xs = ys"
proof (induction xs arbitrary: m ys)
  case Nil
  then show ?case by (cases ys) auto
next
  case (Cons x xs)
  then show ?case by (cases ys) auto
qed

lemma steps_suffix: "steps f m (xs @ x # ys) n \<Longrightarrow> steps f x (x # ys) n"
  by (induction xs arbitrary: m) auto

lemma steps_distinct:
  assumes "steps f m xs n"
  shows "distinct xs"
proof (rule ccontr)
  assume "\<not> distinct xs"
  then obtain as bs cs x where "xs = as @ [x] @ bs @ [x] @ cs"
    using not_distinct_decomp by blast
  then have "steps f m (as @ x # (bs @ x # cs)) n" "steps f m ((as @ x # bs) @ x # cs) n"
    using assms by simp_all
  from this [THEN steps_suffix] have "x # bs @ x # cs = x # cs"
    by (rule steps_unique)
  from arg_cong [OF this, of length] show False by simp
qed

lemma below_steps: "below f m n \<Longrightarrow> \<exists>xs. steps f m xs n"
proof (induction rule: below.induct)
  case (refl x)
  then show ?case by (intro exI [of _ "[]"]) simp
next
  case (up x y r)
  then obtain xs where "steps f y xs r" by blast
  with up show ?case
    by (cases "x = r") (auto intro: exI [of _ "[]"] exI [of _ "x # xs"])
qed

lemma steps_end: "steps f m xs n \<Longrightarrow> below f m n"
  by (induction xs arbitrary: m) (auto intro: below.intros)

lemma steps_below: "steps f m xs n \<Longrightarrow> x \<in> set xs \<Longrightarrow> below f m x \<and> below f x n"
proof (induction xs arbitrary: m)
  case (Cons a xs)
  then obtain y where y: "m = a" "f a = Some y" "steps f y xs n" by auto
  with Cons steps_end [OF y(3)] show ?case by (auto intro: below.intros)
qed simp

end
