(* ===== verification/Assembly_Tree.thy ===== *)
theory Assembly_Tree
  imports Assembly Parent_Graph
begin

section \<open>Assembling a trace: the tree that Build makes\<close>

text \<open>
  \<open>heap_ok\<close> says that the children lists are the inverse of the parent links and that every node
  holds the span of its identifier. Linking establishes it, breaking cycles keeps it and makes
  every node rooted, and nothing in the code runs out of fuel or dereferences nil.
\<close>

subsection \<open>Heaps\<close>

abbreviation par :: "heap \<Rightarrow> SpanID \<Rightarrow> SpanID option" where
  "par h \<equiv> \<lambda>n. nParent (deref h n)"

abbreviation kids :: "heap \<Rightarrow> SpanID \<Rightarrow> SpanID list" where
  "kids h n \<equiv> nChildren (deref h n)"

abbreviation spanOf :: "heap \<Rightarrow> SpanID \<Rightarrow> Span" where
  "spanOf h n \<equiv> nSpan (deref h n)"

abbreviation allocated :: "heap \<Rightarrow> SpanID set" where
  "allocated h \<equiv> fset (fmdom h)"

definition heap_ok :: "heap \<Rightarrow> bool" where
  "heap_ok h \<longleftrightarrow> (\<forall>n \<in> allocated h. sSpanID (spanOf h n) = n)
     \<and> (\<forall>n p. par h n = Some p \<longrightarrow> p \<in> allocated h)
     \<and> (\<forall>p. distinct (kids h p) \<and> set (kids h p) = {c. par h c = Some p})"

lemma deref_unallocated: "n \<notin> allocated h \<Longrightarrow> deref h n = newNode zeroSpan"
  by (auto simp: deref_def fmdom_notD split: option.split dest: fmdomI)

lemma par_allocated: "par h n = Some p \<Longrightarrow> n \<in> allocated h"
  using deref_unallocated [of n h] by (cases "n \<in> allocated h") (auto simp: newNode_def)

lemma deref_updNode: "deref (updNode p f h) n = (if n = p then f (deref h p) else deref h n)"
  by (simp add: updNode_def deref_def)

lemma allocated_updNode [simp]: "p \<in> allocated h \<Longrightarrow> fmdom (updNode p f h) = fmdom h"
  by (auto simp: updNode_def)

lemma mapLen_allocated: "mapLen h = card (allocated h)"
  by (simp add: mapLen_def fcard.rep_eq)

lemma below_allocated: "below (par h) x r \<Longrightarrow> x \<noteq> r \<Longrightarrow> x \<in> allocated h"
  by (auto elim: below_cases intro: par_allocated)

lemma finite_below: "finite {y. below (par h) y x}"
  by (rule finite_subset [of _ "insert x (allocated h)"]) (auto dest: below_allocated)

lemma card_below_le: "x \<in> allocated h \<Longrightarrow> card {y. below (par h) y x} \<le> mapLen h"
  unfolding mapLen_allocated by (rule card_mono) (auto dest: below_allocated)

lemma below_up_allocated: "below (par h) x r \<Longrightarrow> heap_ok h \<Longrightarrow> x \<in> allocated h \<Longrightarrow> r \<in> allocated h"
proof (induction rule: below.induct)
  case (up x y r)
  then show ?case by (auto simp: heap_ok_def)
qed simp

subsection \<open>Marking\<close>

lemma mark_below:
  assumes "heap_ok h" "\<forall>x \<in> set stack. rooted (par h) x" "(\<Sum>x \<leftarrow> stack. card {y. below (par h) y x}) \<le> k"
  shows "\<exists>R'. mark k h stack R = Some R' \<and> fset R' = fset R \<union> (\<Union>x \<in> set stack. {y. below (par h) y x})"
  using assms(2,3)
proof (induction k arbitrary: stack R)
  case 0
  have "stack = []"
  proof (cases stack)
    case (Cons x xs)
    have "x \<in> {y. below (par h) y x}" by (simp add: below.refl)
    then have "0 < card {y. below (par h) y x}"
      using finite_below card_gt_0_iff by blast
    with 0 Cons show ?thesis by simp
  qed
  then show ?case by simp
next
  case (Suc k)
  show ?case
  proof (cases stack)
    case (Cons x xs)
    let ?D = "\<lambda>x. {y. below (par h) y x}"
    have kids: "distinct (kids h x)" "set (kids h x) = {c. par h c = Some x}"
      using assms(1) by (auto simp: heap_ok_def)
    have card: "card (?D x) = Suc (\<Sum>c \<leftarrow> kids h x. card (?D c))"
      using card_below [OF _ kids finite_below] Suc.prems Cons by simp
    have "\<forall>y \<in> set (rev (kids h x) @ xs). rooted (par h) y"
      using Suc.prems Cons kids by (auto intro: rooted.up)
    moreover have "(\<Sum>y \<leftarrow> rev (kids h x) @ xs. card (?D y)) \<le> k"
      using Suc.prems Cons card by (simp add: rev_map [symmetric] sum_list_rev)
    ultimately obtain R' where "mark k h (rev (kids h x) @ xs) (finsert x R) = Some R'"
      "fset R' = fset (finsert x R) \<union> (\<Union>y \<in> set (rev (kids h x) @ xs). ?D y)"
      using Suc.IH by blast
    moreover have "?D x = insert x (\<Union>c \<in> set (kids h x). ?D c)"
      using below_split [of "par h" x] kids(2) by simp
    ultimately show ?thesis using Cons by auto
  qed simp
qed

lemma mark_one:
  assumes "heap_ok h" "rooted (par h) r" "r \<in> allocated h"
  shows "\<exists>R'. mark (mapLen h + 1) h [r] R = Some R' \<and> fset R' = fset R \<union> {y. below (par h) y r}"
  using mark_below [OF assms(1), of "[r]" "mapLen h + 1" R] assms(2) card_below_le [OF assms(3)] by simp

lemma markAll_below:
  assumes "heap_ok h" "\<forall>r \<in> set rs. rooted (par h) r \<and> r \<in> allocated h"
  shows "\<exists>R'. markAll (mapLen h + 1) h rs R = Some R' \<and> fset R' = fset R \<union> (\<Union>r \<in> set rs. {y. below (par h) y r})"
  using assms(2)
proof (induction rs arbitrary: R)
  case (Cons r rs)
  obtain R1 where "mark (mapLen h + 1) h [r] R = Some R1" "fset R1 = fset R \<union> {y. below (par h) y r}"
    using mark_one [OF assms(1), of r R] Cons.prems by auto
  moreover obtain R2 where "markAll (mapLen h + 1) h rs R1 = Some R2"
    "fset R2 = fset R1 \<union> (\<Union>r \<in> set rs. {y. below (par h) y r})"
    using Cons.IH [of R1] Cons.prems by auto
  ultimately show ?case by auto
qed simp

subsection \<open>Finding the cut\<close>

lemma walkUp_cycle:
  assumes "heap_ok h" "\<not> rooted (par h) n" "n \<in> allocated h" "card (allocated h - fset seen) < k"
    and "\<forall>x \<in> fset seen. \<exists>p. par h x = Some p \<and> below (par h) p n"
  shows "\<exists>m p. walkUp k h seen n = Some m \<and> below (par h) n m \<and> m \<in> allocated h
    \<and> par h m = Some p \<and> below (par h) p m"
  using assms(2-)
proof (induction k arbitrary: seen n)
  case (Suc k)
  obtain p where p: "par h n = Some p"
    using Suc.prems(1) rooted.root [of "par h" n] by (cases "par h n") auto
  show ?case
  proof (cases "n |\<in>| seen")
    case True
    then obtain q where "par h n = Some q" "below (par h) q n"
      using Suc.prems(4) by blast
    with True Suc.prems(2) show ?thesis by (auto intro: below.refl)
  next
    case False
    have "allocated h - fset (finsert n seen) \<subset> allocated h - fset seen"
      using False Suc.prems(2) by auto
    then have "card (allocated h - fset (finsert n seen)) < card (allocated h - fset seen)"
      by (intro psubset_card_mono) auto
    moreover have "\<not> rooted (par h) p"
      using Suc.prems(1) p rooted.up by metis
    moreover have "p \<in> allocated h"
      using assms(1) p by (auto simp: heap_ok_def)
    moreover have "\<forall>x \<in> fset (finsert n seen). \<exists>q. par h x = Some q \<and> below (par h) q p"
      using Suc.prems(4) p below_step [of "par h" _ n p] by (auto intro: below.refl)
    ultimately obtain m q where "walkUp k h (finsert n seen) p = Some m" "below (par h) p m"
      "m \<in> allocated h" "par h m = Some q" "below (par h) q m"
      using Suc.IH [of p "finsert n seen"] Suc.prems(3) by auto
    with False p show ?thesis by (auto intro: below.up [of "par h" n])
  qed
qed simp

text \<open>The loop round the cycle keeps the earliest node.\<close>

definition earlier_of :: "heap \<Rightarrow> SpanID \<Rightarrow> SpanID \<Rightarrow> SpanID" where
  "earlier_of h a m = (if byStart h m a < 0 then m else a)"

lemma earliestFrom_steps:
  "steps (par h) m xs n \<Longrightarrow> length xs \<le> k \<Longrightarrow> earliestFrom k h n (Some m) a = Some (foldl (earlier_of h) a xs)"
proof (induction xs arbitrary: m a k)
  case Nil
  then show ?case by (cases k) auto
next
  case (Cons x xs)
  then obtain y k' where "par h x = Some y" "steps (par h) y xs n" "m = x" "x \<noteq> n" "k = Suc k'" "length xs \<le> k'"
    by (cases k) auto
  with Cons.IH [of y k'] show ?case by (simp add: earlier_of_def)
qed

lemma foldl_earlier_mem: "foldl (earlier_of h) a xs \<in> insert a (set xs)"
proof (induction xs arbitrary: a)
  case (Cons x xs)
  then show ?case using Cons [of "earlier_of h a x"] by (auto simp: earlier_of_def split: if_splits)
qed simp

lemma steps_length:
  assumes "steps (par h) m xs n"
  shows "length xs \<le> mapLen h"
proof -
  have "set xs \<subseteq> allocated h"
    using assms par_allocated by (induction xs arbitrary: m) auto
  then show ?thesis
    using steps_distinct [OF assms] unfolding mapLen_allocated
    by (metis card_mono distinct_card finite_fset)
qed

text \<open>The cut of a stranded node: on the cycle its parents lead to.\<close>

lemma find_cut:
  assumes ok: "heap_ok h" and n: "\<not> rooted (par h) n" "n \<in> allocated h"
  shows "\<exists>m xs p. walkUp (mapLen h + 1) h {||} n = Some m
    \<and> earliestFrom (mapLen h + 1) h m (par h m) m = Some (foldl (earlier_of h) m xs)
    \<and> below (par h) n (foldl (earlier_of h) m xs) \<and> foldl (earlier_of h) m xs \<in> allocated h
    \<and> par h (foldl (earlier_of h) m xs) = Some p"
proof -
  have "card (allocated h - fset {||}) < mapLen h + 1"
    by (simp add: mapLen_allocated)
  from walkUp_cycle [OF ok n this]
  obtain m q where m: "walkUp (mapLen h + 1) h {||} n = Some m" "below (par h) n m" "m \<in> allocated h"
    and q: "par h m = Some q" "below (par h) q m"
    by (metis empty_iff bot_fset.rep_eq)
  obtain xs where xs: "steps (par h) q xs m" using below_steps [OF q(2)] by blast
  let ?c = "foldl (earlier_of h) m xs"
  have "below (par h) m ?c"
    using foldl_earlier_mem [of h m xs] steps_below [OF xs, of ?c] q(1) by (auto intro: below.intros)
  then have c: "below (par h) n ?c" using m(2) below_trans by metis
  then have "\<not> rooted (par h) ?c" using n(1) below_rooted by metis
  then obtain p where "par h ?c = Some p"
    using rooted.root [of "par h" ?c] by (cases "par h ?c") auto
  moreover have "?c \<in> allocated h"
    using below_up_allocated [OF c ok n(2)] .
  ultimately show ?thesis
    using m(1) q(1) c earliestFrom_steps [OF xs, of "mapLen h + 1" m] steps_length [OF xs] by auto
qed

subsection \<open>Cutting\<close>

lemma deref_cutFrom:
  "deref (cutFrom h p c) n =
     (if n = c then (if c = p then (deref h c)\<lparr>nChildren := filter (\<lambda>x. x \<noteq> c) (kids h c)\<rparr> else deref h c)\<lparr>nParent := None, nCycleBroken := True\<rparr>
      else if n = p then (deref h p)\<lparr>nChildren := filter (\<lambda>x. x \<noteq> c) (kids h p)\<rparr> else deref h n)"
  by (auto simp: cutFrom_def deref_updNode)

lemma par_cutFrom: "par (cutFrom h p c) = (par h)(c := None)"
  by (auto simp: deref_cutFrom fun_eq_iff)

lemma par_cutFrom_app: "nParent (deref (cutFrom h p c) n) = (if n = c then None else par h n)"
  by (auto simp: deref_cutFrom)

lemma cutFrom_fields [simp]:
  "spanOf (cutFrom h p c) n = spanOf h n" "nPresence (deref (cutFrom h p c) n) = nPresence (deref h n)"
  "nCycleBroken (deref (cutFrom h p c) n) = (n = c \<or> nCycleBroken (deref h n))"
  "kids (cutFrom h p c) n = (if n = p then filter (\<lambda>x. x \<noteq> c) (kids h p) else kids h n)"
  by (auto simp: deref_cutFrom fun_eq_iff)

lemma fmdom_cutFrom: "p \<in> allocated h \<Longrightarrow> c \<in> allocated h \<Longrightarrow> fmdom (cutFrom h p c) = fmdom h"
  by (simp add: cutFrom_def)

lemma heap_ok_cutFrom:
  assumes "heap_ok h" "par h c = Some p"
  shows "heap_ok (cutFrom h p c)" "fmdom (cutFrom h p c) = fmdom h"
proof -
  have "p \<in> allocated h" "c \<in> allocated h"
    using assms par_allocated [OF assms(2)] by (auto simp: heap_ok_def)
  then show dom: "fmdom (cutFrom h p c) = fmdom h" by (rule fmdom_cutFrom)
  show "heap_ok (cutFrom h p c)"
    using assms dom unfolding heap_ok_def by (auto simp: par_cutFrom_app split: if_splits)
qed

lemma byStart_cong: "(\<And>n. spanOf h n = spanOf h' n) \<Longrightarrow> byStart h = byStart h'"
  by (simp add: byStart_def Let_def fun_eq_iff)

lemma byStart_cutFrom [simp]: "byStart (cutFrom h p c) = byStart h"
  by (intro byStart_cong) simp

definition rootedIn :: "heap \<Rightarrow> SpanID set" where
  "rootedIn h = {x \<in> allocated h. rooted (par h) x}"

text \<open>One turn of the loop: a link on the cycle is cut, and what hangs off it becomes rooted.\<close>

lemma breakAt_cuts:
  assumes ok: "heap_ok (tHeap t)" and n: "n \<in> allocated (tHeap t)" "n |\<notin>| R" and R: "fset R = rootedIn (tHeap t)"
    and k: "k = mapLen (tHeap t) + 1"
  shows "\<exists>c p R'. breakAt k t R n = Some (t\<lparr>tHeap := cutFrom (tHeap t) p c, tRoots := tRoots t @ [c], tCycles := tCycles t @ [c]\<rparr>, R')
    \<and> par (tHeap t) c = Some p \<and> \<not> rooted (par (tHeap t)) c
    \<and> fset R' = rootedIn (cutFrom (tHeap t) p c) \<and> n |\<in>| R'"
proof -
  let ?h = "tHeap t"
  have nr: "\<not> rooted (par ?h) n" using n R by (auto simp: rootedIn_def)
  obtain m xs p where m: "walkUp k ?h {||} n = Some m"
    and e: "earliestFrom k ?h m (par ?h m) m = Some (foldl (earlier_of ?h) m xs)"
    and b: "below (par ?h) n (foldl (earlier_of ?h) m xs)" and ca: "foldl (earlier_of ?h) m xs \<in> allocated ?h"
    and p: "par ?h (foldl (earlier_of ?h) m xs) = Some p"
    using find_cut [OF ok nr n(1)] k by auto
  define c where "c = foldl (earlier_of ?h) m xs"
  let ?g = "cutFrom ?h p c"
  have g: "heap_ok ?g" "fmdom ?g = fmdom ?h"
    using heap_ok_cutFrom [OF ok p] by (simp_all add: c_def)
  have "rooted (par ?g) c" by (rule rooted.root) (simp add: par_cutFrom_app)
  then obtain R' where R': "mark k ?g [c] R = Some R'" "fset R' = fset R \<union> {y. below (par ?g) y c}"
    using mark_one [OF g(1), of c R] ca g(2) k by (auto simp: c_def mapLen_def)
  have "rootedIn ?g = fset R \<union> {y. below (par ?g) y c}"
    using rooted_cut [of "par ?h" c] R g(2) ca below_allocated [of ?g _ c]
    unfolding rootedIn_def par_cutFrom c_def [symmetric] by auto
  moreover have "n \<in> fset R'"
    using R'(2) below_cut [OF b] unfolding par_cutFrom c_def by simp
  moreover have "\<not> rooted (par ?h) c"
    using nr below_rooted [OF b] by (simp add: c_def)
  ultimately show ?thesis
    using m e p R' unfolding c_def [symmetric] by (intro exI [of _ c] exI [of _ p] exI [of _ R']) (simp add: breakAt_def Let_def)
qed

subsection \<open>The loop over the stranded nodes\<close>

text \<open>What breaking cycles keeps of a tree and what it establishes.\<close>

definition roots_ok :: "Tree \<Rightarrow> bool" where
  "roots_ok t \<longleftrightarrow> distinct (tRoots t) \<and> set (tRoots t) = {n \<in> allocated (tHeap t). par (tHeap t) n = None}"

definition broken_from :: "Tree \<Rightarrow> Tree \<Rightarrow> bool" where
  "broken_from t t' \<longleftrightarrow> tTraceID t' = tTraceID t \<and> tIDs t' = tIDs t \<and> tMissing t' = tMissing t
     \<and> fmdom (tHeap t') = fmdom (tHeap t)
     \<and> (\<forall>n. spanOf (tHeap t') n = spanOf (tHeap t) n \<and> nPresence (deref (tHeap t') n) = nPresence (deref (tHeap t) n))
     \<and> (\<forall>n. par (tHeap t') n = (if n \<in> set (tCycles t') then None else par (tHeap t) n))
     \<and> (\<forall>n. nCycleBroken (deref (tHeap t') n) = (n \<in> set (tCycles t') \<or> nCycleBroken (deref (tHeap t) n)))
     \<and> (\<forall>n. rooted (par (tHeap t)) n \<longrightarrow> kids (tHeap t') n = kids (tHeap t) n)
     \<and> (\<forall>n \<in> set (tCycles t'). \<not> rooted (par (tHeap t)) n) \<and> distinct (tCycles t')"

lemma broken_from_refl: "tCycles t = [] \<Longrightarrow> broken_from t t"
  by (simp add: broken_from_def)

lemma broken_from_rooted:
  assumes "broken_from t t'" "rooted (par (tHeap t)) n"
  shows "rooted (par (tHeap t')) n"
proof -
  have par: "par (tHeap t') n = (if n \<in> set (tCycles t') then None else par (tHeap t) n)" for n
    using assms(1) by (simp add: broken_from_def)
  show ?thesis
    using assms(2)
  proof (induction rule: rooted.induct)
    case (root x)
    then show ?case by (intro rooted.root) (simp add: par)
  next
    case (up x y)
    then show ?case using par [of x] by (cases "x \<in> set (tCycles t')") (auto intro: rooted.intros)
  qed
qed

lemma roots_ok_cut:
  assumes "heap_ok (tHeap t)" "roots_ok t" "par (tHeap t) c = Some p"
  shows "roots_ok (t\<lparr>tHeap := cutFrom (tHeap t) p c, tRoots := tRoots t @ [c], tCycles := tCycles t @ [c]\<rparr>)"
  using assms par_allocated [OF assms(3)] heap_ok_cutFrom [OF assms(1,3)]
  by (auto simp: roots_ok_def par_cutFrom_app)

lemma broken_from_cut:
  assumes bf: "broken_from t0 t" and ok: "heap_ok (tHeap t)" "roots_ok t"
    and p: "par (tHeap t) c = Some p" and nr: "\<not> rooted (par (tHeap t)) c"
  defines "t' \<equiv> t\<lparr>tHeap := cutFrom (tHeap t) p c, tRoots := tRoots t @ [c], tCycles := tCycles t @ [c]\<rparr>"
  shows "broken_from t0 t'" "roots_ok t'" "heap_ok (tHeap t')"
proof -
  have new: "c \<notin> set (tCycles t)"
    using bf p by (auto simp: broken_from_def)
  have "\<not> rooted (par (tHeap t)) p"
    using nr p rooted.up by metis
  then have "\<not> rooted (par (tHeap t0)) c" "\<not> rooted (par (tHeap t0)) p"
    using broken_from_rooted [OF bf] nr by auto
  then show "broken_from t0 t'"
    using bf new heap_ok_cutFrom [OF ok(1) p] by (auto simp: t'_def broken_from_def par_cutFrom_app)
  show "heap_ok (tHeap t')"
    using heap_ok_cutFrom [OF ok(1) p] by (simp add: t'_def)
  show "roots_ok t'"
    unfolding t'_def by (rule roots_ok_cut [OF ok p])
qed

lemma breakLoop_rooted:
  assumes "broken_from t0 t" "heap_ok (tHeap t)" "roots_ok t" "fset R = rootedIn (tHeap t)"
    and "set ns \<subseteq> allocated (tHeap t)" "k = mapLen (tHeap t) + 1"
  shows "\<exists>t'. breakLoop k t R ns = Some t' \<and> broken_from t0 t' \<and> heap_ok (tHeap t') \<and> roots_ok t'
    \<and> fset R \<union> set ns \<subseteq> rootedIn (tHeap t')"
  using assms
proof (induction ns arbitrary: t R)
  case (Cons n ns)
  show ?case
  proof (cases "n |\<in>| R")
    case True
    with Cons.IH [of t R] Cons.prems show ?thesis by auto
  next
    case False
    have "n \<in> allocated (tHeap t)" using Cons.prems(5) by simp
    from breakAt_cuts [OF Cons.prems(2) this False Cons.prems(4,6)]
    obtain c p R' where at: "breakAt k t R n = Some (t\<lparr>tHeap := cutFrom (tHeap t) p c, tRoots := tRoots t @ [c], tCycles := tCycles t @ [c]\<rparr>, R')"
      and c: "par (tHeap t) c = Some p" "\<not> rooted (par (tHeap t)) c"
      and R': "fset R' = rootedIn (cutFrom (tHeap t) p c)" "n |\<in>| R'" by blast
    let ?t = "t\<lparr>tHeap := cutFrom (tHeap t) p c, tRoots := tRoots t @ [c], tCycles := tCycles t @ [c]\<rparr>"
    note cut = broken_from_cut [OF Cons.prems(1-3) c]
    have dom: "fmdom (tHeap ?t) = fmdom (tHeap t)"
      using heap_ok_cutFrom [OF Cons.prems(2) c(1)] by simp
    have "fset R \<subseteq> fset R'"
      using Cons.prems(4) R'(1) dom rooted_cut [of "par (tHeap t)" c]
      by (auto simp: rootedIn_def par_cutFrom simp del: fun_upd_apply)
    moreover have "\<exists>t'. breakLoop k ?t R' ns = Some t' \<and> broken_from t0 t' \<and> heap_ok (tHeap t') \<and> roots_ok t'
        \<and> fset R' \<union> set ns \<subseteq> rootedIn (tHeap t')"
      using Cons.prems(5,6) R'(1) dom by (intro Cons.IH [OF cut(1,3,2)]) (auto simp: mapLen_def)
    ultimately show ?thesis
      using False at R'(2) by auto
  qed
qed simp

text \<open>Breaking cycles ends, and roots every node.\<close>

definition linked :: "Tree \<Rightarrow> bool" where
  "linked t \<longleftrightarrow> heap_ok (tHeap t) \<and> roots_ok t \<and> tCycles t = [] \<and> tIDs t |\<subseteq>| fmdom (tHeap t)
     \<and> distinct (tMissing t) \<and> set (tMissing t) = allocated (tHeap t) - fset (tIDs t)
     \<and> (\<forall>p \<in> set (tMissing t). par (tHeap t) p = None \<and> kids (tHeap t) p \<noteq> [])"

lemma rootedIn_roots:
  assumes "heap_ok (tHeap t)" "roots_ok t"
  shows "rootedIn (tHeap t) = (\<Union>r \<in> set (tRoots t). {y. below (par (tHeap t)) y r})"
proof (intro set_eqI iffI)
  fix x assume "x \<in> rootedIn (tHeap t)"
  then obtain r where "x \<in> allocated (tHeap t)" "par (tHeap t) r = None" "below (par (tHeap t)) x r"
    unfolding rootedIn_def rooted_below_root [of "par (tHeap t)"] by blast
  then show "x \<in> (\<Union>r \<in> set (tRoots t). {y. below (par (tHeap t)) y r})"
    using below_up_allocated [OF _ assms(1)] assms(2) by (auto simp: roots_ok_def)
next
  fix x assume "x \<in> (\<Union>r \<in> set (tRoots t). {y. below (par (tHeap t)) y r})"
  then obtain r where r: "r \<in> allocated (tHeap t)" "par (tHeap t) r = None" "below (par (tHeap t)) x r"
    using assms(2) by (auto simp: roots_ok_def)
  then have "rooted (par (tHeap t)) x"
    unfolding rooted_below_root [of "par (tHeap t)"] by blast
  moreover have "x \<in> allocated (tHeap t)"
    using below_allocated [OF r(3)] r(1) by (cases "x = r") auto
  ultimately show "x \<in> rootedIn (tHeap t)" by (simp add: rootedIn_def)
qed

lemma linked_card:
  assumes "linked t"
  shows "card (allocated (tHeap t)) = fcard (tIDs t) + length (tMissing t)"
proof -
  have "allocated (tHeap t) = fset (tIDs t) \<union> set (tMissing t)" "fset (tIDs t) \<inter> set (tMissing t) = {}"
    using assms by (auto simp: linked_def)
  then have "card (allocated (tHeap t)) = card (fset (tIDs t)) + card (set (tMissing t))"
    by (simp only: card_Un_disjoint finite_fset finite_set)
  then show ?thesis
    using assms distinct_card [of "tMissing t"] by (simp only: linked_def fcard.rep_eq)
qed

text \<open>What is not allocated has no parent, so it is enough to look at the nodes.\<close>

lemma rooted_everywhere:
  assumes "allocated h \<subseteq> rootedIn h"
  shows "rooted (par h) n"
proof (cases "n \<in> allocated h")
  case True
  with assms show ?thesis unfolding rootedIn_def by blast
next
  case False
  then show ?thesis by (intro rooted.root) (simp add: deref_unallocated newNode_def)
qed

lemma breakCycles_rooted:
  assumes "linked t"
  shows "\<exists>t'. breakCycles t = Some t' \<and> broken_from t t' \<and> heap_ok (tHeap t') \<and> roots_ok t'
    \<and> (\<forall>n. rooted (par (tHeap t')) n)"
proof -
  let ?h = "tHeap t" and ?k = "mapLen (tHeap t) + 1"
  have ok: "heap_ok ?h" "roots_ok t" "broken_from t t"
    using assms broken_from_refl by (auto simp: linked_def)
  have "\<forall>r \<in> set (tRoots t). rooted (par ?h) r \<and> r \<in> allocated ?h"
    using ok(2) by (auto simp: roots_ok_def intro: rooted.root)
  from markAll_below [OF ok(1) this, of "{||}"]
  obtain R where R: "markAll ?k ?h (tRoots t) {||} = Some R"
    "fset R = (\<Union>r \<in> set (tRoots t). {y. below (par ?h) y r})" by auto
  have Rr: "fset R = rootedIn ?h"
    using R(2) rootedIn_roots [OF ok(1,2)] by simp
  show ?thesis
  proof (cases "fcard R = fcard (tIDs t) + length (tMissing t)")
    case True
    then have "card (fset R) = card (allocated ?h)"
      using linked_card [OF assms] by (simp add: fcard.rep_eq)
    moreover have "fset R \<subseteq> allocated ?h"
      unfolding Rr rootedIn_def by blast
    ultimately have "rootedIn ?h = allocated ?h"
      unfolding Rr [symmetric] by (intro card_subset_eq) simp_all
    then have "rooted (par ?h) n" for n by (intro rooted_everywhere) simp
    moreover have "breakCycles t = Some t"
      using True R(1) by (simp add: breakCycles_def Let_def)
    ultimately show ?thesis using ok by blast
  next
    case False
    let ?ns = "sortFunc (byStart ?h) (filter (\<lambda>n. n |\<notin>| R) (setElems (tIDs t)))"
    have dom: "allocated ?h = fset (tIDs t) \<union> set (tMissing t)" using assms by (auto simp: linked_def)
    have "set ?ns \<subseteq> allocated ?h" unfolding dom by auto
    from breakLoop_rooted [OF ok(3,1,2) Rr this HOL.refl]
    obtain t' where t': "breakLoop ?k t R ?ns = Some t'" "broken_from t t'" "heap_ok (tHeap t')" "roots_ok t'"
      "fset R \<union> set ?ns \<subseteq> rootedIn (tHeap t')" by auto
    have "n \<in> fset R" if n: "n \<in> set (tMissing t)" for n
    proof -
      have "n \<in> allocated ?h" unfolding dom using n by simp
      with n assms rooted.root [of "par ?h" n] show ?thesis unfolding Rr rootedIn_def linked_def by simp
    qed
    then have "allocated ?h \<subseteq> fset R \<union> set ?ns" unfolding dom by auto
    moreover have "allocated (tHeap t') = allocated ?h" using t'(2) by (simp add: broken_from_def)
    ultimately have "rooted (par (tHeap t')) n" for n using t'(5) by (intro rooted_everywhere) auto
    moreover have "breakCycles t = Some (t'\<lparr>tCycles := sortFunc (byStart (tHeap t')) (tCycles t')\<rparr>)"
      using False R(1) t'(1) by (simp add: breakCycles_def Let_def)
    moreover have "broken_from t (t'\<lparr>tCycles := sortFunc (byStart (tHeap t')) (tCycles t')\<rparr>)"
      using t'(2) by (simp add: broken_from_def)
    ultimately show ?thesis
      using t'(3,4) by (intro exI [of _ "t'\<lparr>tCycles := sortFunc (byStart (tHeap t')) (tCycles t')\<rparr>"] conjI allI)
        (simp_all add: roots_ok_def)
  qed
qed

end
