(* ===== verification/Assembly_Build.thy ===== *)
theory Assembly_Build
  imports Assembly_Tree
begin

section \<open>Assembling a trace: linking, sorting, and the properties of Build\<close>

text \<open>
  The linking loop is followed node by node, then breaking cycles, the envelopes of the
  placeholders and the sorting are put together.
\<close>

subsection \<open>Linking\<close>

text \<open>The link a span asks for.\<close>

definition target :: "heap \<Rightarrow> SpanID \<Rightarrow> SpanID option" where
  "target h n = (if IsRoot (spanOf h n) then None else Some (sParentSpanID (spanOf h n)))"

definition fresh :: "heap \<Rightarrow> bool" where
  "fresh h \<longleftrightarrow> (\<forall>n \<in> allocated h. \<exists>s. deref h n = newNode s \<and> sSpanID s = n)"

definition placeholder :: "Presence \<Rightarrow> TraceID \<Rightarrow> SpanID \<Rightarrow> Node" where
  "placeholder absent tid p = (newNode (zeroSpan\<lparr>sTraceID := tid, sSpanID := p\<rparr>))\<lparr>nPresence := absent\<rparr>"

definition wanted :: "heap \<Rightarrow> SpanID list \<Rightarrow> SpanID set" where
  "wanted h ds = {p. p \<notin> allocated h \<and> (\<exists>n \<in> set ds. target h n = Some p)}"

definition linking :: "heap \<Rightarrow> Presence \<Rightarrow> TraceID \<Rightarrow> SpanID list \<Rightarrow> Tree \<Rightarrow> bool" where
  "linking h absent tid ds t \<longleftrightarrow> tTraceID t = tid \<and> tIDs t = fmdom h \<and> tCycles t = []
     \<and> distinct (tMissing t) \<and> set (tMissing t) = wanted h ds
     \<and> distinct (tRoots t) \<and> set (tRoots t) = {n \<in> set ds. target h n = None} \<union> wanted h ds
     \<and> allocated (tHeap t) = allocated h \<union> wanted h ds
     \<and> (\<forall>n. deref (tHeap t) n = (if n \<in> wanted h ds then placeholder absent tid n else deref h n)
          \<lparr>nParent := (if n \<in> set ds then target h n else None),
           nChildren := filter (\<lambda>c. target h c = Some n) ds\<rparr>)"

lemma unallocated_iff: "fmlookup h p = None \<longleftrightarrow> p \<notin> allocated h"
  by (metis fmdom_notD fmdom_notI)

text \<open>Making sure that the parent \<open>p\<close> of \<open>n\<close> has a node.\<close>

definition withParent :: "Presence \<Rightarrow> TraceID \<Rightarrow> SpanID \<Rightarrow> Tree \<Rightarrow> Tree" where
  "withParent absent tid p t = (if fmlookup (tHeap t) p \<noteq> None then t
     else t\<lparr>tHeap := fmupd p (placeholder absent tid p) (tHeap t), tRoots := tRoots t @ [p], tMissing := tMissing t @ [p]\<rparr>)"

lemma linkNode_withParent:
  assumes "tTraceID t = tid" "\<not> IsRoot (spanOf (tHeap t) n)" "sParentSpanID (spanOf (tHeap t) n) = p"
  shows "linkNode absent t n = (withParent absent tid p t)\<lparr>tHeap := updNode p (\<lambda>q. q\<lparr>nChildren := nChildren q @ [n]\<rparr>)
        (updNode n (\<lambda>m. m\<lparr>nParent := Some p\<rparr>) (tHeap (withParent absent tid p t)))\<rparr>"
  unfolding linkNode_def Let_def withParent_def placeholder_def using assms by simp

lemma withParent_linking:
  assumes inv: "linking h absent tid ds t" and n: "target h n = Some p" and dn: "set ds \<subseteq> allocated h"
  defines "t1 \<equiv> withParent absent tid p t"
  shows "deref (tHeap t1) m = (if m \<in> wanted h (ds @ [n]) then placeholder absent tid m else deref h m)
        \<lparr>nParent := (if m \<in> set ds then target h m else None), nChildren := filter (\<lambda>c. target h c = Some m) ds\<rparr>"
    "distinct (tMissing t1) \<and> set (tMissing t1) = wanted h (ds @ [n]) \<and> distinct (tRoots t1)
      \<and> set (tRoots t1) = {n \<in> set ds. target h n = None} \<union> wanted h (ds @ [n])
      \<and> allocated (tHeap t1) = allocated h \<union> wanted h (ds @ [n])
      \<and> tTraceID t1 = tid \<and> tIDs t1 = fmdom h \<and> tCycles t1 = []"
proof -
  have d: "deref (tHeap t) m = (if m \<in> wanted h ds then placeholder absent tid m else deref h m)
      \<lparr>nParent := (if m \<in> set ds then target h m else None), nChildren := filter (\<lambda>c. target h c = Some m) ds\<rparr>"
    using inv by (simp add: linking_def)
  have w: "wanted h (ds @ [n]) = (if p \<in> allocated h then wanted h ds else insert p (wanted h ds))"
    using n by (auto simp: wanted_def)
  have look: "fmlookup (tHeap t) p = None \<longleftrightarrow> p \<notin> allocated h \<and> p \<notin> wanted h ds"
    using inv unallocated_iff [of "tHeap t" p] by (auto simp: linking_def)
  have "deref (tHeap t1) m = (if m \<in> wanted h (ds @ [n]) then placeholder absent tid m else deref h m)
        \<lparr>nParent := (if m \<in> set ds then target h m else None), nChildren := filter (\<lambda>c. target h c = Some m) ds\<rparr>
    \<and> distinct (tMissing t1) \<and> set (tMissing t1) = wanted h (ds @ [n]) \<and> distinct (tRoots t1)
      \<and> set (tRoots t1) = {n \<in> set ds. target h n = None} \<union> wanted h (ds @ [n])
      \<and> allocated (tHeap t1) = allocated h \<union> wanted h (ds @ [n])
      \<and> tTraceID t1 = tid \<and> tIDs t1 = fmdom h \<and> tCycles t1 = []"
  proof (cases "fmlookup (tHeap t) p = None")
    case True
    have new: "filter (\<lambda>c. target h c = Some p) ds = []" "p \<notin> set ds" "p \<notin> wanted h ds" "p \<notin> allocated h"
      using True look dn by (auto simp: wanted_def filter_empty_conv)
    have "deref (tHeap t1) m = (if m = p then placeholder absent tid p else deref (tHeap t) m)"
      using True by (simp add: t1_def withParent_def deref_def)
    then show ?thesis
      using inv new w True by (auto simp: d placeholder_def newNode_def t1_def withParent_def linking_def)
  next
    case False
    then have "wanted h (ds @ [n]) = wanted h ds" using look w by auto
    then show ?thesis using False inv d by (auto simp: t1_def withParent_def linking_def)
  qed
  then show "deref (tHeap t1) m = (if m \<in> wanted h (ds @ [n]) then placeholder absent tid m else deref h m)
        \<lparr>nParent := (if m \<in> set ds then target h m else None), nChildren := filter (\<lambda>c. target h c = Some m) ds\<rparr>"
    "distinct (tMissing t1) \<and> set (tMissing t1) = wanted h (ds @ [n]) \<and> distinct (tRoots t1)
      \<and> set (tRoots t1) = {n \<in> set ds. target h n = None} \<union> wanted h (ds @ [n])
      \<and> allocated (tHeap t1) = allocated h \<union> wanted h (ds @ [n])
      \<and> tTraceID t1 = tid \<and> tIDs t1 = fmdom h \<and> tCycles t1 = []"
    by blast+
qed

lemma linkNode_linking:
  assumes inv: "linking h absent tid ds t" and n: "n \<in> allocated h" "n \<notin> set ds" and dn: "set ds \<subseteq> allocated h"
  shows "linking h absent tid (ds @ [n]) (linkNode absent t n)"
proof -
  have nw: "n \<notin> wanted h xs" for xs using n(1) by (simp add: wanted_def)
  have span: "spanOf (tHeap t) n = spanOf h n" using inv by (simp add: linking_def nw)
  show ?thesis
  proof (cases "target h n")
    case None
    then have w: "wanted h (ds @ [n]) = wanted h ds" by (auto simp: wanted_def)
    have "IsRoot (spanOf h n)" using None by (simp add: target_def split: if_splits)
    then have t': "linkNode absent t n = t\<lparr>tRoots := tRoots t @ [n]\<rparr>"
      by (simp add: linkNode_def span)
    have "n \<notin> set (tRoots t)" using inv n(2) nw by (auto simp: linking_def)
    with inv None w show ?thesis
      unfolding t' linking_def by auto
  next
    case (Some p)
    then have p: "\<not> IsRoot (spanOf h n)" "sParentSpanID (spanOf h n) = p"
      by (auto simp: target_def split: if_splits)
    define t1 where "t1 = withParent absent tid p t"
    note t1 = withParent_linking [OF inv Some dn, folded t1_def]
    let ?g = "updNode p (\<lambda>q. q\<lparr>nChildren := nChildren q @ [n]\<rparr>) (updNode n (\<lambda>m. m\<lparr>nParent := Some p\<rparr>) (tHeap t1))"
    have t': "linkNode absent t n = t1\<lparr>tHeap := ?g\<rparr>"
    proof -
      have "tTraceID t = tid" using inv by (simp add: linking_def)
      from linkNode_withParent [OF this, of n p] p show ?thesis by (simp add: t1_def span)
    qed
    have "p \<in> allocated (tHeap t1)" "n \<in> allocated (tHeap t1)"
      using t1(2) n(1) Some by (auto simp: wanted_def)
    moreover have "deref ?g m = (if m \<in> wanted h (ds @ [n]) then placeholder absent tid m else deref h m)
        \<lparr>nParent := (if m \<in> set (ds @ [n]) then target h m else None),
         nChildren := filter (\<lambda>c. target h c = Some m) (ds @ [n])\<rparr>" for m
      using Some n(2) calculation by (auto simp: deref_updNode t1(1))
    moreover have "allocated ?g = allocated h \<union> wanted h (ds @ [n])"
      using calculation(1,2) t1(2) by simp
    ultimately show ?thesis
      using t1(2) Some unfolding t' linking_def by auto
  qed
qed

lemma foldl_linking:
  assumes "fresh h" "linking h absent tid ds t" "distinct (ds @ ns)" "set (ds @ ns) \<subseteq> allocated h"
  shows "linking h absent tid (ds @ ns) (foldl (linkNode absent) t ns)"
  using assms(2-)
proof (induction ns arbitrary: ds t)
  case (Cons n ns)
  have "linking h absent tid (ds @ [n]) (linkNode absent t n)"
    using Cons.prems by (intro linkNode_linking) auto
  then show ?case
    using Cons.IH [of "ds @ [n]" "linkNode absent t n"] Cons.prems by simp
qed simp

definition startTree :: "heap \<Rightarrow> TraceID \<Rightarrow> Tree" where
  "startTree h tid = \<lparr>tTraceID = tid, tRoots = [], tIDs = fmdom h, tMissing = [], tCycles = [], tHeap = h\<rparr>"

lemma linking_start: "fresh h \<Longrightarrow> linking h absent tid [] (startTree h tid)"
proof -
  assume "fresh h"
  then have "deref h n = (deref h n)\<lparr>nParent := None, nChildren := []\<rparr>" for n
    using deref_unallocated [of n h] by (cases "n \<in> allocated h") (auto simp: fresh_def newNode_def)
  then show ?thesis
    by (simp add: linking_def startTree_def wanted_def)
qed

text \<open>When every node was linked, in whatever order.\<close>

definition isOrder :: "heap \<Rightarrow> SpanID list \<Rightarrow> bool" where
  "isOrder h order \<longleftrightarrow> distinct order \<and> set order = allocated h"

lemma linking_all:
  assumes "fresh h" "isOrder h order"
  shows "linking h absent tid order (foldl (linkNode absent) (startTree h tid) order)"
  using foldl_linking [OF assms(1) linking_start [OF assms(1)], of order absent tid] assms(2) by (simp add: isOrder_def)

lemma linking_linked:
  assumes "linking h absent tid order t" "fresh h" "isOrder h order"
  shows "linked t"
proof -
  have ids: "sSpanID (spanOf h n) = n" if "n \<in> allocated h" for n
    using assms(2) that by (auto simp: fresh_def newNode_def)
  have d: "deref (tHeap t) n = (if n \<in> wanted h order then placeholder absent tid n else deref h n)
      \<lparr>nParent := (if n \<in> set order then target h n else None), nChildren := filter (\<lambda>c. target h c = Some n) order\<rparr>" for n
    using assms(1) by (simp add: linking_def)
  have dom: "allocated (tHeap t) = allocated h \<union> wanted h order"
    using assms(1) by (simp add: linking_def)
  have ord: "distinct order" "set order = allocated h" using assms(3) by (auto simp: isOrder_def)
  have disj: "n \<in> wanted h order \<Longrightarrow> n \<notin> allocated h" for n by (simp add: wanted_def)
  have "sSpanID (spanOf (tHeap t) n) = n" if "n \<in> allocated (tHeap t)" for n
    using that dom ids by (auto simp: d placeholder_def newNode_def)
  moreover have "p \<in> allocated (tHeap t)" if "par (tHeap t) n = Some p" for n p
    using that ord unfolding dom wanted_def by (auto simp: d split: if_splits)
  moreover have "distinct (kids (tHeap t) p) \<and> set (kids (tHeap t) p) = {c. par (tHeap t) c = Some p}" for p
    using ord by (auto simp: d split: if_splits)
  ultimately have ok: "heap_ok (tHeap t)" by (simp add: heap_ok_def)
  have roots: "roots_ok t"
    using assms(1) ord disj unfolding roots_ok_def dom by (auto simp: linking_def split: if_splits)
  have miss: "par (tHeap t) p = None \<and> kids (tHeap t) p \<noteq> []" if "p \<in> wanted h order" for p
    using that ord disj [OF that] by (auto simp: d wanted_def filter_empty_conv)
  have "fmdom h |\<subseteq>| fmdom (tHeap t)" using dom by (auto simp: less_eq_fset.rep_eq)
  with ok roots miss assms(1) disj dom show ?thesis
    unfolding linked_def by (auto simp: linking_def)
qed

subsection \<open>The order of nodes\<close>

lemma byStart_keys:
  "byStart h = onKey (spanOf h) (thenCompare (onKey sStart time_Compare) (onKey sSpanID compareBytes))"
  by (simp add: byStart_def thenCompare_def onKey_def Let_def fun_eq_iff)

lemma comparator_byStart: "comparator (byStart h)"
  unfolding byStart_keys by (intro comparator_intros)

lemma byStart_0: "byStart h a b = 0 \<Longrightarrow> sSpanID (spanOf h a) = sSpanID (spanOf h b)"
  by (auto simp: byStart_def Let_def split: if_splits)

lemma sort_byStart_perm:
  assumes "distinct xs" "distinct ys" "set xs = set ys" "\<forall>n \<in> set xs. sSpanID (spanOf h n) = n"
  shows "sortFunc (byStart h) xs = sortFunc (byStart h) ys"
proof (rule comparator.sortFunc_perm [OF comparator_byStart])
  show "mset xs = mset ys" using assms(1-3) by (simp add: set_eq_iff_mset_eq_distinct)
  show "x = y" if "x \<in> set xs" "y \<in> set xs" "byStart h x y = 0" for x y
    using byStart_0 [OF that(3)] assms(4) that(1,2) by auto
qed

lemma sort_byStart_strict:
  assumes "distinct xs" "\<forall>n \<in> set xs. sSpanID (spanOf h n) = n"
  shows "sorted_wrt (\<lambda>a b. byStart h a b < 0) (sortFunc (byStart h) xs)" (is "sorted_wrt _ ?s")
proof -
  have "byStart h (?s ! i) (?s ! j) \<le> 0" if "i < j" "j < length ?s" for i j
    using that comparator.sorted_sortFunc [OF comparator_byStart, of h xs] by (metis sorted_wrt_nth_less)
  moreover have "byStart h (?s ! i) (?s ! j) \<noteq> 0" if ij: "i < j" "j < length ?s" for i j
  proof
    assume "byStart h (?s ! i) (?s ! j) = 0"
    then have "?s ! i = ?s ! j"
      using byStart_0 [of h "?s ! i" "?s ! j"] assms(2) nth_mem [of i ?s] nth_mem [of j ?s] ij by auto
    moreover have "distinct ?s" using assms(1) by simp
    ultimately show False using ij by (metis nat_neq_iff nth_eq_iff_index_eq order.strict_trans)
  qed
  ultimately show ?thesis
    unfolding sorted_wrt_iff_nth_less by (metis order_le_less)
qed

subsection \<open>Envelopes\<close>

definition starts :: "heap \<Rightarrow> SpanID list \<Rightarrow> Time set" where
  "starts h cs = (\<lambda>c. sStart (spanOf h c)) ` set cs"

definition ends :: "heap \<Rightarrow> SpanID list \<Rightarrow> Time set" where
  "ends h cs = (\<lambda>c. sEnd (spanOf h c)) ` set cs"

lemma foldl_widenBy:
  "foldl (widenBy h) s cs = s\<lparr>sStart := Min (insert (sStart s) (starts h cs)), sEnd := Max (insert (sEnd s) (ends h cs))\<rparr>"
proof (induction cs arbitrary: s)
  case Nil
  then show ?case by (simp add: starts_def ends_def)
next
  case (Cons c cs)
  let ?a = "sStart (spanOf h c)" and ?b = "sEnd (spanOf h c)"
  have fin: "finite (starts h cs)" "finite (ends h cs)" by (simp_all add: starts_def ends_def)
  have w: "sStart (widenBy h s c) = min (sStart s) ?a" "sEnd (widenBy h s c) = max (sEnd s) ?b"
    "(widenBy h s c)\<lparr>sStart := x, sEnd := y\<rparr> = s\<lparr>sStart := x, sEnd := y\<rparr>" for x y
    by (auto simp: widenBy_def Let_def)
  have "Min (insert (min (sStart s) ?a) (starts h cs)) = Min (insert (sStart s) (insert ?a (starts h cs)))"
    "Max (insert (max (sEnd s) ?b) (ends h cs)) = Max (insert (sEnd s) (insert ?b (ends h cs)))"
    using fin by (cases "starts h cs = {}"; cases "ends h cs = {}"; simp add: min.assoc max.assoc)+
  moreover have "starts h (c # cs) = insert ?a (starts h cs)" "ends h (c # cs) = insert ?b (ends h cs)"
    by (simp_all add: starts_def ends_def)
  ultimately show ?case by (simp add: Cons w)
qed

definition enveloped :: "heap \<Rightarrow> SpanID \<Rightarrow> Span" where
  "enveloped h p = (spanOf h p)\<lparr>sStart := Min (starts h (kids h p)), sEnd := Max (ends h (kids h p))\<rparr>"

lemma envelope_eq:
  assumes "kids h p \<noteq> []"
  shows "envelope h p = Some (updNode p (\<lambda>q. q\<lparr>nSpan := enveloped h p\<rparr>) h)"
proof -
  obtain c cs where k: "kids h p = c # cs" using assms by (cases "kids h p") auto
  then have "starts h (kids h p) = insert (sStart (spanOf h c)) (starts h cs)" "ends h (kids h p) = insert (sEnd (spanOf h c)) (ends h cs)"
    by (simp_all add: starts_def ends_def)
  then show ?thesis by (simp add: envelope_def k foldl_widenBy enveloped_def Let_def)
qed

lemma envelopes_eq:
  assumes "distinct ps" "set ps \<subseteq> allocated h" "\<forall>p \<in> set ps. kids h p \<noteq> [] \<and> set (kids h p) \<inter> set ps = {}"
  shows "\<exists>h'. envelopes h ps = Some h' \<and> fmdom h' = fmdom h
    \<and> (\<forall>n. deref h' n = (if n \<in> set ps then (deref h n)\<lparr>nSpan := enveloped h n\<rparr> else deref h n))"
  using assms
proof (induction ps arbitrary: h)
  case (Cons p ps)
  define g where "g = updNode p (\<lambda>q. q\<lparr>nSpan := enveloped h p\<rparr>) h"
  have d: "deref g n = (if n = p then (deref h n)\<lparr>nSpan := enveloped h n\<rparr> else deref h n)" for n
    by (simp add: g_def deref_updNode)
  have dom: "fmdom g = fmdom h" using Cons.prems(2) by (simp add: g_def)
  have k: "kids g n = kids h n" for n by (simp add: d)
  have env: "enveloped g n = enveloped h n" if "n \<in> set ps" for n
  proof -
    have "p \<notin> set (kids h n)" using Cons.prems(3) that by auto
    then have "starts g (kids h n) = starts h (kids h n)" "ends g (kids h n) = ends h (kids h n)"
      unfolding starts_def ends_def by (auto simp: d intro!: image_cong)
    moreover have "n \<noteq> p" using Cons.prems(1) that by auto
    ultimately show ?thesis unfolding enveloped_def k by (simp add: d)
  qed
  have "\<forall>q \<in> set ps. kids g q \<noteq> [] \<and> set (kids g q) \<inter> set ps = {}"
    using Cons.prems(3) unfolding k by auto
  then obtain h' where h': "envelopes g ps = Some h'" "fmdom h' = fmdom g"
    "\<forall>n. deref h' n = (if n \<in> set ps then (deref g n)\<lparr>nSpan := enveloped g n\<rparr> else deref g n)"
    using Cons.IH [of g] Cons.prems(1,2) dom by auto
  have "envelope h p = Some g" using Cons.prems(3) unfolding g_def by (intro envelope_eq) simp
  moreover have "deref h' n = (if n \<in> set (p # ps) then (deref h n)\<lparr>nSpan := enveloped h n\<rparr> else deref h n)" for n
    using h'(3) Cons.prems(1) env by (auto simp: d)
  ultimately show ?case
    using h'(1,2) dom by auto
qed simp

subsection \<open>Sorting\<close>

lemma foldl_sortChildren:
  assumes "distinct ns" "set ns \<subseteq> allocated h"
  shows "fmdom (foldl sortChildren h ns) = fmdom h
    \<and> (\<forall>n. deref (foldl sortChildren h ns) n
         = (if n \<in> set ns then (deref h n)\<lparr>nChildren := sortFunc (byStart h) (kids h n)\<rparr> else deref h n))"
  using assms
proof (induction ns arbitrary: h)
  case (Cons m ns)
  let ?h = "sortChildren h m"
  have d: "deref ?h n = (if n = m then (deref h n)\<lparr>nChildren := sortFunc (byStart h) (kids h n)\<rparr> else deref h n)" for n
    by (simp add: sortChildren_def deref_updNode)
  have dom: "fmdom ?h = fmdom h" using Cons.prems(2) by (simp add: sortChildren_def)
  have by_eq: "byStart ?h = byStart h" by (intro byStart_cong) (simp add: d)
  have "fmdom (foldl sortChildren ?h ns) = fmdom ?h
    \<and> (\<forall>n. deref (foldl sortChildren ?h ns) n
         = (if n \<in> set ns then (deref ?h n)\<lparr>nChildren := sortFunc (byStart ?h) (kids ?h n)\<rparr> else deref ?h n))"
    using Cons.prems dom by (intro Cons.IH) auto
  then show ?case
    using dom Cons.prems(1) by (auto simp: d by_eq)
qed simp

end
