(* ===== verification/Assembly_Correct.thy ===== *)
theory Assembly_Correct
  imports Assembly_Build
begin

section \<open>Assembling a trace: correctness of Build\<close>

text \<open>
  What \<open>Build\<close> returns: for every non-empty list of spans of one trace a tree whose nodes are the
  received spans and one placeholder per missing parent, in which every node is below exactly
  one root, with everything sorted; and the same tree whatever order Go ranges over its maps in.
\<close>

subsection \<open>Collecting the spans\<close>

definition lastSpan :: "Span list \<Rightarrow> SpanID \<Rightarrow> Span option" where
  "lastSpan ss n = (case filter (\<lambda>s. sSpanID s = n) ss of [] \<Rightarrow> None | xs \<Rightarrow> Some (last xs))"

definition spanHeap :: "Span list \<Rightarrow> heap" where
  "spanHeap ss = foldl (\<lambda>h s. fmupd (sSpanID s) (newNode s) h) fmempty ss"

lemma collect_eq:
  "collect tid ss h = (case find (\<lambda>s. sTraceID s \<noteq> tid) ss of
      Some s \<Rightarrow> Inl (ErrMixedTraces tid (sTraceID s))
    | None \<Rightarrow> Inr (foldl (\<lambda>h s. fmupd (sSpanID s) (newNode s) h) h ss))"
  by (induction ss arbitrary: h) (auto split: option.split)

lemma lookup_spanHeap: "fmlookup (spanHeap ss) n = map_option newNode (lastSpan ss n)"
  unfolding spanHeap_def
proof (induction ss rule: rev_induct)
  case (snoc s ss)
  then show ?case
    by (auto simp: lastSpan_def split: list.splits)
qed (simp add: lastSpan_def)

lemma lastSpan_id: "lastSpan ss n = Some s \<Longrightarrow> sSpanID s = n \<and> s \<in> set ss"
proof -
  assume "lastSpan ss n = Some s"
  then have "filter (\<lambda>s. sSpanID s = n) ss \<noteq> []" "s = last (filter (\<lambda>s. sSpanID s = n) ss)"
    by (auto simp: lastSpan_def split: list.splits)
  then have "s \<in> set (filter (\<lambda>s. sSpanID s = n) ss)" using last_in_set by metis
  then show ?thesis by simp
qed

lemma deref_spanHeap: "lastSpan ss n = Some s \<Longrightarrow> deref (spanHeap ss) n = newNode s"
  by (simp add: deref_def lookup_spanHeap)

lemma allocated_spanHeap: "allocated (spanHeap ss) = sSpanID ` set ss"
proof (intro set_eqI iffI)
  fix n
  have a: "n \<in> allocated (spanHeap ss) \<longleftrightarrow> lastSpan ss n \<noteq> None"
    using unallocated_iff [of "spanHeap ss" n] by (simp add: lookup_spanHeap)
  show "n \<in> allocated (spanHeap ss) \<Longrightarrow> n \<in> sSpanID ` set ss"
    using a lastSpan_id [of ss n] by auto
  show "n \<in> sSpanID ` set ss \<Longrightarrow> n \<in> allocated (spanHeap ss)"
    unfolding a by (auto simp: lastSpan_def filter_empty_conv split: list.splits)
qed

lemma fresh_spanHeap: "fresh (spanHeap ss)"
  unfolding fresh_def
proof
  fix n assume "n \<in> allocated (spanHeap ss)"
  then obtain s where "lastSpan ss n = Some s"
    using unallocated_iff [of "spanHeap ss" n] by (auto simp: lookup_spanHeap)
  then show "\<exists>s. deref (spanHeap ss) n = newNode s \<and> sSpanID s = n"
    using deref_spanHeap lastSpan_id by blast
qed

subsection \<open>Finishing: envelopes and sorting\<close>

definition finish :: "Tree \<Rightarrow> Tree option" where
  "finish t = (case envelopes (tHeap t) (tMissing t) of None \<Rightarrow> None | Some h \<Rightarrow> Some (sortTree (t\<lparr>tHeap := h\<rparr>)))"

definition finishable :: "Tree \<Rightarrow> bool" where
  "finishable t \<longleftrightarrow> heap_ok (tHeap t) \<and> roots_ok t \<and> tIDs t |\<subseteq>| fmdom (tHeap t)
     \<and> distinct (tMissing t) \<and> set (tMissing t) = allocated (tHeap t) - fset (tIDs t)
     \<and> (\<forall>p \<in> set (tMissing t). par (tHeap t) p = None \<and> kids (tHeap t) p \<noteq> [])"

definition finalSpan :: "Tree \<Rightarrow> SpanID \<Rightarrow> Span" where
  "finalSpan t n = (if n \<in> set (tMissing t) then enveloped (tHeap t) n else spanOf (tHeap t) n)"

text \<open>The order of the final heap, from the spans its nodes will have.\<close>

definition finalOrder :: "Tree \<Rightarrow> SpanID \<Rightarrow> SpanID \<Rightarrow> int" where
  "finalOrder t a b =
     (let c = time_Compare (sStart (finalSpan t a)) (sStart (finalSpan t b))
      in if c \<noteq> 0 then c else compareBytes (sSpanID (finalSpan t a)) (sSpanID (finalSpan t b)))"

definition finished :: "Tree \<Rightarrow> Tree \<Rightarrow> bool" where
  "finished t t' \<longleftrightarrow> fmdom (tHeap t') = fmdom (tHeap t)
    \<and> tTraceID t' = tTraceID t \<and> tIDs t' = tIDs t \<and> tCycles t' = tCycles t
    \<and> tRoots t' = sortFunc (finalOrder t) (tRoots t) \<and> tMissing t' = sortFunc (finalOrder t) (tMissing t)
    \<and> (\<forall>n \<in> allocated (tHeap t). deref (tHeap t') n
        = (deref (tHeap t) n)\<lparr>nSpan := finalSpan t n, nChildren := sortFunc (finalOrder t) (kids (tHeap t) n)\<rparr>)
    \<and> byStart (tHeap t') = finalOrder t"

lemma finish_eq:
  assumes "finishable t"
  shows "\<exists>t'. finish t = Some t' \<and> finished t t'"
proof -
  let ?h = "tHeap t"
  have miss: "distinct (tMissing t)" "set (tMissing t) = allocated ?h - fset (tIDs t)"
    and ids: "fset (tIDs t) \<subseteq> allocated ?h"
    and pk: "\<forall>p \<in> set (tMissing t). par ?h p = None \<and> kids ?h p \<noteq> []"
    and kids: "\<forall>p. set (kids ?h p) = {c. par ?h c = Some p}"
    using assms by (auto simp: finishable_def heap_ok_def less_eq_fset.rep_eq)
  have "set (tMissing t) \<subseteq> allocated ?h" using miss(2) by blast
  moreover have "\<forall>p \<in> set (tMissing t). kids ?h p \<noteq> [] \<and> set (kids ?h p) \<inter> set (tMissing t) = {}"
    using pk kids by auto
  ultimately obtain g where g: "envelopes ?h (tMissing t) = Some g" "fmdom g = fmdom ?h"
    "\<And>n. deref g n = (if n \<in> set (tMissing t) then (deref ?h n)\<lparr>nSpan := enveloped ?h n\<rparr> else deref ?h n)"
    using envelopes_eq [OF miss(1)] by blast
  have gspan: "spanOf g n = finalSpan t n" for n by (simp add: g(3) finalSpan_def)
  have gorder: "byStart g = finalOrder t"
    by (simp add: byStart_def finalOrder_def gspan Let_def fun_eq_iff)
  let ?g1 = "foldl sortChildren g (setElems (tIDs t))"
  let ?ms = "sortFunc (finalOrder t) (tMissing t)"
  let ?g2 = "foldl sortChildren ?g1 ?ms"
  have s1: "fmdom ?g1 = fmdom g" "\<And>n. deref ?g1 n
      = (if n |\<in>| tIDs t then (deref g n)\<lparr>nChildren := sortFunc (byStart g) (kids g n)\<rparr> else deref g n)"
    using foldl_sortChildren [of "setElems (tIDs t)" g] ids g(2) by auto
  have o1: "byStart ?g1 = finalOrder t"
    using byStart_cong [of ?g1 g] gorder by (simp add: s1(2))
  have s2: "fmdom ?g2 = fmdom ?g1" "\<And>n. deref ?g2 n
      = (if n \<in> set (tMissing t) then (deref ?g1 n)\<lparr>nChildren := sortFunc (byStart ?g1) (kids ?g1 n)\<rparr> else deref ?g1 n)"
    using foldl_sortChildren [of ?ms ?g1] miss s1(1) g(2) by auto
  have o2: "byStart ?g2 = finalOrder t"
    using byStart_cong [of ?g2 ?g1] o1 by (simp add: s2(2))
  have "deref ?g2 n = (deref ?h n)\<lparr>nSpan := finalSpan t n, nChildren := sortFunc (finalOrder t) (kids ?h n)\<rparr>"
    if "n \<in> allocated ?h" for n
    using that miss(2) by (cases "n |\<in>| tIDs t") (simp_all add: s2(2) s1(2) o1 gorder g(3) finalSpan_def)
  then show ?thesis
    using g(1,2) s1(1) s2(1) o2 by (simp add: finish_def finished_def sortTree_def gorder Let_def)
qed

subsection \<open>Independence of the order of iteration\<close>

text \<open>Two trees that differ only in the order of their children, roots and placeholders.\<close>

definition alike :: "Tree \<Rightarrow> Tree \<Rightarrow> bool" where
  "alike t u \<longleftrightarrow> tTraceID t = tTraceID u \<and> tIDs t = tIDs u \<and> tCycles t = tCycles u
     \<and> set (tMissing t) = set (tMissing u) \<and> distinct (tMissing t) \<and> distinct (tMissing u)
     \<and> fmdom (tHeap t) = fmdom (tHeap u)
     \<and> (\<forall>n. spanOf (tHeap t) n = spanOf (tHeap u) n \<and> nPresence (deref (tHeap t) n) = nPresence (deref (tHeap u) n)
          \<and> nParent (deref (tHeap t) n) = nParent (deref (tHeap u) n)
          \<and> nCycleBroken (deref (tHeap t) n) = nCycleBroken (deref (tHeap u) n))
     \<and> heap_ok (tHeap t) \<and> heap_ok (tHeap u) \<and> roots_ok t \<and> roots_ok u"

lemma alike_fields:
  assumes "alike t u"
  shows "nParent (deref (tHeap t) n) = nParent (deref (tHeap u) n)" "spanOf (tHeap t) n = spanOf (tHeap u) n"
    "set (kids (tHeap t) n) = set (kids (tHeap u) n)" "par (tHeap t) = par (tHeap u)"
    "byStart (tHeap t) = byStart (tHeap u)" "mapLen (tHeap t) = mapLen (tHeap u)"
    "rootedIn (tHeap t) = rootedIn (tHeap u)" "set (tRoots t) = set (tRoots u)"
proof -
  have p: "nParent (deref (tHeap t) n) = nParent (deref (tHeap u) n)"
    and s: "spanOf (tHeap t) n = spanOf (tHeap u) n" for n
    using assms by (simp_all add: alike_def)
  show "nParent (deref (tHeap t) n) = nParent (deref (tHeap u) n)" "spanOf (tHeap t) n = spanOf (tHeap u) n"
    by (rule p, rule s)
  show par: "par (tHeap t) = par (tHeap u)" by (rule ext) (rule p)
  show "byStart (tHeap t) = byStart (tHeap u)" by (rule byStart_cong) (rule s)
  show "set (kids (tHeap t) n) = set (kids (tHeap u) n)"
    using assms p by (simp add: alike_def heap_ok_def)
  show "mapLen (tHeap t) = mapLen (tHeap u)" using assms by (simp add: alike_def mapLen_def)
  show "rootedIn (tHeap t) = rootedIn (tHeap u)" using assms by (simp add: alike_def rootedIn_def par)
  show "set (tRoots t) = set (tRoots u)" using assms by (simp add: alike_def roots_ok_def p)
qed

lemma walkUp_cong: "par h = par h' \<Longrightarrow> walkUp k h seen n = walkUp k h' seen n"
proof (induction k arbitrary: seen n)
  case (Suc k)
  then have "par h n = par h' n" by meson
  with Suc show ?case by (simp split: option.split)
qed simp

lemma earliestFrom_cong:
  "par h = par h' \<Longrightarrow> byStart h = byStart h' \<Longrightarrow> earliestFrom k h n m a = earliestFrom k h' n m a"
proof (induction k arbitrary: m a)
  case 0
  then show ?case by (cases m) auto
next
  case (Suc k)
  then have "par h x = par h' x" for x by meson
  with Suc show ?case by (cases m) auto
qed

lemma breakAt_point:
  "breakAt k t R n = Some (t', R') \<Longrightarrow> \<exists>m c. walkUp k (tHeap t) {||} n = Some m
     \<and> earliestFrom k (tHeap t) m (par (tHeap t) m) m = Some c \<and> tCycles t' = tCycles t @ [c]"
  by (auto simp: breakAt_def Let_def split: option.splits)

lemma breakAt_alike:
  assumes al: "alike t u" and n: "n \<in> allocated (tHeap t)" "n |\<notin>| R" and R: "fset R = rootedIn (tHeap t)"
    and k: "k = mapLen (tHeap t) + 1"
  shows "\<exists>t' u' R'. breakAt k t R n = Some (t', R') \<and> breakAt k u R n = Some (u', R') \<and> alike t' u'
    \<and> fset R' = rootedIn (tHeap t') \<and> fmdom (tHeap t') = fmdom (tHeap t)"
proof -
  let ?cut = "\<lambda>t c p. t\<lparr>tHeap := cutFrom (tHeap t) p c, tRoots := tRoots t @ [c], tCycles := tCycles t @ [c]\<rparr>"
  note f = alike_fields [OF al]
  have ok: "heap_ok (tHeap t)" "heap_ok (tHeap u)" "roots_ok t" "roots_ok u" and dom: "fmdom (tHeap u) = fmdom (tHeap t)"
    using al by (auto simp: alike_def)
  obtain c p R1 where t: "breakAt k t R n = Some (?cut t c p, R1)" "par (tHeap t) c = Some p"
    "fset R1 = rootedIn (cutFrom (tHeap t) p c)"
    using breakAt_cuts [OF ok(1) n R k] by blast
  obtain d q R2 where u: "breakAt k u R n = Some (?cut u d q, R2)" "par (tHeap u) d = Some q"
    "fset R2 = rootedIn (cutFrom (tHeap u) q d)"
    using breakAt_cuts [OF ok(2), of n R k] n R k f(6,7) dom by auto
  have "c = d"
    using breakAt_point [OF t(1)] breakAt_point [OF u(1)] walkUp_cong [OF f(4)] earliestFrom_cong [OF f(4,5)] f(1) by auto
  with t(2) u(2) f(1) have eq: "c = d" "p = q" by auto
  have "fmdom (cutFrom (tHeap t) p c) = fmdom (tHeap t)" "fmdom (cutFrom (tHeap u) p c) = fmdom (tHeap u)"
    using heap_ok_cutFrom(2) ok t(2) u(2) eq by auto
  note cut_dom = this
  have "R1 = R2"
    using t(3) u(3) eq f(4) dom cut_dom unfolding rootedIn_def par_cutFrom by (simp add: fset_inject [symmetric])
  moreover have "alike (?cut t c p) (?cut u c p)"
  proof -
    have heaps: "heap_ok (cutFrom (tHeap t) p c)" "heap_ok (cutFrom (tHeap u) p c)"
      using heap_ok_cutFrom(1) ok t(2) u(2) eq by auto
    moreover have "roots_ok (?cut t c p)" "roots_ok (?cut u c p)"
      using roots_ok_cut ok t(2) u(2) eq by auto
    ultimately show ?thesis
      using al cut_dom by (simp add: alike_def par_cutFrom_app)
  qed
  ultimately show ?thesis
    using t u eq cut_dom by (intro exI [of _ "?cut t c p"] exI [of _ "?cut u c p"] exI [of _ R1]) simp
qed

lemma breakLoop_alike:
  assumes "alike t u" "fset R = rootedIn (tHeap t)" "set ns \<subseteq> allocated (tHeap t)" "k = mapLen (tHeap t) + 1"
  shows "\<exists>t' u'. breakLoop k t R ns = Some t' \<and> breakLoop k u R ns = Some u' \<and> alike t' u'"
  using assms
proof (induction ns arbitrary: t u R)
  case (Cons n ns)
  show ?case
  proof (cases "n |\<in>| R")
    case True
    with Cons.IH [OF Cons.prems(1,2) _ Cons.prems(4)] Cons.prems(3) show ?thesis by simp
  next
    case False
    have "n \<in> allocated (tHeap t)" using Cons.prems(3) by simp
    from breakAt_alike [OF Cons.prems(1) this False Cons.prems(2,4)]
    obtain t1 u1 R1 where at: "breakAt k t R n = Some (t1, R1)" "breakAt k u R n = Some (u1, R1)" "alike t1 u1"
      "fset R1 = rootedIn (tHeap t1)" "fmdom (tHeap t1) = fmdom (tHeap t)" by blast
    have "\<exists>t' u'. breakLoop k t1 R1 ns = Some t' \<and> breakLoop k u1 R1 ns = Some u' \<and> alike t' u'"
      using Cons.prems(3,4) at(5) by (intro Cons.IH [OF at(3,4)]) (auto simp: mapLen_def)
    with False at(1,2) show ?thesis by simp
  qed
qed simp

lemma markAll_roots:
  assumes "heap_ok (tHeap t)" "roots_ok t"
  shows "\<exists>R. markAll (mapLen (tHeap t) + 1) (tHeap t) (tRoots t) {||} = Some R \<and> fset R = rootedIn (tHeap t)"
proof -
  have "\<forall>r \<in> set (tRoots t). rooted (par (tHeap t)) r \<and> r \<in> allocated (tHeap t)"
    using assms(2) by (auto simp: roots_ok_def intro: rooted.root)
  from markAll_below [OF assms(1) this, of "{||}"] rootedIn_roots [OF assms] show ?thesis by auto
qed

lemma breakCycles_alike:
  assumes al: "alike t u" and ids: "tIDs t |\<subseteq>| fmdom (tHeap t)"
  shows "\<exists>t' u'. breakCycles t = Some t' \<and> breakCycles u = Some u' \<and> alike t' u'"
proof -
  note f = alike_fields [OF al]
  have ok: "heap_ok (tHeap t)" "roots_ok t" "heap_ok (tHeap u)" "roots_ok u" and same: "tIDs u = tIDs t"
    using al by (auto simp: alike_def)
  obtain R where R: "markAll (mapLen (tHeap t) + 1) (tHeap t) (tRoots t) {||} = Some R" "fset R = rootedIn (tHeap t)"
    using markAll_roots [OF ok(1,2)] by blast
  obtain S where S: "markAll (mapLen (tHeap t) + 1) (tHeap u) (tRoots u) {||} = Some S" "fset S = rootedIn (tHeap u)"
    using markAll_roots [OF ok(3,4)] unfolding f(6) by blast
  have "S = R" using R(2) S(2) f(7) by (simp add: fset_inject [symmetric])
  have len: "length (tMissing u) = length (tMissing t)"
  proof -
    have "distinct (tMissing t)" "distinct (tMissing u)" "set (tMissing t) = set (tMissing u)"
      using al by (simp_all add: alike_def)
    then show ?thesis using distinct_card [of "tMissing t"] distinct_card [of "tMissing u"] by simp
  qed
  let ?ns = "sortFunc (byStart (tHeap t)) (filter (\<lambda>n. n |\<notin>| R) (setElems (tIDs t)))"
  have "set ?ns \<subseteq> allocated (tHeap t)" using ids by (auto simp: less_eq_fset.rep_eq)
  from breakLoop_alike [OF al R(2) this HOL.refl]
  obtain t1 u1 where l: "breakLoop (mapLen (tHeap t) + 1) t R ?ns = Some t1" "breakLoop (mapLen (tHeap t) + 1) u R ?ns = Some u1"
    "alike t1 u1" by blast
  show ?thesis
  proof (cases "fcard R = fcard (tIDs t) + length (tMissing t)")
    case True
    then show ?thesis
      using R(1) S(1) \<open>S = R\<close> len same al unfolding breakCycles_def Let_def f(6) by simp
  next
    case False
    have "breakCycles t = Some (t1\<lparr>tCycles := sortFunc (byStart (tHeap t1)) (tCycles t1)\<rparr>)"
      "breakCycles u = Some (u1\<lparr>tCycles := sortFunc (byStart (tHeap u1)) (tCycles u1)\<rparr>)"
      using False R(1) S(1) \<open>S = R\<close> len same l(1,2) unfolding breakCycles_def Let_def f(5,6) by simp_all
    moreover have "alike (t1\<lparr>tCycles := sortFunc (byStart (tHeap t1)) (tCycles t1)\<rparr>)
        (u1\<lparr>tCycles := sortFunc (byStart (tHeap u1)) (tCycles u1)\<rparr>)"
      using l(3) alike_fields(5) [OF l(3)] by (simp add: alike_def roots_ok_def)
    ultimately show ?thesis by blast
  qed
qed

lemma sSpanID_finalSpan: "sSpanID (finalSpan t n) = sSpanID (spanOf (tHeap t) n)"
  by (simp add: finalSpan_def enveloped_def)

lemma kids_allocated:
  assumes "heap_ok h"
  shows "set (kids h n) \<subseteq> allocated h"
proof
  fix c assume "c \<in> set (kids h n)"
  then have "par h c = Some n" using assms by (simp add: heap_ok_def)
  then show "c \<in> allocated h" by (rule par_allocated)
qed

lemma heap_ext:
  assumes "\<And>n. n \<in> A \<Longrightarrow> deref h n = deref g n" "allocated h = A" "allocated g = A"
  shows "h = g"
proof (rule fmap_ext)
  fix n
  show "fmlookup h n = fmlookup g n"
    using assms(1) [of n] assms(2,3) unallocated_iff [of h n] unallocated_iff [of g n]
    by (cases "n \<in> A") (auto simp: deref_def split: option.splits)
qed

lemma finish_alike:
  assumes al: "alike t u" and fin: "finishable t" "finishable u"
  shows "finish t = finish u"
proof -
  note f = alike_fields [OF al]
  have dom: "fmdom (tHeap u) = fmdom (tHeap t)" using al by (simp add: alike_def)
  have "enveloped (tHeap t) n = enveloped (tHeap u) n" for n
    using f(2,3) by (simp add: enveloped_def starts_def ends_def)
  then have fs: "finalSpan t n = finalSpan u n" for n
    using al by (simp add: finalSpan_def alike_def)
  then have fo: "finalOrder t = finalOrder u" by (simp add: finalOrder_def Let_def fun_eq_iff)
  obtain t' u' where ft: "finish t = Some t'" "finished t t'" and fu: "finish u = Some u'" "finished u u'"
    using finish_eq [OF fin(1)] finish_eq [OF fin(2)] by blast
  note t' = ft(2) [unfolded finished_def] and u' = fu(2) [unfolded finished_def]
  have dt: "deref (tHeap t') n = (deref (tHeap t) n)\<lparr>nSpan := finalSpan t n, nChildren := sortFunc (finalOrder t) (kids (tHeap t) n)\<rparr>"
    and du: "deref (tHeap u') n = (deref (tHeap u) n)\<lparr>nSpan := finalSpan u n, nChildren := sortFunc (finalOrder u) (kids (tHeap u) n)\<rparr>"
    if "n \<in> allocated (tHeap t)" for n
    using that t' u' dom by simp_all
  have ids: "sSpanID (spanOf (tHeap t') n) = n" if "n \<in> allocated (tHeap t)" for n
    using that dt fin(1) by (simp add: sSpanID_finalSpan finishable_def heap_ok_def)
  have perm: "sortFunc (finalOrder t) xs = sortFunc (finalOrder u) ys"
    if "distinct xs" "distinct ys" "set xs = set ys" "set xs \<subseteq> allocated (tHeap t)" for xs ys
  proof -
    have "\<forall>n \<in> set xs. sSpanID (spanOf (tHeap t') n) = n" using ids that(4) by blast
    moreover have "byStart (tHeap t') = finalOrder u" using t' fo by simp
    ultimately show ?thesis
      using sort_byStart_perm [OF that(1-3), of "tHeap t'"] fo by simp
  qed
  have "sortFunc (finalOrder t) (tRoots t) = sortFunc (finalOrder u) (tRoots u)"
    using fin f(8) by (intro perm) (auto simp: finishable_def roots_ok_def)
  moreover have "sortFunc (finalOrder t) (tMissing t) = sortFunc (finalOrder u) (tMissing u)"
    using fin al by (intro perm) (auto simp: finishable_def alike_def)
  ultimately have lists: "tRoots t' = tRoots u'" "tMissing t' = tMissing u'"
    using t' u' by simp_all
  have nodes: "deref (tHeap t') n = deref (tHeap u') n" if n: "n \<in> allocated (tHeap t)" for n
  proof -
    have "set (kids (tHeap t) n) \<subseteq> allocated (tHeap t)"
      using fin(1) kids_allocated by (simp add: finishable_def)
    then have "sortFunc (finalOrder t) (kids (tHeap t) n) = sortFunc (finalOrder u) (kids (tHeap u) n)"
      using fin f(3) by (intro perm) (auto simp: finishable_def heap_ok_def)
    moreover have "(deref (tHeap t) n)\<lparr>nSpan := x, nChildren := y\<rparr> = (deref (tHeap u) n)\<lparr>nSpan := x, nChildren := y\<rparr>" for x y
      using al by (simp add: alike_def)
    ultimately show ?thesis
      unfolding dt [OF n] du [OF n] fs by simp
  qed
  have alloc: "allocated (tHeap t') = allocated (tHeap t)" "allocated (tHeap u') = allocated (tHeap t)"
    using t' u' dom by simp_all
  have "tHeap t' = tHeap u'"
    using nodes alloc by (rule heap_ext)
  moreover have "tTraceID t' = tTraceID u' \<and> tIDs t' = tIDs u' \<and> tCycles t' = tCycles u'"
    using t' u' al by (simp add: alike_def)
  ultimately show ?thesis
    using ft(1) fu(1) lists by simp
qed

lemma buildOver_finish:
  "buildOver order h tid phase
   = (case breakCycles (foldl (linkNode (if phase = Sealed then Lost else Awaited)) (startTree h tid) order) of
        None \<Rightarrow> None | Some t \<Rightarrow> finish t)"
  by (simp only: buildOver_def startTree_def finish_def Let_def)

lemma broken_finishable:
  assumes "linked t" "broken_from t t'" "heap_ok (tHeap t')" "roots_ok t'"
  shows "finishable t'"
proof -
  have "par (tHeap t') p = None \<and> kids (tHeap t') p \<noteq> []" if "p \<in> set (tMissing t)" for p
  proof -
    have p: "par (tHeap t) p = None" "kids (tHeap t) p \<noteq> []"
      using that assms(1) by (auto simp: linked_def)
    then have "rooted (par (tHeap t)) p" by (intro rooted.root)
    with p assms(2) show ?thesis by (simp add: broken_from_def)
  qed
  then show ?thesis
    using assms by (simp add: finishable_def linked_def broken_from_def)
qed

lemma linking_alike:
  assumes "fresh h" "isOrder h xs" "isOrder h ys"
  shows "alike (foldl (linkNode absent) (startTree h tid) xs) (foldl (linkNode absent) (startTree h tid) ys)"
proof -
  let ?t = "foldl (linkNode absent) (startTree h tid) xs" and ?u = "foldl (linkNode absent) (startTree h tid) ys"
  have t: "linking h absent tid xs ?t" "linked ?t" and u: "linking h absent tid ys ?u" "linked ?u"
    using linking_all linking_linked assms by blast+
  have w: "wanted h xs = wanted h ys" "set xs = set ys"
    using assms(2,3) by (auto simp: wanted_def isOrder_def)
  have "fmdom (tHeap ?t) = fmdom (tHeap ?u)"
    using t(1) u(1) w by (simp add: linking_def fset_inject [symmetric])
  with t u w show ?thesis
    by (simp add: alike_def linking_def linked_def)
qed

lemma buildOver_steps:
  assumes "fresh h" "isOrder h order" "absent = (if phase = Sealed then Lost else Awaited)"
    "t = foldl (linkNode absent) (startTree h tid) order"
  shows "\<exists>t1 t2. breakCycles t = Some t1 \<and> buildOver order h tid phase = Some t2 \<and> broken_from t t1
    \<and> finishable t1 \<and> finished t1 t2 \<and> (\<forall>n. rooted (par (tHeap t1)) n)"
proof -
  have lk: "linked t"
    using linking_linked [OF linking_all [OF assms(1,2)] assms(1,2)] assms(4) by simp
  obtain t1 where t1: "breakCycles t = Some t1" "broken_from t t1" "heap_ok (tHeap t1)" "roots_ok t1"
    "\<forall>n. rooted (par (tHeap t1)) n"
    using breakCycles_rooted [OF lk] by blast
  then have fin: "finishable t1" using broken_finishable [OF lk] by blast
  then obtain t2 where "finish t1 = Some t2" "finished t1 t2" using finish_eq by blast
  then show ?thesis
    using t1 fin assms(3,4) unfolding buildOver_finish by (intro exI [of _ t1] exI [of _ t2]) simp
qed

lemma buildOver_any_order:
  assumes "fresh h" "isOrder h xs" "isOrder h ys"
  shows "buildOver xs h tid phase = buildOver ys h tid phase"
proof -
  define absent where "absent = (if phase = Sealed then Lost else Awaited)"
  let ?t = "foldl (linkNode absent) (startTree h tid) xs" and ?u = "foldl (linkNode absent) (startTree h tid) ys"
  have al: "alike ?t ?u" using linking_alike [OF assms] .
  have "tIDs ?t |\<subseteq>| fmdom (tHeap ?t)"
    using linking_linked [OF linking_all [OF assms(1,2)] assms(1,2)] by (simp add: linked_def)
  then obtain t1 u1 where 1: "breakCycles ?t = Some t1" "breakCycles ?u = Some u1" "alike t1 u1"
    using breakCycles_alike [OF al] by blast
  have "finishable t1" "finishable u1"
    using buildOver_steps [OF assms(1,2) absent_def HOL.refl, of tid] buildOver_steps [OF assms(1,3) absent_def HOL.refl, of tid] 1(1,2)
    by auto
  then have "finish t1 = finish u1" using finish_alike [OF 1(3)] by blast
  with 1(1,2) show ?thesis
    unfolding buildOver_finish absent_def by simp
qed

subsection \<open>The tree\<close>

text \<open>What a caller can rely on: the nodes, their links, the order of everything, and that each
  node is below exactly one root.\<close>

definition tree_ok :: "Tree \<Rightarrow> bool" where
  "tree_ok t \<longleftrightarrow> heap_ok (tHeap t) \<and> (\<forall>n. rooted (par (tHeap t)) n)
     \<and> allocated (tHeap t) = fset (tIDs t) \<union> set (tMissing t) \<and> fset (tIDs t) \<inter> set (tMissing t) = {}
     \<and> set (tRoots t) = {n \<in> allocated (tHeap t). par (tHeap t) n = None}
     \<and> sorted_wrt (\<lambda>a b. byStart (tHeap t) a b < 0) (tRoots t)
     \<and> sorted_wrt (\<lambda>a b. byStart (tHeap t) a b < 0) (tMissing t)
     \<and> (\<forall>n. sorted_wrt (\<lambda>a b. byStart (tHeap t) a b < 0) (kids (tHeap t) n))"

lemma finished_tree_ok:
  assumes fin: "finishable t" and f: "finished t t'" and r: "\<forall>n. rooted (par (tHeap t)) n"
  shows "tree_ok t'" "par (tHeap t') = par (tHeap t)"
proof -
  note t' = f [unfolded finished_def]
  have d: "deref (tHeap t') n = (deref (tHeap t) n)\<lparr>nSpan := finalSpan t n, nChildren := sortFunc (finalOrder t) (kids (tHeap t) n)\<rparr>"
    if "n \<in> allocated (tHeap t)" for n
    using that t' by simp
  have un: "deref (tHeap t') n = deref (tHeap t) n" if "n \<notin> allocated (tHeap t)" for n
    using that t' deref_unallocated [of n] by simp
  have dom: "allocated (tHeap t') = allocated (tHeap t)" using t' by simp
  show par: "par (tHeap t') = par (tHeap t)"
  proof
    fix n show "par (tHeap t') n = par (tHeap t) n"
      using d [of n] un [of n] by (cases "n \<in> allocated (tHeap t)") simp_all
  qed
  have kids: "kids (tHeap t') n = sortFunc (finalOrder t) (kids (tHeap t) n)" for n
    using d [of n] un [of n] by (cases "n \<in> allocated (tHeap t)") (simp_all add: deref_unallocated newNode_def)
  have ok: "heap_ok (tHeap t)" "roots_ok t" using fin by (auto simp: finishable_def)
  have ids: "sSpanID (spanOf (tHeap t') n) = n" if "n \<in> allocated (tHeap t)" for n
    using that d ok(1) by (simp add: sSpanID_finalSpan heap_ok_def)
  have order: "byStart (tHeap t') = finalOrder t" using t' by simp
  have sorted: "sorted_wrt (\<lambda>a b. byStart (tHeap t') a b < 0) (sortFunc (finalOrder t) xs)"
    if "distinct xs" "set xs \<subseteq> allocated (tHeap t)" for xs
    using sort_byStart_strict [OF that(1), of "tHeap t'"] ids that(2) order by auto
  have par_app: "nParent (deref (tHeap t') n) = nParent (deref (tHeap t) n)" for n
    using par by meson
  have heap: "heap_ok (tHeap t')"
    using ok(1) ids dom unfolding heap_ok_def by (simp add: par_app kids)
  have "distinct (kids (tHeap t) n) \<and> set (kids (tHeap t) n) \<subseteq> allocated (tHeap t)" for n
    using ok(1) kids_allocated by (simp add: heap_ok_def)
  then have skids: "\<forall>n. sorted_wrt (\<lambda>a b. byStart (tHeap t') a b < 0) (kids (tHeap t') n)"
    unfolding kids using sorted by blast
  have sroots: "sorted_wrt (\<lambda>a b. byStart (tHeap t') a b < 0) (tRoots t')"
    using t' sorted [of "tRoots t"] ok(2) by (auto simp: roots_ok_def)
  have smiss: "sorted_wrt (\<lambda>a b. byStart (tHeap t') a b < 0) (tMissing t')"
    using t' sorted [of "tMissing t"] fin by (auto simp: finishable_def)
  have sets: "set (tMissing t') = allocated (tHeap t) - fset (tIDs t')" "fset (tIDs t') \<subseteq> allocated (tHeap t)"
    "set (tRoots t') = {n \<in> allocated (tHeap t). par (tHeap t) n = None}"
    using t' fin by (auto simp: finishable_def roots_ok_def less_eq_fset.rep_eq)
  show "tree_ok t'"
    unfolding tree_ok_def par dom using heap r skids sroots smiss sets by (auto simp: par_app)
qed

end
