(* ===== verification/Assembly_Props.thy ===== *)
theory Assembly_Props
  imports Assembly_Correct
begin

section \<open>Assembling a trace: walking, and the properties\<close>

text \<open>The visiting order of \<open>Walk\<close>, and the properties of \<open>Build\<close> and \<open>Walk\<close>.\<close>

subsection \<open>Walking\<close>

fun visits :: "nat \<Rightarrow> heap \<Rightarrow> SpanID \<Rightarrow> nat \<Rightarrow> (SpanID \<times> nat) list" where
  "visits 0 h n depth = []"
| "visits (Suc k) h n depth = (n, depth) # concat (map (\<lambda>c. visits k h c (depth + 1)) (kids h n))"

fun runVisits :: "'s visitor \<Rightarrow> (SpanID \<times> nat) list \<Rightarrow> 's \<Rightarrow> bool \<times> 's" where
  "runVisits fn [] s = (True, s)"
| "runVisits fn ((n, depth) # vs) s =
     (case fn s n depth of (False, s) \<Rightarrow> (False, s) | (True, s) \<Rightarrow> runVisits fn vs s)"

lemma runVisits_append:
  "runVisits fn (vs @ ws) s = (case runVisits fn vs s of (False, s) \<Rightarrow> (False, s) | (True, s) \<Rightarrow> runVisits fn ws s)"
  by (induction fn vs s rule: runVisits.induct) (auto split: prod.splits bool.splits)

lemma walkList_visits:
  assumes "\<And>c s. c \<in> set cs \<Longrightarrow> walk k h fn c depth s = Some (runVisits fn (visits k h c depth) s)"
  shows "walkList k h fn cs depth s = Some (runVisits fn (concat (map (\<lambda>c. visits k h c depth) cs)) s)"
  using assms
proof (induction cs arbitrary: s)
  case (Cons c cs)
  then show ?case by (auto simp: runVisits_append split: prod.splits bool.splits)
qed simp

lemma child_card:
  assumes "heap_ok h" "rooted (par h) n" "c \<in> set (kids h n)" "card {y. below (par h) y n} \<le> Suc k"
  shows "card {y. below (par h) y c} \<le> k"
proof -
  have "distinct (kids h n)" "set (kids h n) = {c. par h c = Some n}"
    using assms(1) by (auto simp: heap_ok_def)
  from card_below [OF assms(2) this finite_below]
  have "card {y. below (par h) y n} = Suc (\<Sum>c \<leftarrow> kids h n. card {y. below (par h) y c})" .
  moreover have "card {y. below (par h) y c} \<le> (\<Sum>c \<leftarrow> kids h n. card {y. below (par h) y c})"
    using assms(3) by (intro member_le_sum_list) auto
  ultimately show ?thesis using assms(4) by linarith
qed

lemma below_pos: "0 < card {y. below (par h) y n}"
  using finite_below [of h n] below.refl [of "par h" n] by (auto simp: card_gt_0_iff)

lemma walk_visits:
  assumes "heap_ok h" "rooted (par h) n" "card {y. below (par h) y n} \<le> k"
  shows "walk k h fn n depth s = Some (runVisits fn (visits k h n depth) s)"
  using assms(2,3)
proof (induction k arbitrary: n depth s)
  case 0
  then show ?case using below_pos [of h n] by simp
next
  case (Suc k)
  have "walk k h fn c (depth + 1) s = Some (runVisits fn (visits k h c (depth + 1)) s)" if c: "c \<in> set (kids h n)" for c s
  proof (rule Suc.IH)
    have "par h c = Some n" using c assms(1) by (simp add: heap_ok_def)
    then show "rooted (par h) c" using Suc.prems(1) rooted.up by metis
  qed (rule child_card [OF assms(1) Suc.prems(1) c Suc.prems(2)])
  from walkList_visits [of "kids h n" k h fn "depth + 1", OF this]
  show ?case by (auto split: prod.splits bool.splits)
qed

lemma distinct_concat_map:
  assumes "distinct ks" "\<And>c. c \<in> set ks \<Longrightarrow> distinct (v c)"
    and "\<And>c d. c \<in> set ks \<Longrightarrow> d \<in> set ks \<Longrightarrow> c \<noteq> d \<Longrightarrow> set (v c) \<inter> set (v d) = {}"
  shows "distinct (concat (map v ks))"
  using assms
proof (induction ks)
  case (Cons k ks)
  have "set (v k) \<inter> (\<Union>d \<in> set ks. set (v d)) = {}"
    using Cons.prems(1,3) by fastforce
  with Cons show ?case by simp
qed simp

lemma set_visits:
  assumes "heap_ok h" "rooted (par h) n" "card {y. below (par h) y n} \<le> k"
  shows "set (map fst (visits k h n depth)) = {y. below (par h) y n} \<and> distinct (map fst (visits k h n depth))"
  using assms(2,3)
proof (induction k arbitrary: n depth)
  case 0
  then show ?case using below_pos [of h n] by simp
next
  case (Suc k)
  have kids: "distinct (kids h n)" "set (kids h n) = {c. par h c = Some n}"
    using assms(1) by (auto simp: heap_ok_def)
  let ?v = "\<lambda>c. map fst (visits k h c (depth + 1))"
  have IH: "set (?v c) = {y. below (par h) y c} \<and> distinct (?v c)" if c: "c \<in> set (kids h n)" for c
  proof (rule Suc.IH)
    have "par h c = Some n" using c kids by simp
    then show "rooted (par h) c" using Suc.prems(1) rooted.up by metis
  qed (rule child_card [OF assms(1) Suc.prems(1) c Suc.prems(2)])
  have "set (concat (map ?v (kids h n))) = (\<Union>c \<in> set (kids h n). {y. below (par h) y c})"
    using IH by auto
  moreover have "distinct (concat (map ?v (kids h n)))"
    using kids IH children_disjoint [OF Suc.prems(1)] by (intro distinct_concat_map) auto
  moreover have "n \<notin> (\<Union>c \<in> set (kids h n). {y. below (par h) y c})"
    using child_not_above [OF Suc.prems(1)] kids by auto
  moreover have "map fst (visits (Suc k) h n depth) = n # concat (map ?v (kids h n))"
    by (simp add: map_concat comp_def)
  ultimately show ?case
    using below_split [of "par h" n] kids(2) by simp
qed

text \<open>The visiting order of the whole tree.\<close>

definition visitsTree :: "Tree \<Rightarrow> (SpanID \<times> nat) list" where
  "visitsTree t = concat (map (\<lambda>r. visits (mapLen (tHeap t)) (tHeap t) r 0) (tRoots t))"

lemma strictly_sorted_distinct: "sorted_wrt (\<lambda>a b. byStart h a b < 0) xs \<Longrightarrow> distinct xs"
proof (induction xs)
  case (Cons x xs)
  have "byStart h x x = 0" by (rule comparator.self [OF comparator_byStart])
  with Cons show ?case by force
qed simp

lemma walk_tree:
  assumes "tree_ok t"
  shows "Walk fn t s = Some (snd (runVisits fn (visitsTree t) s))"
    "distinct (map fst (visitsTree t))" "set (map fst (visitsTree t)) = allocated (tHeap t)"
proof -
  let ?h = "tHeap t" and ?k = "mapLen (tHeap t)"
  have ok: "heap_ok ?h" "\<And>n. rooted (par ?h) n" "set (tRoots t) = {n \<in> allocated ?h. par ?h n = None}"
    and d: "distinct (tRoots t)"
    using assms strictly_sorted_distinct by (auto simp: tree_ok_def)
  have card: "card {y. below (par ?h) y r} \<le> ?k" if "r \<in> set (tRoots t)" for r
    using that ok(3) by (intro card_below_le) simp
  have "walkList ?k ?h fn (tRoots t) 0 s = Some (runVisits fn (visitsTree t) s)"
    unfolding visitsTree_def by (intro walkList_visits walk_visits ok card)
  then show "Walk fn t s = Some (snd (runVisits fn (visitsTree t) s))" by (simp add: Walk_def)
  let ?v = "\<lambda>r. map fst (visits ?k ?h r 0)"
  have v: "set (?v r) = {y. below (par ?h) y r} \<and> distinct (?v r)" if "r \<in> set (tRoots t)" for r
    using set_visits [OF ok(1,2) card [OF that]] .
  have vt: "map fst (visitsTree t) = concat (map ?v (tRoots t))"
    by (simp add: visitsTree_def map_concat comp_def)
  have "set (?v r) \<inter> set (?v q) = {}" if rq: "r \<in> set (tRoots t)" "q \<in> set (tRoots t)" "r \<noteq> q" for r q
  proof -
    have "False" if "below (par ?h) y r" "below (par ?h) y q" for y
    proof -
      have "par ?h r = None" "par ?h q = None" using rq ok(3) by auto
      with below_linear [OF that] rq(3) show False by (auto elim: below_cases)
    qed
    with v [OF rq(1)] v [OF rq(2)] show ?thesis by blast
  qed
  then show "distinct (map fst (visitsTree t))"
    unfolding vt using d v by (intro distinct_concat_map) auto
  have "roots_ok t" using d ok(3) by (simp add: roots_ok_def)
  from rootedIn_roots [OF ok(1) this] have "allocated ?h = (\<Union>r \<in> set (tRoots t). {y. below (par ?h) y r})"
    using ok(2) by (simp add: rootedIn_def)
  moreover have "set (map fst (visitsTree t)) = (\<Union>r \<in> set (tRoots t). set (?v r))"
    unfolding vt by simp
  ultimately show "set (map fst (visitsTree t)) = allocated ?h"
    using v by simp
qed

subsection \<open>What Build returns\<close>

definition linkOf :: "Span list \<Rightarrow> SpanID \<Rightarrow> SpanID option" where
  "linkOf spans n = (case lastSpan spans n of
      None \<Rightarrow> None | Some s \<Rightarrow> if IsRoot s then None else Some (sParentSpanID s))"

definition oneTrace :: "Span list \<Rightarrow> bool" where
  "oneTrace spans \<longleftrightarrow> spans \<noteq> [] \<and> (\<forall>s \<in> set spans. sTraceID s = sTraceID (hd spans))"

lemma isOrder_mapKeys: "isOrder h (mapKeys h)"
  by (simp add: isOrder_def mapKeys_def)

lemma Build_oneTrace:
  assumes "oneTrace spans"
  shows "Build spans phase = map_option Inr (buildOver (mapKeys (spanHeap spans)) (spanHeap spans) (sTraceID (hd spans)) phase)"
proof -
  have "find (\<lambda>s. sTraceID s \<noteq> sTraceID (hd spans)) spans = None"
    unfolding find_None_iff using assms unfolding oneTrace_def by blast
  then have "collect (sTraceID (hd spans)) spans fmempty = Inr (spanHeap spans)"
    by (simp add: collect_eq spanHeap_def)
  moreover obtain s ss where "spans = s # ss" using assms by (cases spans) (auto simp: oneTrace_def)
  ultimately show ?thesis
    unfolding Build_def by (simp only: list.case list.sel sum.case)
qed

lemma target_spanHeap: "n \<in> allocated (spanHeap ss) \<Longrightarrow> target (spanHeap ss) n = linkOf ss n"
proof -
  assume "n \<in> allocated (spanHeap ss)"
  then obtain s where "lastSpan ss n = Some s"
    using unallocated_iff [of "spanHeap ss" n] by (auto simp: lookup_spanHeap)
  then show ?thesis by (simp add: target_def linkOf_def deref_spanHeap newNode_def)
qed

lemma lastSpan_None: "lastSpan ss n = None \<longleftrightarrow> n \<notin> allocated (spanHeap ss)"
  using unallocated_iff [of "spanHeap ss" n] by (simp add: lookup_spanHeap)

text \<open>The tree against the spans it was built from.\<close>

definition built_from :: "Span list \<Rightarrow> Phase \<Rightarrow> Tree \<Rightarrow> bool" where
  "built_from spans phase t \<longleftrightarrow>
     tTraceID t = sTraceID (hd spans) \<and> fset (tIDs t) = sSpanID ` set spans
     \<and> (\<forall>n s. lastSpan spans n = Some s \<longrightarrow> spanOf (tHeap t) n = s \<and> nPresence (deref (tHeap t) n) = Received)
     \<and> (\<forall>n. par (tHeap t) n = (if n \<in> set (tCycles t) then None else linkOf spans n))
     \<and> (\<forall>n. nCycleBroken (deref (tHeap t) n) \<longleftrightarrow> n \<in> set (tCycles t))
     \<and> (\<forall>n \<in> set (tCycles t). \<not> rooted (linkOf spans) n)
     \<and> set (tMissing t) = {p. lastSpan spans p = None \<and> (\<exists>n. linkOf spans n = Some p)}
     \<and> (\<forall>p \<in> set (tMissing t). nPresence (deref (tHeap t) p) = (if phase = Sealed then Lost else Awaited)
          \<and> sStart (spanOf (tHeap t) p) = Min (starts (tHeap t) (kids (tHeap t) p))
          \<and> sEnd (spanOf (tHeap t) p) = Max (ends (tHeap t) (kids (tHeap t) p)))"

lemma target_linkOf: "(if n \<in> allocated (spanHeap spans) then target (spanHeap spans) n else None) = linkOf spans n"
proof -
  have "n \<notin> allocated (spanHeap spans) \<Longrightarrow> linkOf spans n = None"
    unfolding lastSpan_None [symmetric] by (simp add: linkOf_def)
  then show ?thesis using target_spanHeap [of n spans] by (cases "n \<in> allocated (spanHeap spans)") simp_all
qed

lemma wanted_spanHeap:
  assumes "set order = allocated (spanHeap spans)"
  shows "wanted (spanHeap spans) order = {p. lastSpan spans p = None \<and> (\<exists>n. linkOf spans n = Some p)}"
proof -
  have "linkOf spans n = Some p \<Longrightarrow> n \<in> allocated (spanHeap spans)" for n p
    using lastSpan_None [of spans n] by (auto simp: linkOf_def split: option.splits)
  then show ?thesis
    unfolding wanted_def assms lastSpan_None using target_spanHeap [of _ spans] by auto
qed

text \<open>The linked tree, before cycles are broken.\<close>

lemma linking_spanHeap:
  assumes "linking (spanHeap spans) absent tid order t0" "set order = allocated (spanHeap spans)"
  shows "par (tHeap t0) n = linkOf spans n" "\<not> nCycleBroken (deref (tHeap t0) n)"
    "lastSpan spans n = Some s \<Longrightarrow> spanOf (tHeap t0) n = s \<and> nPresence (deref (tHeap t0) n) = Received"
    "n \<in> wanted (spanHeap spans) order \<Longrightarrow> nPresence (deref (tHeap t0) n) = absent"
proof -
  let ?h = "spanHeap spans"
  have d0: "deref (tHeap t0) n = (if n \<in> wanted ?h order then placeholder absent tid n else deref ?h n)
      \<lparr>nParent := (if n \<in> set order then target ?h n else None), nChildren := filter (\<lambda>c. target ?h c = Some n) order\<rparr>"
    using assms(1) by (simp add: linking_def)
  show "par (tHeap t0) n = linkOf spans n"
    unfolding d0 assms(2) target_linkOf [symmetric] by simp
  have "\<not> nCycleBroken (deref ?h n)"
    using fresh_spanHeap [of spans] deref_unallocated [of n ?h]
    by (cases "n \<in> allocated ?h") (auto simp: fresh_def newNode_def)
  then show "\<not> nCycleBroken (deref (tHeap t0) n)"
    unfolding d0 by (simp add: placeholder_def newNode_def)
  show "spanOf (tHeap t0) n = s \<and> nPresence (deref (tHeap t0) n) = Received" if "lastSpan spans n = Some s"
  proof -
    have "n \<notin> wanted ?h order" using that lastSpan_None [of spans n] by (auto simp: wanted_def)
    then show ?thesis using deref_spanHeap [OF that] by (simp add: d0 newNode_def)
  qed
  show "nPresence (deref (tHeap t0) n) = absent" if "n \<in> wanted ?h order"
    using that by (simp add: d0 placeholder_def)
qed

text \<open>A placeholder ends with the envelope of its children.\<close>

lemma finished_placeholder:
  assumes "finishable t1" "finished t1 t" "p \<in> set (tMissing t1)" "p \<in> allocated (tHeap t1)"
  shows "sStart (spanOf (tHeap t) p) = Min (starts (tHeap t) (kids (tHeap t) p))"
    "sEnd (spanOf (tHeap t) p) = Max (ends (tHeap t) (kids (tHeap t) p))"
proof -
  have dt: "deref (tHeap t) n = (deref (tHeap t1) n)\<lparr>nSpan := finalSpan t1 n, nChildren := sortFunc (finalOrder t1) (kids (tHeap t1) n)\<rparr>"
    if "n \<in> allocated (tHeap t1)" for n
    using that assms(2) unfolding finished_def by blast
  have kids: "set (kids (tHeap t) p) = set (kids (tHeap t1) p)" using dt [OF assms(4)] by simp
  have span: "spanOf (tHeap t) c = spanOf (tHeap t1) c" if "c \<in> set (kids (tHeap t1) p)" for c
  proof -
    have "par (tHeap t1) c = Some p" using that assms(1) by (simp add: finishable_def heap_ok_def)
    moreover from this have "c \<in> allocated (tHeap t1)" by (rule par_allocated)
    moreover have "\<forall>q \<in> set (tMissing t1). par (tHeap t1) q = None"
      using assms(1) unfolding finishable_def by blast
    ultimately have "c \<in> allocated (tHeap t1)" "c \<notin> set (tMissing t1)" by auto
    then show ?thesis using dt by (simp add: finalSpan_def)
  qed
  have "starts (tHeap t) (kids (tHeap t) p) = starts (tHeap t1) (kids (tHeap t1) p)"
    "ends (tHeap t) (kids (tHeap t) p) = ends (tHeap t1) (kids (tHeap t1) p)"
    unfolding starts_def ends_def kids using span by (auto intro!: image_cong)
  moreover have "spanOf (tHeap t) p = enveloped (tHeap t1) p"
    using dt [OF assms(4)] assms(3) by (simp add: finalSpan_def)
  ultimately show "sStart (spanOf (tHeap t) p) = Min (starts (tHeap t) (kids (tHeap t) p))"
    "sEnd (spanOf (tHeap t) p) = Max (ends (tHeap t) (kids (tHeap t) p))" by (simp_all add: enveloped_def)
qed

lemma buildOver_built:
  assumes "oneTrace spans" "isOrder (spanHeap spans) order"
  shows "\<exists>t. buildOver order (spanHeap spans) (sTraceID (hd spans)) phase = Some t \<and> tree_ok t \<and> built_from spans phase t"
proof -
  let ?h = "spanHeap spans" and ?tid = "sTraceID (hd spans)"
  define absent where "absent = (if phase = Sealed then Lost else Awaited)"
  define t0 where "t0 = foldl (linkNode absent) (startTree ?h ?tid) order"
  have link: "linking ?h absent ?tid order t0"
    unfolding t0_def by (rule linking_all [OF fresh_spanHeap assms(2)])
  obtain t1 t where b: "broken_from t0 t1" and fin: "finishable t1" "finished t1 t" and r: "\<forall>n. rooted (par (tHeap t1)) n"
    and t: "buildOver order ?h ?tid phase = Some t"
    using buildOver_steps [OF fresh_spanHeap assms(2) absent_def t0_def] by blast
  note ft = finished_tree_ok [OF fin r]
  have ord: "set order = allocated ?h" using assms(2) by (simp add: isOrder_def)
  note l0 = linking_spanHeap [OF link ord] and b' = b [unfolded broken_from_def] and f' = fin(2) [unfolded finished_def]
  have dom: "allocated (tHeap t1) = allocated ?h \<union> wanted ?h order"
    using b' link by (simp add: linking_def)
  have dt: "deref (tHeap t) n = (deref (tHeap t1) n)\<lparr>nSpan := finalSpan t1 n, nChildren := sortFunc (finalOrder t1) (kids (tHeap t1) n)\<rparr>"
    if "n \<in> allocated (tHeap t1)" for n
    using that f' by blast
  have "set (tMissing t0) = wanted ?h order" using link by (simp add: linking_def)
  then have miss: "set (tMissing t) = wanted ?h order" "set (tMissing t1) = wanted ?h order" "tCycles t = tCycles t1"
    using f' b' by simp_all
  have received: "spanOf (tHeap t) n = s \<and> nPresence (deref (tHeap t) n) = Received" if "lastSpan spans n = Some s" for n s
  proof -
    have n: "n \<in> allocated ?h" using that lastSpan_None [of spans n] by auto
    then have "finalSpan t1 n = spanOf (tHeap t1) n" using miss(2) by (simp add: finalSpan_def wanted_def)
    then show ?thesis using dt [of n] n dom b' l0(3) [OF that] by simp
  qed
  have links: "par (tHeap t) n = (if n \<in> set (tCycles t) then None else linkOf spans n)" for n
    using b' l0(1) miss(3) fun_cong [OF ft(2), of n] by simp
  have cycleFlags: "nCycleBroken (deref (tHeap t) n) \<longleftrightarrow> n \<in> set (tCycles t)" for n
  proof -
    have "nCycleBroken (deref (tHeap t) n) = nCycleBroken (deref (tHeap t1) n)"
      using dt [of n] f' deref_unallocated [of n "tHeap t"] deref_unallocated [of n "tHeap t1"]
      by (cases "n \<in> allocated (tHeap t1)") simp_all
    then show ?thesis using l0(2) b' miss(3) by simp
  qed
  have cycles: "\<not> rooted (linkOf spans) n" if "n \<in> set (tCycles t)" for n
    using that b' miss(3) l0(1) by simp
  have missing: "nPresence (deref (tHeap t) p) = absent
      \<and> sStart (spanOf (tHeap t) p) = Min (starts (tHeap t) (kids (tHeap t) p))
      \<and> sEnd (spanOf (tHeap t) p) = Max (ends (tHeap t) (kids (tHeap t) p))" if p: "p \<in> wanted ?h order" for p
    using finished_placeholder [OF fin, of p] dt [of p] b' l0(4) [OF p] p miss(2) dom by simp
  have "tTraceID t = ?tid" "fset (tIDs t) = sSpanID ` set spans"
    using f' b' link allocated_spanHeap [of spans] by (simp_all add: linking_def)
  then have "built_from spans phase t"
    unfolding built_from_def miss(1)
    using received links cycleFlags cycles missing wanted_spanHeap [OF ord] absent_def by blast
  with t ft(1) show ?thesis by blast
qed

lemma lastSpan_perm:
  assumes "distinct (map sSpanID ss)" "mset ss = mset ts"
  shows "lastSpan ss n = lastSpan ts n"
proof -
  let ?xs = "filter (\<lambda>s. sSpanID s = n) ss" and ?ys = "filter (\<lambda>s. sSpanID s = n) ts"
  have eq: "mset ?xs = mset ?ys"
    using assms(2) by simp
  have "length ?xs \<le> 1"
    using assms(1) by (induction ss) (auto simp: filter_empty_conv image_iff)
  moreover have "length ?ys = length ?xs"
    using eq mset_eq_length by metis
  ultimately have "?xs = ?ys"
    using eq by (cases ?xs; cases ?ys) simp_all
  then show ?thesis by (simp add: lastSpan_def)
qed

lemma spanHeap_perm:
  assumes "distinct (map sSpanID ss)" "mset ss = mset ts"
  shows "spanHeap ss = spanHeap ts"
  by (rule fmap_ext) (simp add: lookup_spanHeap lastSpan_perm [OF assms])

lemma Build_exists:
  assumes "oneTrace spans"
  shows "\<exists>t. Build spans phase = Some (Inr t)"
  using buildOver_built [OF assms isOrder_mapKeys, of phase] unfolding Build_oneTrace [OF assms] by auto

lemma Build_tree_ok:
  assumes "Build spans phase = Some (Inr t)"
  shows "tree_ok t \<and> built_from spans phase t"
proof (cases spans)
  case Nil
  with assms show ?thesis by (simp add: Build_def)
next
  case (Cons s ss)
  have "find (\<lambda>s'. sTraceID s' \<noteq> sTraceID s) spans = None"
  proof (rule ccontr)
    assume "find (\<lambda>s'. sTraceID s' \<noteq> sTraceID s) spans \<noteq> None"
    then obtain e where "collect (sTraceID s) spans fmempty = Inl e"
      by (auto simp: collect_eq)
    with assms show False unfolding Build_def Cons by simp
  qed
  then have one: "oneTrace spans"
    unfolding find_None_iff oneTrace_def using Cons by auto
  from buildOver_built [OF one isOrder_mapKeys, of phase] assms show ?thesis
    unfolding Build_oneTrace [OF one] by auto
qed

subsection \<open>Properties\<close>

text \<open>C6: \<open>Build\<close> makes a tree of every trace. For spans of one trace it returns, however broken the
  parent links are: each received span is a node with its last copy, each parent that some
  span names and that did not arrive is a placeholder with the envelope of its children, links
  are cut only where following them never ends, children lists are the inverse of the parent
  links, everything is sorted, and following parents ends from every node. Otherwise it
  reports the error.\<close>

theorem Build_tree:
  "case spans of
     [] \<Rightarrow> Build spans phase = Some (Inl ErrNoSpans)
   | s # _ \<Rightarrow> (case find (\<lambda>s'. sTraceID s' \<noteq> sTraceID s) spans of
        Some s' \<Rightarrow> Build spans phase = Some (Inl (ErrMixedTraces (sTraceID s) (sTraceID s')))
      | None \<Rightarrow> (\<exists>t. Build spans phase = Some (Inr t) \<and> tree_ok t \<and> built_from spans phase t))"
proof (cases spans)
  case (Cons s ss)
  show ?thesis
  proof (cases "find (\<lambda>s'. sTraceID s' \<noteq> sTraceID s) spans")
    case None
    then have one: "oneTrace spans"
      unfolding find_None_iff oneTrace_def using Cons by auto
    obtain t where "buildOver (mapKeys (spanHeap spans)) (spanHeap spans) (sTraceID (hd spans)) phase = Some t"
      "tree_ok t" "built_from spans phase t"
      using buildOver_built [OF one isOrder_mapKeys] by blast
    then have "\<exists>t. Build spans phase = Some (Inr t) \<and> tree_ok t \<and> built_from spans phase t"
      unfolding Build_oneTrace [OF one] by simp
    with Cons None show ?thesis by simp
  next
    case (Some s')
    then have "collect (sTraceID s) spans fmempty = Inl (ErrMixedTraces (sTraceID s) (sTraceID s'))"
      by (simp add: collect_eq)
    then have "Build spans phase = Some (Inl (ErrMixedTraces (sTraceID s) (sTraceID s')))"
      unfolding Build_def Cons by simp
    with Cons Some show ?thesis by simp
  qed
qed (simp add: Build_def)

text \<open>C30: the tree does not depend on the order in which Go ranges over its maps, nor on the order
  of the spans when no identifier is repeated.\<close>

theorem Build_order_independent:
  assumes "oneTrace spans" "distinct (map sSpanID spans)" "mset spans' = mset spans"
    and "isOrder (spanHeap spans) order"
  shows "Build spans' phase = Build spans phase
    \<and> Build spans phase = map_option Inr (buildOver order (spanHeap spans) (sTraceID (hd spans)) phase)"
proof -
  have ne: "spans \<noteq> []" "spans' \<noteq> []" using assms(1,3) by (auto simp: oneTrace_def)
  have tid: "\<And>s. s \<in> set spans \<Longrightarrow> sTraceID s = sTraceID (hd spans)"
    using assms(1) unfolding oneTrace_def by blast
  have sets: "set spans' = set spans" using assms(3) by (metis set_mset_mset)
  then have hd: "sTraceID (hd spans') = sTraceID (hd spans)" using tid ne(2) by (metis hd_in_set)
  then have one: "oneTrace spans'" using tid sets ne(2) unfolding oneTrace_def by metis
  have heap: "spanHeap spans' = spanHeap spans"
    using spanHeap_perm [OF assms(2), of spans'] assms(3) by simp
  have "Build spans' phase = Build spans phase"
    unfolding Build_oneTrace [OF one] Build_oneTrace [OF assms(1)] heap hd ..
  moreover have "buildOver (mapKeys (spanHeap spans)) (spanHeap spans) (sTraceID (hd spans)) phase
      = buildOver order (spanHeap spans) (sTraceID (hd spans)) phase"
    by (rule buildOver_any_order [OF fresh_spanHeap isOrder_mapKeys assms(4)])
  ultimately show ?thesis
    unfolding Build_oneTrace [OF assms(1)] by simp
qed

theorem Build_order_independent_witness:
  "Build [exampleSpan 1 3 2 6 8, exampleSpan 1 2 0 5 9] Sealed = Build [exampleSpan 1 2 0 5 9, exampleSpan 1 3 2 6 8] Sealed"
proof -
  let ?ss = "[exampleSpan 1 2 0 5 9, exampleSpan 1 3 2 6 8]"
  have "oneTrace ?ss" "distinct (map sSpanID ?ss)"
    by (simp_all add: oneTrace_def exampleSpan_def exampleID_def)
  from Build_order_independent [OF this _ isOrder_mapKeys, of "[exampleSpan 1 3 2 6 8, exampleSpan 1 2 0 5 9]" Sealed]
  show ?thesis by simp
qed

text \<open>C31: \<open>Walk\<close> returns and visits every node of a built tree exactly once, placeholders
  included, until the visitor says stop.\<close>

theorem Walk_visits_once:
  assumes "Build spans phase = Some (Inr t)"
  shows "Walk fn t s = Some (snd (runVisits fn (visitsTree t) s))
    \<and> distinct (map fst (visitsTree t)) \<and> set (map fst (visitsTree t)) = fset (tIDs t) \<union> set (tMissing t)"
proof -
  have "tree_ok t"
    using Build_tree_ok [OF assms] by blast
  from walk_tree [OF this] this show ?thesis by (simp add: tree_ok_def)
qed

theorem Walk_visits_once_witness:
  "\<exists>t. Build [exampleSpan 1 3 2 6 8] Open = Some (Inr t)
    \<and> Walk (\<lambda>s n depth. (True, s + 1)) t (0 :: nat) = Some (snd (runVisits (\<lambda>s n depth. (True, s + 1)) (visitsTree t) 0))
    \<and> set (map fst (visitsTree t)) = fset (tIDs t) \<union> set (tMissing t)"
proof -
  have one: "oneTrace [exampleSpan 1 3 2 6 8]" by (simp add: oneTrace_def)
  obtain t where t: "Build [exampleSpan 1 3 2 6 8] Open = Some (Inr t)"
    using Build_exists [OF one] by blast
  from Walk_visits_once [OF t, of "\<lambda>s n depth. (True, s + 1)" "0 :: nat"] t show ?thesis by blast
qed

end
