(* ===== verification/Timing.thy ===== *)
theory Timing
  imports Assembly_Props
begin

section \<open>Self time and the critical path: internal/assembly/timing.go\<close>

text \<open>
  Both operations read the sorted children of a node. Durations are int64 nanoseconds:
  additions and subtractions of durations wrap. The fuel of \<open>criticalPath\<close> bounds the depth of
  its recursion.
\<close>

subsection \<open>Model\<close>

definition later :: "Time \<Rightarrow> Time \<Rightarrow> Time" where
  "later a b = (if b < a then a else b)"

definition earlier :: "Time \<Rightarrow> Time \<Rightarrow> Time" where
  "earlier a b = (if a < b then a else b)"

fun selfLoop :: "heap \<Rightarrow> Time \<Rightarrow> SpanID list \<Rightarrow> Duration \<Rightarrow> Time \<Rightarrow> Duration" where
  "selfLoop h till [] busy cursor = busy"
| "selfLoop h till (c # cs) busy cursor =
     (let from = later (sStart (spanOf h c)) cursor; to = earlier (sEnd (spanOf h c)) till
      in if from < to then selfLoop h till cs (wrap64 (busy + time_Sub to from)) to
         else selfLoop h till cs busy cursor)"

definition SelfTime :: "heap \<Rightarrow> SpanID \<Rightarrow> Duration" where
  "SelfTime h n =
     (if Node_Missing (deref h n) then 0
      else
        let start = sStart (spanOf h n); till = sEnd (spanOf h n)
        in wrap64 (time_Sub till start - selfLoop h till (kids h n) 0 start))"

record Segment =
  gNode :: SpanID
  gStart :: Time
  gEnd :: Time

definition Segment_Duration :: "Segment \<Rightarrow> Duration" where
  "Segment_Duration g = time_Sub (gEnd g) (gStart g)"

definition appendSegment :: "Segment list \<Rightarrow> SpanID \<Rightarrow> Time \<Rightarrow> Time \<Rightarrow> Segment list" where
  "appendSegment path n start till =
     (if \<not> start < till then path
      else if path \<noteq> [] \<and> gNode (last path) = n \<and> gStart (last path) = till
      then butlast path @ [(last path)\<lparr>gStart := start\<rparr>]
      else path @ [\<lparr>gNode = n, gStart = start, gEnd = till\<rparr>])"

definition byEnd :: "heap \<Rightarrow> SpanID \<Rightarrow> SpanID \<Rightarrow> int" where
  "byEnd h a b =
     (let c = time_Compare (sEnd (spanOf h b)) (sEnd (spanOf h a)) in if c \<noteq> 0 then c else byStart h b a)"

fun criticalPath :: "nat \<Rightarrow> heap \<Rightarrow> SpanID \<Rightarrow> Time \<Rightarrow> Time \<Rightarrow> Segment list \<Rightarrow> Segment list option"
  and criticalLoop :: "nat \<Rightarrow> heap \<Rightarrow> SpanID \<Rightarrow> Time \<Rightarrow> Time \<Rightarrow> SpanID list \<Rightarrow> Segment list \<Rightarrow> Segment list option" where
  "criticalPath 0 h n lo hi path = None"
| "criticalPath (Suc k) h n lo hi path =
     (let lo = later lo (sStart (spanOf h n)); cursor = earlier hi (sEnd (spanOf h n))
      in criticalLoop k h n lo cursor (sortFunc (byEnd h) (kids h n)) path)"
| "criticalLoop k h n lo cursor [] path = Some (appendSegment path n lo cursor)"
| "criticalLoop k h n lo cursor (c # cs) path =
     (let till = earlier (sEnd (spanOf h c)) cursor
      in if \<not> lo < till then Some (appendSegment path n lo cursor)
         else if \<not> sStart (spanOf h c) < cursor then criticalLoop k h n lo cursor cs path
         else case criticalPath k h c lo till (appendSegment path n till cursor) of
                None \<Rightarrow> None
              | Some path \<Rightarrow> criticalLoop k h n lo (later (sStart (spanOf h c)) lo) cs path)"

definition CriticalPath :: "heap \<Rightarrow> SpanID \<Rightarrow> Segment list option" where
  "CriticalPath h n =
     map_option rev (criticalPath (mapLen h) h n (sStart (spanOf h n)) (sEnd (spanOf h n)) [])"

subsection \<open>Self time\<close>

text \<open>The instants (nanoseconds) of a span at which one of its children was running.\<close>

definition busyAt :: "heap \<Rightarrow> Time \<Rightarrow> Time \<Rightarrow> SpanID list \<Rightarrow> Time set" where
  "busyAt h start till cs = {x. start \<le> x \<and> x < till \<and> (\<exists>c \<in> set cs. sStart (spanOf h c) \<le> x \<and> x < sEnd (spanOf h c))}"

lemma busyAt_finite [simp]: "finite (busyAt h start till cs)"
  by (rule finite_subset [of _ "{start..<till}"]) (auto simp: busyAt_def)

lemma card_busyAt_le: "card (busyAt h start till cs) \<le> nat (till - start)"
proof -
  have "busyAt h start till cs \<subseteq> {start..<till}" by (auto simp: busyAt_def)
  from card_mono [OF _ this] show ?thesis by simp
qed

text \<open>What the loop knows after the children \<open>ps\<close>: the busy instants lie before the cursor, and from the
  start of one of these children on all instants before the cursor are busy.\<close>

definition scanned :: "heap \<Rightarrow> Time \<Rightarrow> Time \<Rightarrow> SpanID list \<Rightarrow> Time \<Rightarrow> bool" where
  "scanned h start till ps cursor \<longleftrightarrow> start \<le> cursor \<and> (\<forall>x \<in> busyAt h start till ps. x < cursor)
     \<and> (cursor = start \<or> (\<exists>p \<in> set ps. \<forall>x. start \<le> x \<longrightarrow> sStart (spanOf h p) \<le> x \<longrightarrow> x < cursor \<longrightarrow> x \<in> busyAt h start till ps))"

text \<open>One more child: a new stretch from \<open>frm\<close> to \<open>to\<close>, or nothing new.\<close>

lemma busyAt_next:
  assumes "sorted (map (\<lambda>c. sStart (spanOf h c)) (ps @ [c]))" "scanned h start till ps cursor"
  defines "frm \<equiv> later (sStart (spanOf h c)) cursor" and "to \<equiv> earlier (sEnd (spanOf h c)) till"
  shows "busyAt h start till (ps @ [c]) = busyAt h start till ps \<union> {frm..<to}" "busyAt h start till ps \<inter> {frm..<to} = {}"
proof -
  let ?a = "sStart (spanOf h c)" and ?B = "busyAt h start till ps"
  have "sStart (spanOf h p) \<le> ?a" if "p \<in> set ps" for p
    using assms(1) that by (auto simp: sorted_append)
  then have seen: "x \<in> ?B \<or> cursor \<le> x" if "start \<le> x" "?a \<le> x" for x
    using assms(2) that unfolding scanned_def by (meson dual_order.trans not_le)
  have ends: "?a \<le> frm" "cursor \<le> frm" "to \<le> sEnd (spanOf h c)" "to \<le> till" "start \<le> cursor"
    using assms(2) by (simp_all add: frm_def to_def later_def earlier_def scanned_def)
  let ?C = "{x. start \<le> x \<and> x < till \<and> ?a \<le> x \<and> x < sEnd (spanOf h c)}"
  have "?C \<subseteq> ?B \<union> {frm..<to}"
  proof
    fix x assume "x \<in> ?C"
    then show "x \<in> ?B \<union> {frm..<to}" using seen [of x] unfolding frm_def to_def later_def earlier_def by auto
  qed
  moreover have "{frm..<to} \<subseteq> ?C" using ends by auto
  moreover have "busyAt h start till (ps @ [c]) = ?B \<union> ?C" by (auto simp: busyAt_def)
  ultimately show "busyAt h start till (ps @ [c]) = ?B \<union> {frm..<to}" by blast
  have "x < cursor" if "x \<in> ?B" for x using assms(2) that by (simp add: scanned_def)
  then show "?B \<inter> {frm..<to} = {}" using ends(2) by fastforce
qed

lemma scanned_next:
  assumes "scanned h start till ps cursor" "later (sStart (spanOf h c)) cursor < earlier (sEnd (spanOf h c)) till"
    "busyAt h start till (ps @ [c]) = busyAt h start till ps \<union> {later (sStart (spanOf h c)) cursor..<earlier (sEnd (spanOf h c)) till}"
  shows "scanned h start till (ps @ [c]) (earlier (sEnd (spanOf h c)) till)"
proof -
  let ?to = "earlier (sEnd (spanOf h c)) till"
  have "x \<in> busyAt h start till (ps @ [c])" if "start \<le> x" "sStart (spanOf h c) \<le> x" "x < ?to" for x
    using that by (auto simp: busyAt_def earlier_def split: if_splits)
  moreover have "start \<le> ?to" "cursor < ?to" using assms(1,2) by (auto simp: scanned_def later_def split: if_splits)
  ultimately show ?thesis using assms(1,3) unfolding scanned_def by fastforce
qed

text \<open>The loop, from a prefix of the children on.\<close>

lemma selfLoop_busy:
  assumes "sorted (map (\<lambda>c. sStart (spanOf h c)) (ps @ cs))" "till - start \<le> maxDuration"
    and "busy = int (card (busyAt h start till ps))" "scanned h start till ps cursor"
  shows "selfLoop h till cs busy cursor = int (card (busyAt h start till (ps @ cs)))"
  using assms
proof (induction cs arbitrary: ps busy cursor)
  case (Cons c cs)
  let ?B' = "busyAt h start till (ps @ [c])"
  define frm where "frm = later (sStart (spanOf h c)) cursor"
  define to where "to = earlier (sEnd (spanOf h c)) till"
  have sorted': "sorted (map (\<lambda>c. sStart (spanOf h c)) ((ps @ [c]) @ cs))" and "sorted (map (\<lambda>c. sStart (spanOf h c)) (ps @ [c]))"
    using Cons.prems(1) by (simp_all add: sorted_append)
  note next_child = busyAt_next [OF this(2) Cons.prems(4), folded frm_def to_def]
  show ?case
  proof (cases "frm < to")
    case True
    have busy': "busy + (to - frm) = int (card ?B')"
      unfolding next_child(1) using next_child(2) Cons.prems(3) True by (simp add: card_Un_disjoint)
    have "int (card ?B') \<le> int (nat (till - start))"
      using card_busyAt_le [of h start till "ps @ [c]"] of_nat_le_iff by blast
    with Cons.prems(2) have small: "int (card ?B') \<le> maxDuration" unfolding maxDuration_def by (simp split: if_splits)
    have "time_Sub to frm = to - frm"
      using True busy' small Cons.prems(3) by (simp add: time_Sub_def minDuration_def maxDuration_def)
    then have wrap: "wrap64 (busy + time_Sub to frm) = int (card ?B')"
      using busy' small by (simp add: in_int64_def maxDuration_def)
    have "scanned h start till (ps @ [c]) to"
      unfolding to_def using True next_child(1) by (intro scanned_next [OF Cons.prems(4)]) (simp_all add: frm_def to_def)
    from Cons.IH [OF sorted' Cons.prems(2) HOL.refl this] True wrap show ?thesis
      by (simp add: Let_def frm_def to_def)
  next
    case False
    then have same: "?B' = busyAt h start till ps" using next_child(1) by simp
    then have "scanned h start till (ps @ [c]) cursor" using Cons.prems(4) by (auto simp: scanned_def)
    from Cons.IH [OF sorted' Cons.prems(2) _ this] Cons.prems(3) same False show ?thesis
      by (simp add: Let_def frm_def to_def)
  qed
qed simp

subsection \<open>The critical path\<close>

text \<open>Consecutive segments, latest first, from \<open>hi\<close> down to \<open>lo\<close>.\<close>

fun chain :: "Time \<Rightarrow> Segment list \<Rightarrow> Time \<Rightarrow> bool" where
  "chain hi [] lo \<longleftrightarrow> hi = lo"
| "chain hi (g # gs) lo \<longleftrightarrow> gEnd g = hi \<and> gStart g < gEnd g \<and> chain (gStart g) gs lo"

lemma chain_append: "chain hi (gs @ gs') lo \<longleftrightarrow> (\<exists>mid. chain hi gs mid \<and> chain mid gs' lo)"
  by (induction gs arbitrary: hi) auto

lemma chain_appendSegment:
  assumes "chain hi path e" "s \<le> e"
  shows "chain hi (appendSegment path n s e) s"
proof (cases "s < e \<and> path \<noteq> [] \<and> gNode (last path) = n \<and> gStart (last path) = e")
  case True
  then obtain gs g where "path = gs @ [g]" by (metis append_butlast_last_id)
  with True assms show ?thesis by (auto simp: appendSegment_def chain_append)
next
  case False
  with assms show ?thesis by (auto simp: appendSegment_def chain_append)
qed

lemma set_appendSegment: "gNode ` set (appendSegment path n s e) \<subseteq> insert n (gNode ` set path)"
proof (cases "path = []")
  case False
  then obtain gs g where "path = gs @ [g]" by (metis append_butlast_last_id)
  then show ?thesis by (auto simp: appendSegment_def)
qed (simp add: appendSegment_def)

lemma Un_trans: "A \<subseteq> B \<union> C \<Longrightarrow> B \<subseteq> D \<union> E \<Longrightarrow> C \<subseteq> E \<Longrightarrow> A \<subseteq> D \<union> E"
  by blast

definition timed :: "heap \<Rightarrow> bool" where
  "timed h \<longleftrightarrow> (\<forall>n \<in> allocated h. sStart (spanOf h n) \<le> sEnd (spanOf h n))"

lemma criticalLoop_chain:
  assumes "\<And>c s e path. c \<in> set cs \<Longrightarrow> sStart (spanOf h c) \<le> e \<Longrightarrow> s \<le> e \<Longrightarrow> e \<le> sEnd (spanOf h c) \<Longrightarrow> chain hi path e \<Longrightarrow>
      \<exists>path'. criticalPath k h c s e path = Some path' \<and> chain hi path' (later s (sStart (spanOf h c)))
        \<and> gNode ` set path' \<subseteq> gNode ` set path \<union> {y. below (par h) y c}"
    and "\<And>c. c \<in> set cs \<Longrightarrow> sStart (spanOf h c) \<le> sEnd (spanOf h c) \<and> par h c = Some n"
    and "chain hi path cursor" "lo \<le> cursor"
  shows "\<exists>path'. criticalLoop k h n lo cursor cs path = Some path' \<and> chain hi path' lo
    \<and> gNode ` set path' \<subseteq> gNode ` set path \<union> {y. below (par h) y n}"
  using assms
proof (induction cs arbitrary: path cursor)
  case Nil
  then show ?case
    using chain_appendSegment [of hi path cursor lo n] set_appendSegment [of path n lo cursor] below.refl [of "par h" n] by auto
next
  case (Cons c cs)
  let ?a = "sStart (spanOf h c)" and ?b = "sEnd (spanOf h c)"
  let ?e = "earlier ?b cursor"
  have IH: "\<exists>path'. criticalLoop k h n lo cursor' cs path1 = Some path' \<and> chain hi path' lo
      \<and> gNode ` set path' \<subseteq> gNode ` set path1 \<union> {y. below (par h) y n}"
    if "chain hi path1 cursor'" "lo \<le> cursor'" for path1 cursor'
    using that Cons.prems(1,2) by (intro Cons.IH) auto
  consider "\<not> lo < ?e" | "lo < ?e" "\<not> ?a < cursor" | "lo < ?e" "?a < cursor" by blast
  then show ?case
  proof cases
    case 1
    then show ?thesis
      using Cons.prems(3,4) chain_appendSegment [of hi path cursor lo n] set_appendSegment [of path n lo cursor]
        below.refl [of "par h" n] by auto
  next
    case 2
    then show ?thesis using IH [OF Cons.prems(3,4)] by simp
  next
    case 3
    have le: "?e \<le> cursor" "?e \<le> ?b" "?a \<le> ?e"
      using Cons.prems(2) [of c] 3(2) by (auto simp: earlier_def)
    let ?p = "appendSegment path n ?e cursor"
    obtain path1 where p1: "criticalPath k h c lo ?e ?p = Some path1" "chain hi path1 (later lo ?a)"
      "gNode ` set path1 \<subseteq> gNode ` set ?p \<union> {y. below (par h) y c}"
      using Cons.prems(1) [of c ?e lo ?p] chain_appendSegment [OF Cons.prems(3) le(1), of n] le 3(1) by auto
    have "later ?a lo = later lo ?a" "lo \<le> later ?a lo" by (auto simp: later_def)
    with IH [of path1 "later ?a lo"] p1(2)
    obtain path2 where p2: "criticalLoop k h n lo (later ?a lo) cs path1 = Some path2" "chain hi path2 lo"
      "gNode ` set path2 \<subseteq> gNode ` set path1 \<union> {y. below (par h) y n}" by auto
    have kid: "{y. below (par h) y c} \<subseteq> {y. below (par h) y n}"
      using Cons.prems(2) [of c] below_step [of "par h" _ c n] by auto
    have "gNode ` set ?p \<subseteq> gNode ` set path \<union> {y. below (par h) y n}"
      using set_appendSegment [of path n ?e cursor] below.refl [of "par h" n] by blast
    from Un_trans [OF p1(3) this kid]
    have "gNode ` set path2 \<subseteq> gNode ` set path \<union> {y. below (par h) y n}"
      by (rule Un_trans [OF p2(3) _ subset_refl])
    with 3 p1(1) p2(1,2) show ?thesis by simp
  qed
qed

lemma criticalPath_chain:
  assumes "heap_ok h" "timed h" "rooted (par h) n" "card {y. below (par h) y n} \<le> k" "n \<in> allocated h"
    and "sStart (spanOf h n) \<le> e" "s \<le> e" "e \<le> sEnd (spanOf h n)" "chain hi path e"
  shows "\<exists>path'. criticalPath k h n s e path = Some path' \<and> chain hi path' (later s (sStart (spanOf h n)))
    \<and> gNode ` set path' \<subseteq> gNode ` set path \<union> {y. below (par h) y n}"
  using assms(3-)
proof (induction k arbitrary: n s e path)
  case 0
  then show ?case using below_pos [of h n] by simp
next
  case (Suc k)
  let ?cs = "sortFunc (byEnd h) (kids h n)"
  have kid: "par h c = Some n \<and> c \<in> allocated h \<and> sStart (spanOf h c) \<le> sEnd (spanOf h c) \<and> rooted (par h) c
      \<and> card {y. below (par h) y c} \<le> k" if "c \<in> set ?cs" for c
  proof -
    have c: "c \<in> set (kids h n)" using that by simp
    then have p: "par h c = Some n" using assms(1) by (simp add: heap_ok_def)
    moreover have "c \<in> allocated h" using p by (rule par_allocated)
    moreover have "rooted (par h) c" using p Suc.prems(1) rooted.up by metis
    ultimately show ?thesis
      using child_card [OF assms(1) Suc.prems(1) c Suc.prems(2)] assms(2) by (simp add: timed_def)
  qed
  have "\<exists>path'. criticalLoop k h n (later s (sStart (spanOf h n))) e ?cs path = Some path'
      \<and> chain hi path' (later s (sStart (spanOf h n)))
      \<and> gNode ` set path' \<subseteq> gNode ` set path \<union> {y. below (par h) y n}"
  proof (rule criticalLoop_chain)
    show "\<exists>path'. criticalPath k h c s e path = Some path' \<and> chain hi path' (later s (sStart (spanOf h c)))
        \<and> gNode ` set path' \<subseteq> gNode ` set path \<union> {y. below (par h) y c}"
      if "c \<in> set ?cs" "sStart (spanOf h c) \<le> e" "s \<le> e" "e \<le> sEnd (spanOf h c)" "chain hi path e" for c s e path
      using Suc.IH [OF _ _ _ that(2-5)] kid [OF that(1)] by blast
    show "sStart (spanOf h c) \<le> sEnd (spanOf h c) \<and> par h c = Some n" if "c \<in> set ?cs" for c
      using kid [OF that] by blast
    show "chain hi path e" by (rule Suc.prems(7))
    show "later s (sStart (spanOf h n)) \<le> e" using Suc.prems(4,5) by (simp add: later_def)
  qed
  moreover have "earlier e (sEnd (spanOf h n)) = e" using Suc.prems(6) by (auto simp: earlier_def)
  ultimately show ?case by (simp add: Let_def)
qed

subsection \<open>Times of a built tree\<close>

lemma lastSpan_member: "lastSpan spans n = Some s \<Longrightarrow> s \<in> set spans \<and> sSpanID s = n"
proof -
  assume "lastSpan spans n = Some s"
  then have "s \<in> set (filter (\<lambda>s. sSpanID s = n) spans)"
    by (auto simp: lastSpan_def simp del: set_filter split: list.splits intro: last_in_set)
  then show ?thesis by simp
qed

lemma built_linked_child:
  assumes "built_from spans phase t" "linkOf spans n = Some p" "lastSpan spans p = None"
  shows "par (tHeap t) n = Some p"
proof -
  have "linkOf spans p = None" using assms(3) by (simp add: linkOf_def)
  then have "rooted (linkOf spans) n" using assms(2) by (metis rooted.root rooted.up)
  then show ?thesis using assms(1,2) unfolding built_from_def by auto
qed

lemma built_timed:
  assumes "tree_ok t" "built_from spans phase t" "\<forall>s \<in> set spans. Validate s = None"
  shows "timed (tHeap t)"
proof -
  let ?h = "tHeap t"
  note b = assms(2) [unfolded built_from_def]
  have received: "sStart (spanOf ?h n) \<le> sEnd (spanOf ?h n)" if "lastSpan spans n = Some s" for n s
  proof -
    have "spanOf ?h n = s" using b that by blast
    moreover have "Validate s = None" using assms(3) lastSpan_member [OF that] by blast
    ultimately show ?thesis by (simp add: Validate_None_iff)
  qed
  have "sStart (spanOf ?h p) \<le> sEnd (spanOf ?h p)" if p: "p \<in> set (tMissing t)" for p
  proof -
    obtain n where n: "linkOf spans n = Some p" "lastSpan spans p = None" using b p by blast
    have "par ?h n = Some p" by (rule built_linked_child [OF assms(2) n])
    then have kid: "n \<in> set (kids ?h p)" using assms(1) by (simp add: tree_ok_def heap_ok_def)
    obtain s where "lastSpan spans n = Some s" using n(1) by (auto simp: linkOf_def split: option.splits)
    from received [OF this]
    have "Min (starts ?h (kids ?h p)) \<le> Max (ends ?h (kids ?h p))"
      unfolding starts_def ends_def
      using Min_le [of "(\<lambda>c. sStart (spanOf ?h c)) ` set (kids ?h p)", OF _ imageI [OF kid]]
        Max_ge [of "(\<lambda>c. sEnd (spanOf ?h c)) ` set (kids ?h p)", OF _ imageI [OF kid]] by simp
    moreover have "sStart (spanOf ?h p) = Min (starts ?h (kids ?h p))" "sEnd (spanOf ?h p) = Max (ends ?h (kids ?h p))"
      using b p by blast+
    ultimately show ?thesis by simp
  qed
  moreover have "allocated ?h = {n. lastSpan spans n \<noteq> None} \<union> set (tMissing t)"
  proof -
    have "n \<in> sSpanID ` set spans \<longleftrightarrow> lastSpan spans n \<noteq> None" for n
      unfolding lastSpan_None allocated_spanHeap by simp
    moreover have "fset (tIDs t) = sSpanID ` set spans" using b by blast
    moreover have "allocated ?h = fset (tIDs t) \<union> set (tMissing t)" using assms(1) by (simp add: tree_ok_def)
    ultimately show ?thesis by auto
  qed
  ultimately show ?thesis unfolding timed_def using received by blast
qed

text \<open>Consecutive segments, earliest first.\<close>

fun consecutive :: "Time \<Rightarrow> Segment list \<Rightarrow> Time \<Rightarrow> bool" where
  "consecutive lo [] hi \<longleftrightarrow> lo = hi"
| "consecutive lo (g # gs) hi \<longleftrightarrow> gStart g = lo \<and> gStart g < gEnd g \<and> consecutive (gEnd g) gs hi"

lemma consecutive_rev: "consecutive lo (rev gs) hi \<longleftrightarrow> chain hi gs lo"
proof -
  have app: "consecutive lo (xs @ [g]) hi \<longleftrightarrow> consecutive lo xs (gStart g) \<and> gStart g < gEnd g \<and> gEnd g = hi" for lo xs g hi
    by (induction xs arbitrary: lo) auto
  show ?thesis by (induction gs arbitrary: hi) (auto simp: app)
qed

lemma consecutive_total: "consecutive lo gs hi \<Longrightarrow> (\<Sum>g \<leftarrow> gs. gEnd g - gStart g) = hi - lo"
  by (induction gs arbitrary: lo) auto

lemma sorted_kids:
  assumes "tree_ok t"
  shows "sorted (map (\<lambda>c. sStart (spanOf (tHeap t) c)) (kids (tHeap t) n))"
proof -
  have "sStart (spanOf (tHeap t) a) \<le> sStart (spanOf (tHeap t) b)" if "byStart (tHeap t) a b < 0" for a b
    using that by (auto simp: byStart_def time_Compare_def Let_def split: if_splits)
  moreover have "sorted_wrt (\<lambda>a b. byStart (tHeap t) a b < 0) (kids (tHeap t) n)"
    using assms unfolding tree_ok_def by blast
  ultimately show ?thesis
    unfolding sorted_map by (rule sorted_wrt_mono_rel)
qed

text \<open>The instants of a span at which none of its children was running.\<close>

definition idleAt :: "heap \<Rightarrow> SpanID \<Rightarrow> Time set" where
  "idleAt h n = {x. sStart (spanOf h n) \<le> x \<and> x < sEnd (spanOf h n)
     \<and> (\<forall>c \<in> set (kids h n). \<not> (sStart (spanOf h c) \<le> x \<and> x < sEnd (spanOf h c)))}"

lemma card_idleAt:
  assumes "sStart (spanOf h n) \<le> sEnd (spanOf h n)"
  shows "int (card (idleAt h n)) = sEnd (spanOf h n) - sStart (spanOf h n)
    - int (card (busyAt h (sStart (spanOf h n)) (sEnd (spanOf h n)) (kids h n)))"
proof -
  let ?I = "{sStart (spanOf h n)..<sEnd (spanOf h n)}" and ?B = "busyAt h (sStart (spanOf h n)) (sEnd (spanOf h n)) (kids h n)"
  have "?B \<subseteq> ?I" "idleAt h n = ?I - ?B" by (auto simp: busyAt_def idleAt_def)
  then have "card (idleAt h n) = card ?I - card ?B" "card ?B \<le> card ?I"
    using card_mono [of ?I ?B] by (simp_all add: card_Diff_subset)
  with assms show ?thesis by simp
qed

text \<open>A small trace for the examples: a span of four nanoseconds with a child of two.\<close>

definition exampleTrace :: "Span list" where
  "exampleTrace = [exampleSpan 1 2 0 5 9, exampleSpan 1 3 2 6 8]"

lemma exampleTrace_valid: "\<forall>s \<in> set exampleTrace. Validate s = None"
  by (simp add: exampleTrace_def)

lemma exampleTrace_built:
  "\<exists>t. Build exampleTrace Sealed = Some (Inr t) \<and> exampleID 8 2 \<in> fset (tIDs t)
    \<and> exampleID 8 2 \<in> allocated (tHeap t) \<and> spanOf (tHeap t) (exampleID 8 2) = exampleSpan 1 2 0 5 9"
proof -
  have "oneTrace exampleTrace" by (simp add: oneTrace_def exampleTrace_def exampleSpan_def)
  then obtain t where t: "Build exampleTrace Sealed = Some (Inr t)" using Build_exists by blast
  have b: "built_from exampleTrace Sealed t" "tree_ok t" using Build_tree_ok [OF t] by blast+
  have "lastSpan exampleTrace (exampleID 8 2) = Some (exampleSpan 1 2 0 5 9)"
    by (simp add: lastSpan_def exampleTrace_def exampleSpan_def exampleID_def)
  then have "spanOf (tHeap t) (exampleID 8 2) = exampleSpan 1 2 0 5 9"
    using b(1) unfolding built_from_def by blast
  moreover have n: "exampleID 8 2 \<in> fset (tIDs t)"
    using b(1) unfolding built_from_def by (simp add: exampleTrace_def exampleSpan_def)
  moreover have "exampleID 8 2 \<in> allocated (tHeap t)" using n b(2) by (simp add: tree_ok_def)
  ultimately show ?thesis using t by blast
qed

subsection \<open>Properties\<close>

text \<open>C29: the self time of a received span in a built tree is the number of nanoseconds of the span
  during which none of its children was running, however the children overlap or run over.\<close>

theorem SelfTime_idle:
  assumes "Build spans phase = Some (Inr t)" "n \<in> fset (tIDs t)" "\<forall>s \<in> set spans. Validate s = None"
    and "sEnd (spanOf (tHeap t) n) - sStart (spanOf (tHeap t) n) \<le> maxDuration"
  shows "SelfTime (tHeap t) n = int (card (idleAt (tHeap t) n))"
proof -
  let ?h = "tHeap t"
  let ?s = "sStart (spanOf ?h n)" and ?e = "sEnd (spanOf ?h n)"
  have ok: "tree_ok t" "built_from spans phase t" using Build_tree_ok [OF assms(1)] by blast+
  have le: "?s \<le> ?e"
    using built_timed [OF ok assms(3)] ok(1) assms(2) by (simp add: timed_def tree_ok_def)
  obtain s where "lastSpan spans n = Some s"
    using assms(2) ok(2) lastSpan_None [of spans n] allocated_spanHeap [of spans] unfolding built_from_def by fastforce
  then have "\<not> Node_Missing (deref ?h n)"
    using ok(2) unfolding built_from_def by (simp add: Node_Missing_def)
  moreover have "selfLoop ?h ?e (kids ?h n) 0 ?s = int (card (busyAt ?h ?s ?e (kids ?h n)))"
    using selfLoop_busy [of ?h "[]" "kids ?h n" ?e ?s 0 ?s] sorted_kids [OF ok(1)] assms(4) by (simp add: busyAt_def scanned_def)
  moreover have "time_Sub ?e ?s = ?e - ?s"
    using le assms(4) by (simp add: time_Sub_def minDuration_def maxDuration_def)
  moreover have "in_int64 (int (card (idleAt ?h n)))"
    using card_idleAt [OF le] assms(4) by (simp add: in_int64_def maxDuration_def)
  ultimately show ?thesis
    using card_idleAt [OF le] by (simp add: SelfTime_def Let_def)
qed

theorem SelfTime_idle_witness:
  "\<exists>t. Build exampleTrace Sealed = Some (Inr t)
    \<and> SelfTime (tHeap t) (exampleID 8 2) = int (card (idleAt (tHeap t) (exampleID 8 2)))"
proof -
  obtain t where t: "Build exampleTrace Sealed = Some (Inr t)" "exampleID 8 2 \<in> fset (tIDs t)"
    "spanOf (tHeap t) (exampleID 8 2) = exampleSpan 1 2 0 5 9"
    using exampleTrace_built by blast
  have "sEnd (spanOf (tHeap t) (exampleID 8 2)) - sStart (spanOf (tHeap t) (exampleID 8 2)) \<le> maxDuration"
    unfolding t(3) by (simp add: exampleSpan_def maxDuration_def)
  from SelfTime_idle [OF t(1,2) exampleTrace_valid this] t(1) show ?thesis by blast
qed

text \<open>C12: the critical path of a node of a tree built from valid spans always comes out, as
  non-empty consecutive segments from the node's start to its end, spent in the node and its
  descendants: it covers the span exactly once.\<close>

theorem CriticalPath_covers:
  assumes "Build spans phase = Some (Inr t)" "\<forall>s \<in> set spans. Validate s = None" "n \<in> allocated (tHeap t)"
  shows "\<exists>path. CriticalPath (tHeap t) n = Some path
    \<and> consecutive (sStart (spanOf (tHeap t) n)) path (sEnd (spanOf (tHeap t) n))
    \<and> (\<Sum>g \<leftarrow> path. gEnd g - gStart g) = sEnd (spanOf (tHeap t) n) - sStart (spanOf (tHeap t) n)
    \<and> gNode ` set path \<subseteq> {y. below (par (tHeap t)) y n}"
proof -
  let ?h = "tHeap t"
  let ?s = "sStart (spanOf ?h n)" and ?e = "sEnd (spanOf ?h n)"
  have ok: "tree_ok t" "built_from spans phase t" using Build_tree_ok [OF assms(1)] by blast+
  have timed: "timed ?h" by (rule built_timed [OF ok assms(2)])
  have tree: "heap_ok ?h" "rooted (par ?h) n" using ok(1) by (auto simp: tree_ok_def)
  have le: "?s \<le> ?e" using timed assms(3) by (simp add: timed_def)
  obtain path where p: "criticalPath (mapLen ?h) ?h n ?s ?e [] = Some path" "chain ?e path (later ?s ?s)"
    "gNode ` set path \<subseteq> gNode ` set [] \<union> {y. below (par ?h) y n}"
    using criticalPath_chain [OF tree(1) timed tree(2) card_below_le [OF assms(3)] assms(3) le le order_refl, of ?e "[]"]
    by auto
  then have "consecutive ?s (rev path) ?e" by (simp add: consecutive_rev later_def)
  with p consecutive_total [OF this] show ?thesis
    by (intro exI [of _ "rev path"]) (simp add: CriticalPath_def)
qed

theorem CriticalPath_covers_witness:
  "\<exists>t path. Build exampleTrace Sealed = Some (Inr t)
    \<and> CriticalPath (tHeap t) (exampleID 8 2) = Some path \<and> consecutive 5 path 9"
proof -
  obtain t where t: "Build exampleTrace Sealed = Some (Inr t)" "exampleID 8 2 \<in> allocated (tHeap t)"
    "spanOf (tHeap t) (exampleID 8 2) = exampleSpan 1 2 0 5 9"
    using exampleTrace_built by blast
  from CriticalPath_covers [OF t(1) exampleTrace_valid t(2)] t(1,3) show ?thesis
    by (auto simp: exampleSpan_def)
qed

end
