(* ===== verification/Go_Float.thy ===== *)
theory Go_Float
  imports Spandrel_Prelude Complex_Main "HOL-Library.Log_Nat"
begin

section \<open>Go's float64 arithmetic\<close>

text \<open>
  IEEE 754 binary64 values and the operations the sampler uses. A finite value is the rational
  it denotes; the two zeros are one value, since nothing here divides by a zero or asks for its
  sign. Every operation rounds its exact result to the nearest representable value, ties to
  even (\<open>round64\<close>): 53 significant bits, exponents from -1022 (subnormals below) to 1023.
  Each operation rounds by itself: the fused multiply-add that Go permits on some machines is
  not modelled.

  The lemmas: rounding is monotone and leaves the integers up to \<open>2 ^ 53\<close> alone.
\<close>

datatype float64 = FNaN | FInf bool | FFin rat

text \<open>The nearest integer, ties to even.\<close>

definition roundEven :: "rat \<Rightarrow> int" where
  "roundEven x =
     (let n = \<lfloor>x\<rfloor>; d = x - of_int n
      in if d < 1 / 2 then n else if 1 / 2 < d then n + 1 else if even n then n else n + 1)"

text \<open>The binary exponent of a positive rational: \<open>2 ^ expo2 x \<le> x < 2 ^ (expo2 x + 1)\<close>.\<close>

definition expo2 :: "rat \<Rightarrow> int" where
  "expo2 x =
     (let (n, d) = quotient_of x; k = int (floorlog 2 (nat n)) - int (floorlog 2 (nat d))
      in if 2 powi k \<le> x then k else k - 1)"

definition ulp64 :: "rat \<Rightarrow> rat" where
  "ulp64 x = 2 powi (max (expo2 x) (- 1022) - 52)"

definition roundPos :: "rat \<Rightarrow> rat" where
  "roundPos x = of_int (roundEven (x / ulp64 x)) * ulp64 x"

definition round64 :: "rat \<Rightarrow> float64" where
  "round64 x =
     (if x = 0 then FFin 0
      else let y = roundPos \<bar>x\<bar>
           in if 2 ^ 1024 \<le> y then FInf (x < 0) else FFin (if x < 0 then - y else y))"

definition f_of_int :: "int \<Rightarrow> float64" where
  "f_of_int n = round64 (of_int n)"

fun f_le :: "float64 \<Rightarrow> float64 \<Rightarrow> bool" where
  "f_le FNaN _ \<longleftrightarrow> False"
| "f_le _ FNaN \<longleftrightarrow> False"
| "f_le (FInf a) (FInf b) \<longleftrightarrow> a \<or> \<not> b"
| "f_le (FInf a) (FFin y) \<longleftrightarrow> a"
| "f_le (FFin x) (FInf b) \<longleftrightarrow> \<not> b"
| "f_le (FFin x) (FFin y) \<longleftrightarrow> x \<le> y"

fun f_lt :: "float64 \<Rightarrow> float64 \<Rightarrow> bool" where
  "f_lt FNaN _ \<longleftrightarrow> False"
| "f_lt _ FNaN \<longleftrightarrow> False"
| "f_lt (FInf a) (FInf b) \<longleftrightarrow> a \<and> \<not> b"
| "f_lt (FInf a) (FFin y) \<longleftrightarrow> a"
| "f_lt (FFin x) (FInf b) \<longleftrightarrow> \<not> b"
| "f_lt (FFin x) (FFin y) \<longleftrightarrow> x < y"

fun f_neg :: "float64 \<Rightarrow> float64" where
  "f_neg FNaN = FNaN"
| "f_neg (FInf a) = FInf (\<not> a)"
| "f_neg (FFin x) = FFin (- x)"

fun f_add :: "float64 \<Rightarrow> float64 \<Rightarrow> float64" where
  "f_add FNaN _ = FNaN"
| "f_add _ FNaN = FNaN"
| "f_add (FInf a) (FInf b) = (if a = b then FInf a else FNaN)"
| "f_add (FInf a) (FFin y) = FInf a"
| "f_add (FFin x) (FInf b) = FInf b"
| "f_add (FFin x) (FFin y) = round64 (x + y)"

definition f_sub :: "float64 \<Rightarrow> float64 \<Rightarrow> float64" where
  "f_sub x y = f_add x (f_neg y)"

fun f_mul :: "float64 \<Rightarrow> float64 \<Rightarrow> float64" where
  "f_mul FNaN _ = FNaN"
| "f_mul _ FNaN = FNaN"
| "f_mul (FInf a) (FInf b) = FInf (a \<noteq> b)"
| "f_mul (FInf a) (FFin y) = (if y = 0 then FNaN else FInf (a \<noteq> (y < 0)))"
| "f_mul (FFin x) (FInf b) = (if x = 0 then FNaN else FInf (b \<noteq> (x < 0)))"
| "f_mul (FFin x) (FFin y) = round64 (x * y)"

text \<open>Division by a finite constant other than zero, the only one in the sources.\<close>

fun f_div_by :: "float64 \<Rightarrow> rat \<Rightarrow> float64" where
  "f_div_by FNaN y = FNaN"
| "f_div_by (FInf a) y = FInf (a \<noteq> (y < 0))"
| "f_div_by (FFin x) y = round64 (x / y)"

text \<open>The built-in \<open>min\<close>: NaN if either is.\<close>

fun f_min :: "float64 \<Rightarrow> float64 \<Rightarrow> float64" where
  "f_min FNaN _ = FNaN"
| "f_min _ FNaN = FNaN"
| "f_min x y = (if f_le x y then x else y)"

text \<open>\<open>math.Round\<close>: to the nearest integer, half away from zero.\<close>

fun math_Round :: "float64 \<Rightarrow> float64" where
  "math_Round (FFin x) = FFin (if x < 0 then - of_int \<lfloor>\<bar>x\<bar> + 1 / 2\<rfloor> else of_int \<lfloor>x + 1 / 2\<rfloor>)"
| "math_Round f = f"

text \<open>\<open>uint64(f)\<close> drops the fraction. Go leaves the result open for values out of range;
  \<open>None\<close> stands for that.\<close>

fun uint64_of_float :: "float64 \<Rightarrow> uint64 option" where
  "uint64_of_float (FFin x) = (if - 1 < x \<and> x < 2 ^ 64 then Some (word_of_int (if x < 0 then 0 else \<lfloor>x\<rfloor>)) else None)"
| "uint64_of_float f = None"

text \<open>\<open>d.Seconds()\<close>: whole seconds and the rest are converted separately.\<close>

definition Duration_Seconds :: "Duration \<Rightarrow> float64" where
  "Duration_Seconds d =
     (let sec = go_div d Second; nsec = d - Second * sec
      in f_add (f_of_int sec) (f_div_by (f_of_int nsec) 1000000000))"

subsection \<open>Rounding to integers\<close>

lemma roundEven_of_int [simp]: "roundEven (of_int n) = n"
  by (simp add: roundEven_def)

lemma roundEven_mono: "x \<le> y \<Longrightarrow> roundEven x \<le> roundEven y"
proof -
  assume le: "x \<le> y"
  have fl: "\<lfloor>x\<rfloor> \<le> \<lfloor>y\<rfloor>" using le by (rule floor_mono)
  have up: "roundEven z \<le> \<lfloor>z\<rfloor> + 1" and lo: "\<lfloor>z\<rfloor> \<le> roundEven z" for z
    by (auto simp: roundEven_def Let_def)
  show ?thesis
  proof (cases "\<lfloor>x\<rfloor> = \<lfloor>y\<rfloor>")
    case True
    with le show ?thesis by (auto simp: roundEven_def Let_def)
  next
    case False
    with fl up [of x] lo [of y] show ?thesis by linarith
  qed
qed

lemma roundEven_ge: "of_int n \<le> x \<Longrightarrow> n \<le> roundEven x"
  using roundEven_mono [of "of_int n" x] by simp

lemma roundEven_le: "x \<le> of_int n \<Longrightarrow> roundEven x \<le> n"
  using roundEven_mono [of x "of_int n"] by simp

subsection \<open>Exponents\<close>

lemma expo2:
  assumes "0 < x"
  shows "2 powi expo2 x \<le> x" "x < 2 powi (expo2 x + 1)"
proof -
  obtain n d where q: "quotient_of x = (n, d)" by fastforce
  have d: "0 < d" using quotient_of_denom_pos [OF q] .
  have x: "x = of_int n / of_int d" using quotient_of_div [OF q] .
  have n: "0 < n" using assms x d by (simp add: zero_less_divide_iff)
  let ?a = "floorlog 2 (nat n)" and ?b = "floorlog 2 (nat d)"
  define k where "k = int ?a - int ?b"
  have a: "2 ^ (?a - 1) \<le> nat n" "nat n < 2 ^ ?a" "0 < ?a"
    and b: "2 ^ (?b - 1) \<le> nat d" "nat d < 2 ^ ?b" "0 < ?b"
    using n d floorlog_bounds [of "nat n" 2] floorlog_bounds [of "nat d" 2] by (auto simp: floorlog_def)
  have a': "2 powi (int ?a - 1) \<le> (of_int n :: rat)" "(of_int n :: rat) < 2 powi int ?a"
    and b': "2 powi (int ?b - 1) \<le> (of_int d :: rat)" "(of_int d :: rat) < 2 powi int ?b"
  proof -
    have conv: "2 powi (int m - 1) \<le> (of_int z :: rat) \<and> (of_int z :: rat) < 2 powi int m"
      if "2 ^ (m - 1) \<le> nat z" "nat z < 2 ^ m" "0 < m" "0 < z" for m z
    proof -
      have m: "int m - 1 = int (m - 1)" using that(3) by simp
      have "(2 :: rat) ^ (m - 1) \<le> of_nat (nat z)" "of_nat (nat z) < (2 :: rat) ^ m"
        using that(1,2) by (metis of_nat_le_iff of_nat_numeral of_nat_power, metis of_nat_less_iff of_nat_numeral of_nat_power)
      moreover have "(of_nat (nat z) :: rat) = of_int z" using that(4) by simp
      ultimately show ?thesis unfolding m power_int_of_nat by simp
    qed
    show "2 powi (int ?a - 1) \<le> (of_int n :: rat)" "(of_int n :: rat) < 2 powi int ?a"
      "2 powi (int ?b - 1) \<le> (of_int d :: rat)" "(of_int d :: rat) < 2 powi int ?b"
      using conv [OF a n] conv [OF b d] by auto
  qed
  have "x < 2 powi int ?a / 2 powi (int ?b - 1)"
    unfolding x using a' b' d n by (intro frac_less) auto
  also have "\<dots> = 2 powi (int ?a - (int ?b - 1))" by (rule power_int_diff [symmetric]) simp
  also have "int ?a - (int ?b - 1) = k + 1" by (simp add: k_def)
  finally have up: "x < 2 powi (k + 1)" .
  have "k - 1 = int ?a - 1 - int ?b" by (simp add: k_def)
  then have "2 powi (k - 1) = 2 powi (int ?a - 1) / (2 powi int ?b :: rat)"
    by (simp add: power_int_diff)
  also have "\<dots> \<le> x"
    unfolding x using a' b' d n by (intro frac_le) auto
  finally have lo: "2 powi (k - 1) \<le> x" .
  have e: "expo2 x = (if 2 powi k \<le> x then k else k - 1)"
    by (simp add: expo2_def q k_def)
  show "2 powi expo2 x \<le> x" "x < 2 powi (expo2 x + 1)"
    unfolding e using up lo by auto
qed

lemma expo2_mono:
  assumes "0 < x" "x \<le> y"
  shows "expo2 x \<le> expo2 y"
proof (rule ccontr)
  assume "\<not> expo2 x \<le> expo2 y"
  then have "expo2 y + 1 \<le> expo2 x" by simp
  then have "(2 :: rat) powi (expo2 y + 1) \<le> 2 powi expo2 x" by (intro power_int_increasing) auto
  with expo2 [of x] expo2 [of y] assms show False by linarith
qed

lemma ulp64_pos [simp]: "0 < ulp64 x"
  by (simp add: ulp64_def)

lemma ulp64_mono: "0 < x \<Longrightarrow> x \<le> y \<Longrightarrow> ulp64 x \<le> ulp64 y"
  unfolding ulp64_def using expo2_mono [of x y] by (intro power_int_increasing) auto

text \<open>In units of its last place a value lies below \<open>2 ^ 53\<close>, and from \<open>2 ^ 52\<close> on unless it is
  subnormal.\<close>

lemma ulp64_bounds:
  assumes "0 < x"
  shows "x / ulp64 x \<le> 2 ^ 53" "- 1022 \<le> expo2 x \<Longrightarrow> 2 ^ 52 \<le> x / ulp64 x"
proof -
  have split: "(2 :: rat) powi (e + int m) = 2 ^ m * 2 powi e" for e m
    by (simp add: power_int_add power_int_of_nat mult.commute)
  let ?u = "max (expo2 x) (- 1022) - 52"
  have "(2 :: rat) powi (expo2 x + 1) \<le> 2 powi (?u + int 53)"
    by (intro power_int_increasing) auto
  then have "x \<le> 2 ^ 53 * ulp64 x"
    unfolding split ulp64_def using expo2(2) [OF assms] by linarith
  then show "x / ulp64 x \<le> 2 ^ 53" by (simp add: pos_divide_le_eq)
  assume "- 1022 \<le> expo2 x"
  then have "expo2 x = ?u + int 52" by simp
  then have "2 ^ 52 * ulp64 x \<le> x"
    using expo2(1) [OF assms] split [of ?u 52] by (simp add: ulp64_def)
  then show "2 ^ 52 \<le> x / ulp64 x" by (simp add: pos_le_divide_eq)
qed

subsection \<open>Rounding is monotone and exact on small integers\<close>

lemma roundPos_mono:
  assumes "0 < x" "x \<le> y"
  shows "roundPos x \<le> roundPos y"
proof (cases "ulp64 x = ulp64 y")
  case True
  have "x / ulp64 x \<le> y / ulp64 x" using assms(2) by (simp add: divide_right_mono less_imp_le)
  from roundEven_mono [OF this] show ?thesis
    unfolding roundPos_def True [symmetric] by (intro mult_right_mono) (simp_all add: less_imp_le)
next
  case False
  let ?m = "\<lambda>z. max (expo2 z) (- 1022)"
  have y: "0 < y" using assms by simp
  have lt: "?m x < ?m y"
  proof (rule ccontr)
    assume "\<not> ?m x < ?m y"
    with expo2_mono [OF assms] have "?m x = ?m y" by linarith
    with False show False by (simp only: ulp64_def)
  qed
  have "roundEven (x / ulp64 x) \<le> 2 ^ 53"
    using ulp64_bounds(1) [OF assms(1)] roundEven_le [of "x / ulp64 x" "2 ^ 53"] by simp
  then have "roundPos x \<le> 2 ^ 53 * ulp64 x"
    unfolding roundPos_def by (metis less_imp_le mult_right_mono of_int_le_iff of_int_numeral of_int_power ulp64_pos)
  also have "\<dots> \<le> 2 ^ 52 * ulp64 y"
  proof -
    have "2 * ulp64 x = 2 powi (?m x - 52 + 1)"
      unfolding ulp64_def by (subst power_int_add) simp_all
    also have "\<dots> \<le> ulp64 y" unfolding ulp64_def using lt by (intro power_int_increasing) auto
    finally show ?thesis by simp
  qed
  also have "2 ^ 52 * ulp64 y \<le> roundPos y"
  proof -
    have "2 ^ 52 \<le> y / ulp64 y" using lt by (intro ulp64_bounds(2) [OF y]) auto
    then have "2 ^ 52 \<le> roundEven (y / ulp64 y)" by (intro roundEven_ge) simp
    then show ?thesis
      unfolding roundPos_def by (metis less_imp_le mult_right_mono of_int_le_iff of_int_numeral of_int_power ulp64_pos)
  qed
  finally show ?thesis .
qed

lemma roundPos_nonneg: "0 < x \<Longrightarrow> 0 \<le> roundPos x"
  unfolding roundPos_def by (intro mult_nonneg_nonneg) (simp_all add: roundEven_ge less_imp_le)

lemma round64_nonneg: "0 \<le> x \<Longrightarrow> f_le (FFin 0) (round64 x)"
  using roundPos_nonneg [of x] by (auto simp: round64_def Let_def)

lemma round64_mono:
  assumes "x \<le> y"
  shows "f_le (round64 x) (round64 y)"
proof -
  consider "0 < x" | "y < 0" | "x \<le> 0" "0 \<le> y" using assms by linarith
  then show ?thesis
  proof cases
    case 1
    then show ?thesis using roundPos_mono [OF 1 assms] assms by (auto simp: round64_def Let_def)
  next
    case 2
    then show ?thesis using roundPos_mono [of "- y" "- x"] assms by (auto simp: round64_def Let_def)
  next
    case 3
    have "f_le (round64 x) (FFin 0)"
      using roundPos_nonneg [of "- x"] 3(1) by (auto simp: round64_def Let_def)
    moreover have "f_le (FFin 0) (round64 y)" by (rule round64_nonneg [OF 3(2)])
    ultimately show ?thesis by (cases "round64 x"; cases "round64 y") auto
  qed
qed

lemma roundPos_int:
  assumes "0 < n" "n \<le> 2 ^ 53"
  shows "roundPos (of_int n) = of_int n"
proof -
  let ?x = "of_int n :: rat"
  have pos: "0 < ?x" using assms by simp
  let ?e = "expo2 ?x"
  have "(2 :: rat) powi 0 \<le> ?x" using assms(1) by simp
  also have "?x < 2 powi (?e + 1)" by (rule expo2(2) [OF pos])
  finally have e0: "0 \<le> ?e"
    using power_int_increasing [of "?e + 1" 0 "2 :: rat"] by (cases "0 \<le> ?e") auto
  have e53: "?e \<le> 53"
  proof -
    have "(2 :: rat) powi ?e \<le> ?x" by (rule expo2(1) [OF pos])
    also have "?x \<le> of_int (2 ^ 53)" using assms(2) by (simp only: of_int_le_iff)
    also have "\<dots> = 2 powi 53" by simp
    finally have le: "(2 :: rat) powi ?e \<le> 2 powi 53" .
    show ?thesis
    proof (rule ccontr)
      assume "\<not> ?e \<le> 53"
      then have "(2 :: rat) powi 53 < 2 powi ?e" by (intro power_int_strict_increasing) auto
      with le show False by simp
    qed
  qed
  have "\<exists>m. ?x / ulp64 ?x = of_int m"
  proof (cases "?e = 53")
    case True
    then have "(2 :: rat) powi 53 \<le> ?x" using expo2(1) [OF pos] by simp
    then have "of_int (2 ^ 53) \<le> ?x" by simp
    then have "2 ^ 53 \<le> n" by (simp only: of_int_le_iff)
    with assms(2) have "n = 2 ^ 53" by simp
    then have "?x / ulp64 ?x = of_int (2 ^ 52)" using True by (simp add: ulp64_def)
    then show ?thesis ..
  next
    case False
    define m where "m = nat (52 - ?e)"
    have "max ?e (- 1022) - 52 = - int m" using False e0 e53 by (simp add: m_def)
    then have "ulp64 ?x = 1 / 2 ^ m"
      unfolding ulp64_def by (simp add: power_int_minus divide_inverse)
    then have "?x / ulp64 ?x = of_int (n * 2 ^ m)" by simp
    then show ?thesis ..
  qed
  then show ?thesis by (auto simp: roundPos_def) (metis less_irrefl nonzero_mult_div_cancel_right times_divide_eq_left ulp64_pos)
qed

lemma f_of_int_exact:
  assumes "\<bar>n\<bar> \<le> 2 ^ 53"
  shows "f_of_int n = FFin (of_int n)"
proof (cases "n = 0")
  case False
  then have r: "roundPos \<bar>of_int n\<bar> = of_int \<bar>n\<bar>"
    using roundPos_int [of "\<bar>n\<bar>"] assms by simp
  have "(of_int \<bar>n\<bar> :: rat) \<le> of_int (2 ^ 53)" using assms by (simp only: of_int_le_iff)
  also have "\<dots> < 2 ^ 1024" by simp
  finally have "\<not> 2 ^ 1024 \<le> (of_int \<bar>n\<bar> :: rat)" by simp
  then show ?thesis
    using False by (simp only: f_of_int_def round64_def r Let_def of_int_eq_0_iff if_False) (auto simp: abs_if)
qed (simp add: f_of_int_def round64_def)

text \<open>Powers of two are exact.\<close>

lemma expo2_power: "expo2 (2 ^ m) = int m"
proof -
  let ?e = "expo2 (2 ^ m)"
  have b: "2 powi ?e \<le> (2 :: rat) powi int m" "(2 :: rat) powi int m < 2 powi (?e + 1)"
    using expo2 [of "2 ^ m"] by simp_all
  have "\<not> int m < ?e" using b(1) power_int_strict_increasing [of "int m" ?e "2 :: rat"] by auto
  moreover have "\<not> ?e + 1 \<le> int m" using b(2) power_int_increasing [of "?e + 1" "int m" "2 :: rat"] by auto
  ultimately show ?thesis by linarith
qed

lemma round64_power:
  assumes "m < 1024"
  shows "round64 (2 ^ m) = FFin (2 ^ m)"
proof -
  have e: "max (expo2 (2 ^ m)) (- 1022) - 52 = int m - 52" by (simp add: expo2_power)
  have "ulp64 (2 ^ m) = 2 powi (int m - 52)" unfolding ulp64_def e ..
  also have "\<dots> = 2 powi int m / 2 powi 52" by (rule power_int_diff) simp
  finally have u: "ulp64 (2 ^ m) * of_int (2 ^ 52) = 2 ^ m" by simp
  then have "(2 :: rat) ^ m / ulp64 (2 ^ m) = of_int (2 ^ 52)"
    using ulp64_pos [of "2 ^ m"] by (metis less_irrefl nonzero_mult_div_cancel_left)
  then have "roundPos (2 ^ m) = of_int (2 ^ 52) * ulp64 (2 ^ m)"
    unfolding roundPos_def by (simp only: roundEven_of_int)
  with u have "roundPos (2 ^ m) = 2 ^ m" by (simp only: mult.commute)
  moreover have "\<not> (2 :: rat) ^ 1024 \<le> 2 ^ m" using assms by (simp only: not_le) (rule power_strict_increasing, simp_all)
  ultimately show ?thesis by (simp add: round64_def Let_def del: power_increasing_iff)
qed

subsection \<open>Rounded values round to themselves\<close>

lemma expo2_le:
  assumes "0 < x" "x < 2 powi (k + 1)"
  shows "expo2 x \<le> k"
proof (rule ccontr)
  assume "\<not> expo2 x \<le> k"
  then have "(2 :: rat) powi (k + 1) \<le> 2 powi expo2 x" by (intro power_int_increasing) auto
  with expo2(1) [OF assms(1)] assms(2) show False by simp
qed

lemma expo2_ge:
  assumes "0 < x" "2 powi k \<le> x"
  shows "k \<le> expo2 x"
proof (rule ccontr)
  assume "\<not> k \<le> expo2 x"
  then have "(2 :: rat) powi (expo2 x + 1) \<le> 2 powi k" by (intro power_int_increasing) auto
  with expo2(2) [OF assms(1)] assms(2) show False by simp
qed

lemma roundPos_exact: "x / ulp64 x = of_int m \<Longrightarrow> roundPos x = x"
  unfolding roundPos_def by simp (metis less_irrefl nonzero_eq_divide_eq ulp64_pos)

lemma roundPos_idem:
  assumes "0 < x" "0 < roundPos x"
  shows "roundPos (roundPos x) = roundPos x"
proof -
  define e where "e = max (expo2 x) (- 1022)"
  define m where "m = roundEven (x / ulp64 x)"
  define y where "y = roundPos x"
  have u: "ulp64 x = 2 powi (e - 52)" by (simp add: ulp64_def e_def)
  have y: "y = of_int m * 2 powi (e - 52)" "0 < y" using assms(2) by (simp_all add: y_def roundPos_def m_def u)
  have split: "(2 :: rat) powi (i + int k) = 2 powi i * 2 ^ k" for i k by (simp add: power_int_add)
  have top: "(2 :: rat) powi (e + 1) = of_int (2 ^ 53) * 2 powi (e - 52)" using split [of "e - 52" 53] by (simp add: ac_simps)
  have "m \<le> 2 ^ 53"
    unfolding m_def using ulp64_bounds(1) [OF assms(1)] by (intro roundEven_le) simp
  then consider "m = 2 ^ 53" | "m < 2 ^ 53" by linarith
  then have "\<exists>k. y / ulp64 y = of_int k"
  proof cases
    case 1
    then have ye: "y = 2 powi (e + 1)" using y(1) top by simp
    have "expo2 y = e + 1"
      using expo2_le [of y "e + 1"] expo2_ge [of y "e + 1"] y(2) power_int_strict_increasing [of "e + 1" "e + 1 + 1" "2 :: rat"]
      by (simp add: ye)
    then have "ulp64 y = 2 powi (e + 1 - 52)" by (simp add: ulp64_def e_def)
    moreover have "y = 2 powi (e + 1 - 52) * 2 ^ 52" unfolding ye using split [of "e + 1 - 52" 52] by (simp add: ac_simps)
    ultimately have "y / ulp64 y = of_int (2 ^ 52)" by simp
    then show ?thesis ..
  next
    case 2
    then have "(of_int m :: rat) < of_int (2 ^ 53)" by (simp only: of_int_less_iff)
    then have "y < 2 powi (e + 1)" unfolding y(1) top by (intro mult_strict_right_mono) auto
    then have "expo2 y \<le> e" by (rule expo2_le [OF y(2)])
    then obtain k where k: "e = max (expo2 y) (- 1022) + int k"
      using zle_iff_zadd [of "max (expo2 y) (- 1022)" e] by (auto simp: e_def)
    have "ulp64 y * 2 ^ k = 2 powi (e - 52)"
      unfolding ulp64_def using split [of "max (expo2 y) (- 1022) - 52" k] k by (simp add: algebra_simps)
    then have "y = of_int (m * 2 ^ k) * ulp64 y" using y(1) by (simp add: ac_simps)
    then have "y / ulp64 y = of_int (m * 2 ^ k)" using ulp64_pos [of y] by (metis less_irrefl nonzero_mult_div_cancel_right)
    then show ?thesis ..
  qed
  then show ?thesis using roundPos_exact unfolding y_def by blast
qed

lemma round64_idem:
  assumes "round64 x = FFin y"
  shows "round64 y = FFin y"
proof (cases "x = 0")
  case False
  let ?r = "roundPos \<bar>x\<bar>"
  have r: "y = (if x < 0 then - ?r else ?r)" "?r < 2 ^ 1024"
    using assms False by (auto simp: round64_def Let_def split: if_splits)
  have "0 \<le> ?r" using False by (intro roundPos_nonneg) simp
  then consider "?r = 0" | "0 < ?r" by linarith
  then show ?thesis
  proof cases
    case 1
    with r(1) have "y = 0" by (simp only: minus_zero if_cancel)
    then show ?thesis by (simp add: round64_def)
  next
    case 2
    with r roundPos_idem [of "\<bar>x\<bar>"] False show ?thesis by (auto simp: round64_def Let_def)
  qed
qed (use assms in \<open>simp add: round64_def\<close>)

subsection \<open>Values that are not negative\<close>

lemma f_le_cases: "f_le (FFin 0) x \<Longrightarrow> x = FInf False \<or> (\<exists>y. x = FFin y \<and> 0 \<le> y)"
  by (cases x) auto

lemma f_add_nonneg: "f_le (FFin 0) x \<Longrightarrow> f_le (FFin 0) y \<Longrightarrow> f_le (FFin 0) (f_add x y)"
  by (auto dest!: f_le_cases intro!: round64_nonneg)

lemma f_mul_nonneg: "f_le (FFin 0) x \<Longrightarrow> 0 < y \<Longrightarrow> f_le (FFin 0) (f_mul x (FFin y))"
  by (auto dest!: f_le_cases intro!: round64_nonneg)

lemma f_min_bounds: "f_le (FFin 0) x \<Longrightarrow> f_le (FFin 0) y \<Longrightarrow> f_le (FFin 0) (f_min x y) \<and> f_le (f_min x y) x"
  by (auto dest!: f_le_cases)

lemma f_of_int_nonneg: "0 \<le> n \<Longrightarrow> f_le (FFin 0) (f_of_int n)"
  by (simp add: f_of_int_def round64_nonneg)

lemma round64_pos:
  assumes "2 powi (- 1022) \<le> x"
  shows "f_lt (FFin 0) (round64 x)"
proof -
  have x: "0 < x" using assms zero_less_power_int [of "2 :: rat" "- 1022"] by linarith
  have "2 ^ 52 \<le> x / ulp64 x" using x assms by (intro ulp64_bounds(2) expo2_ge)
  then have "(2 :: int) ^ 52 \<le> roundEven (x / ulp64 x)" by (intro roundEven_ge) simp
  then have "0 < roundEven (x / ulp64 x)" by simp
  then have "0 < roundPos x" unfolding roundPos_def by simp
  with x show ?thesis by (auto simp: round64_def Let_def)
qed

lemma round64_between:
  assumes "0 \<le> x" "x \<le> 2 ^ m" "m < 1024"
  shows "\<exists>y. round64 x = FFin y \<and> 0 \<le> y \<and> y \<le> 2 ^ m"
proof -
  have "f_le (round64 x) (FFin (2 ^ m))"
    using round64_mono [OF assms(2)] round64_power [OF assms(3)] by simp
  moreover have "f_le (FFin 0) (round64 x)" by (rule round64_nonneg [OF assms(1)])
  ultimately show ?thesis by (cases "round64 x") auto
qed

text \<open>A positive duration is a positive finite number of seconds.\<close>

lemma Duration_Seconds_pos:
  assumes "0 < d" "in_int64 d"
  shows "\<exists>y. Duration_Seconds d = FFin y \<and> 0 < y"
proof -
  define sec where "sec = d div Second"
  define nsec where "nsec = d - Second * sec"
  have g: "go_div d Second = sec" using assms(1) by (simp add: go_div_def sec_def)
  have d: "d \<le> 2 ^ 63" using assms(2) by (simp add: in_int64_def)
  have n: "0 \<le> nsec" "nsec < Second" unfolding nsec_def sec_def by (simp_all add: minus_mult_div_eq_mod)
  have sec: "0 \<le> sec" "sec \<le> 2 ^ 34" using assms(1) d by (simp_all add: sec_def pos_imp_zdiv_nonneg_iff)
  have s1: "f_of_int sec = FFin (of_int sec)" "f_of_int nsec = FFin (of_int nsec)"
    using sec n by (simp_all add: f_of_int_exact)
  have "(of_int nsec :: rat) \<le> 1000000000" using n by (metis less_imp_le of_int_le_iff of_int_numeral)
  then obtain q where q: "round64 (of_int nsec / 1000000000) = FFin q" "0 \<le> q" "q \<le> 1"
    using round64_between [of "of_int nsec / 1000000000" 0] n by auto
  have "(of_int sec :: rat) \<le> of_int (2 ^ 34)" using sec by (simp only: of_int_le_iff)
  then have "of_int sec + q \<le> 2 ^ 35" "0 \<le> of_int sec + q" using q sec by simp_all
  then obtain y where y: "round64 (of_int sec + q) = FFin y" "0 \<le> y" using round64_between [of "of_int sec + q" 35] by auto
  have "0 < y"
  proof (cases "sec = 0")
    case True
    then have "1 \<le> nsec" using assms(1) n by (simp add: nsec_def)
    then have "(1 :: rat) \<le> of_int nsec" by simp
    then have "2 powi (- 1022) \<le> (of_int nsec :: rat) / 1000000000"
      using power_int_increasing [of "- 1022" "- 30" "2 :: rat"] by (simp add: power_int_minus)
    from round64_pos [OF this] q(1) have "0 < q" by simp
    moreover have "round64 q = FFin q" by (rule round64_idem [OF q(1)])
    ultimately show ?thesis using y True by simp
  next
    case False
    then have "(1 :: rat) \<le> of_int sec" using sec by simp
    then have "2 ^ 0 \<le> of_int sec + q" using q by simp
    from round64_mono [OF this] show ?thesis using y round64_power [of 0] by simp
  qed
  then show ?thesis
    using y(1) q(1) by (simp add: Duration_Seconds_def g Let_def nsec_def [symmetric] s1)
qed

end
