(* ===== verification/Policy.thy ===== *)
theory Policy
  imports Timing Go_Float Go_Binary
begin

section \<open>Sampling policies: internal/sampler/policy.go\<close>

text \<open>
  A policy looks at an assembled trace and decides or abstains. \<open>Policy\<close> is an interface in the
  source; here a policy is its \<open>Evaluate\<close> method. The outcome \<open>None\<close> is a panic, which only a
  tree without roots, or one that is not a tree, could cause.
\<close>

subsection \<open>Model\<close>

record Verdict =
  vKeep :: bool
  vReason :: string

abbreviation zeroVerdict :: Verdict where
  "zeroVerdict \<equiv> \<lparr>vKeep = False, vReason = []\<rparr>"

type_synonym Policy = "Tree \<Rightarrow> (Verdict \<times> bool) option"

fun Decide :: "Tree \<Rightarrow> Policy list \<Rightarrow> Verdict option" where
  "Decide t [] = Some \<lparr>vKeep = False, vReason = ''unclaimed''\<rparr>"
| "Decide t (p # ps) =
     (case p t of
        None \<Rightarrow> None
      | Some (v, ok) \<Rightarrow> if ok then Some v else Decide t ps)"

definition failedVisitor :: "heap \<Rightarrow> bool visitor" where
  "failedVisitor h failed n depth =
     (let failed = (\<not> Node_Missing (deref h n) \<and> Failed (spanOf h n)) in (\<not> failed, failed))"

definition KeepErrors_Evaluate :: Policy where
  "KeepErrors_Evaluate t =
     (case Walk (failedVisitor (tHeap t)) t False of
        None \<Rightarrow> None
      | Some failed \<Rightarrow>
          if failed then Some (\<lparr>vKeep = True, vReason = ''error''\<rparr>, True) else Some (zeroVerdict, False))"

text \<open>\<open>Duration\<close>, from the roots.\<close>

definition widenRoots :: "heap \<Rightarrow> Time \<times> Time \<Rightarrow> SpanID \<Rightarrow> Time \<times> Time" where
  "widenRoots h w r =
     (if sStart (spanOf h r) < fst w then sStart (spanOf h r) else fst w,
      if snd w < sEnd (spanOf h r) then sEnd (spanOf h r) else snd w)"

definition Trace_Duration :: "Tree \<Rightarrow> Duration option" where
  "Trace_Duration t =
     (case tRoots t of
        [] \<Rightarrow> None
      | r # rs \<Rightarrow>
          let (start, till) = foldl (widenRoots (tHeap t)) (sStart (spanOf (tHeap t) r), sEnd (spanOf (tHeap t) r)) rs
          in Some (time_Sub till start))"

record KeepSlow =
  slThreshold :: Duration

definition KeepSlow_Evaluate :: "KeepSlow \<Rightarrow> Policy" where
  "KeepSlow_Evaluate p t =
     (case Trace_Duration t of
        None \<Rightarrow> None
      | Some d \<Rightarrow>
          if slThreshold p < d then Some (\<lparr>vKeep = True, vReason = ''slow''\<rparr>, True) else Some (zeroVerdict, False))"

record KeepFraction =
  frThreshold :: uint64

datatype ShareError = ErrShare float64

text \<open>The outcome \<open>None\<close> is a conversion to \<open>uint64\<close> that Go does not define.\<close>

definition NewKeepFraction :: "float64 \<Rightarrow> (ShareError + KeepFraction) option" where
  "NewKeepFraction share =
     (if \<not> (f_le (FFin 0) share \<and> f_le share (FFin 1)) then Some (Inl (ErrShare share))
      else case uint64_of_float (math_Round (f_mul share (FFin (2 ^ 56)))) of
             None \<Rightarrow> None
           | Some threshold \<Rightarrow> Some (Inr \<lparr>frThreshold = threshold\<rparr>))"

text \<open>\<open>binary.BigEndian.Uint64\<close>.\<close>

definition getUint64BE :: "byte list \<Rightarrow> uint64" where
  "getUint64BE b = foldr (\<lambda>i w. push_bit (8 * (7 - i)) (ucast (b ! i)) OR w) [0..<8] 0"

definition randomBits :: "TraceID \<Rightarrow> uint64" where
  "randomBits tid = getUint64BE (drop 8 tid) AND (push_bit 56 1 - 1)"

definition KeepFraction_Evaluate :: "KeepFraction \<Rightarrow> Policy" where
  "KeepFraction_Evaluate p t =
     (let random = randomBits (tTraceID t)
      in if random < frThreshold p then Some (\<lparr>vKeep = True, vReason = ''sampled''\<rparr>, True)
         else Some (\<lparr>vKeep = False, vReason = ''sampled out''\<rparr>, True))"

subsection \<open>Errors\<close>

lemma runVisits_failed:
  "snd (runVisits (failedVisitor h) vs failed) \<longleftrightarrow>
     (if vs = [] then failed else \<exists>n \<in> set (map fst vs). \<not> Node_Missing (deref h n) \<and> Failed (spanOf h n))"
proof (induction vs arbitrary: failed)
  case (Cons v vs)
  obtain n depth where v: "v = (n, depth)" by fastforce
  show ?case
  proof (cases "\<not> Node_Missing (deref h n) \<and> Failed (spanOf h n)")
    case True
    then show ?thesis by (simp add: v failedVisitor_def [of h failed n depth])
  next
    case False
    then have "failedVisitor h failed n depth = (True, False)" by (auto simp: failedVisitor_def)
    with False Cons.IH [of False] show ?thesis by (auto simp: v)
  qed
qed simp

lemma built_received:
  assumes "tree_ok t" "built_from spans phase t" "n \<in> fset (tIDs t) \<union> set (tMissing t)"
  shows "\<not> Node_Missing (deref (tHeap t) n) \<longleftrightarrow> lastSpan spans n \<noteq> None"
proof (cases "lastSpan spans n")
  case None
  note b = assms(2) [unfolded built_from_def]
  have "n \<notin> fset (tIDs t)"
    using None b unfolding lastSpan_None allocated_spanHeap by simp
  with assms(3) have "n \<in> set (tMissing t)" by simp
  then have "nPresence (deref (tHeap t) n) = (if phase = Sealed then Lost else Awaited)" using b by blast
  with None show ?thesis by (simp add: Node_Missing_def)
next
  case (Some s)
  with assms(2) show ?thesis unfolding built_from_def by (simp add: Node_Missing_def)
qed

lemma KeepErrors_built:
  assumes "Build spans phase = Some (Inr t)"
  shows "KeepErrors_Evaluate t =
    Some (if \<exists>n s. lastSpan spans n = Some s \<and> Failed s then (\<lparr>vKeep = True, vReason = ''error''\<rparr>, True) else (zeroVerdict, False))"
proof -
  have ok: "tree_ok t" "built_from spans phase t" using Build_tree_ok [OF assms] by blast+
  let ?h = "tHeap t"
  have dom: "allocated ?h = fset (tIDs t) \<union> set (tMissing t)" using ok(1) by (simp add: tree_ok_def)
  have ids: "fset (tIDs t) = sSpanID ` set spans" using ok(2) by (simp add: built_from_def)
  have span: "spanOf ?h n = s" if "lastSpan spans n = Some s" for n s
    using that ok(2) unfolding built_from_def by blast
  have mem: "n \<in> allocated ?h" if "lastSpan spans n = Some s" for n s
    using that lastSpan_member [OF that] dom ids by auto
  have "(\<exists>n \<in> allocated ?h. \<not> Node_Missing (deref ?h n) \<and> Failed (spanOf ?h n)) \<longleftrightarrow> (\<exists>n s. lastSpan spans n = Some s \<and> Failed s)"
    (is "?L \<longleftrightarrow> ?R")
  proof
    assume ?L
    then obtain n where n: "n \<in> allocated ?h" "\<not> Node_Missing (deref ?h n)" "Failed (spanOf ?h n)" by blast
    then obtain s where "lastSpan spans n = Some s" using built_received [OF ok] dom by auto
    with span n(3) show ?R by metis
  next
    assume ?R
    then obtain n s where s: "lastSpan spans n = Some s" "Failed s" by blast
    then have "\<not> Node_Missing (deref ?h n)" using built_received [OF ok] mem [OF s(1)] dom by auto
    with s mem [OF s(1)] span [OF s(1)] show ?L by metis
  qed
  moreover have "snd (runVisits (failedVisitor ?h) (visitsTree t) False) \<longleftrightarrow>
      (\<exists>n \<in> allocated ?h. \<not> Node_Missing (deref ?h n) \<and> Failed (spanOf ?h n))"
    unfolding runVisits_failed using walk_tree(3) [OF ok(1)] by auto
  ultimately show ?thesis
    by (simp add: KeepErrors_Evaluate_def walk_tree(1) [OF ok(1)])
qed

subsection \<open>Duration\<close>

lemma foldl_widenRoots:
  "foldl (widenRoots h) w rs = (Min (insert (fst w) (starts h rs)), Max (insert (snd w) (ends h rs)))"
proof (induction rs arbitrary: w)
  case (Cons r rs)
  have "starts h (r # rs) = insert (sStart (spanOf h r)) (starts h rs)" "ends h (r # rs) = insert (sEnd (spanOf h r)) (ends h rs)"
    by (simp_all add: starts_def ends_def)
  moreover have fin: "finite (starts h rs)" "finite (ends h rs)" by (simp_all add: starts_def ends_def)
  moreover have "Min (insert (if a < b then a else b) S) = Min (insert b (insert a S))" if "finite S" for a b :: int and S
    using that by (cases "S = {}") (auto simp: min_def)
  moreover have "Max (insert (if b < a then a else b) S) = Max (insert b (insert a S))" if "finite S" for a b :: int and S
    using that by (cases "S = {}") (auto simp: max_def)
  ultimately show ?case
    unfolding foldl_Cons Cons.IH widenRoots_def [of h w r] by (simp del: Min_insert Max_insert)
qed (simp add: starts_def ends_def)

lemma Trace_Duration_roots:
  assumes "tRoots t \<noteq> []"
  shows "Trace_Duration t = Some (time_Sub (Max (ends (tHeap t) (tRoots t))) (Min (starts (tHeap t) (tRoots t))))"
proof -
  obtain r rs where "tRoots t = r # rs" using assms by (cases "tRoots t") auto
  then show ?thesis by (simp add: Trace_Duration_def foldl_widenRoots starts_def ends_def)
qed

lemma built_roots:
  assumes "Build spans phase = Some (Inr t)"
  shows "tRoots t \<noteq> []"
proof -
  have ok: "tree_ok t" "built_from spans phase t" using Build_tree_ok [OF assms] by blast+
  have "spans \<noteq> []" using assms by (auto simp: Build_def)
  then obtain n where "n \<in> fset (tIDs t)" using ok(2) by (cases spans) (auto simp: built_from_def)
  then have n: "n \<in> allocated (tHeap t)" using ok(1) by (simp add: tree_ok_def)
  have tree: "rooted (par (tHeap t)) n" "heap_ok (tHeap t)" using ok(1) unfolding tree_ok_def by blast+
  obtain r where r: "par (tHeap t) r = None" "below (par (tHeap t)) n r"
    using tree(1) unfolding rooted_below_root by blast
  have "r \<in> allocated (tHeap t)" by (rule below_up_allocated [OF r(2) tree(2) n])
  with r(1) ok(1) have "r \<in> set (tRoots t)" by (simp add: tree_ok_def)
  then show ?thesis by auto
qed

subsection \<open>Shares\<close>

lemma round64_top: "round64 (2 ^ 56) = FFin (2 ^ 56)"
  by (rule round64_power) simp

lemma f_le_unit: "f_le (FFin 0) share \<Longrightarrow> f_le share (FFin 1) \<Longrightarrow> \<exists>x. share = FFin x \<and> 0 \<le> x \<and> x \<le> 1"
  by (cases share) auto

definition shareBits :: "rat \<Rightarrow> int" where
  "shareBits x = (case round64 (x * 2 ^ 56) of FFin y \<Rightarrow> \<lfloor>y + 1 / 2\<rfloor> | _ \<Rightarrow> 0)"

lemma share_product:
  assumes "0 \<le> x" "x \<le> 1"
  shows "\<exists>y. round64 (x * 2 ^ 56) = FFin y \<and> 0 \<le> y \<and> y \<le> 2 ^ 56"
proof -
  have "f_le (round64 (x * 2 ^ 56)) (FFin (2 ^ 56))"
    unfolding round64_top [symmetric] using assms by (intro round64_mono) simp
  moreover have "f_le (FFin 0) (round64 (x * 2 ^ 56))" using assms by (intro round64_nonneg) simp
  ultimately show ?thesis by (cases "round64 (x * 2 ^ 56)") auto
qed

lemma shareBits_mono:
  assumes "0 \<le> x" "x \<le> y" "y \<le> 1"
  shows "shareBits x \<le> shareBits y"
proof -
  have "f_le (round64 (x * 2 ^ 56)) (round64 (y * 2 ^ 56))" using assms by (intro round64_mono) simp
  moreover obtain x' y' where "round64 (x * 2 ^ 56) = FFin x'" "round64 (y * 2 ^ 56) = FFin y'"
    using share_product [of x] share_product [of y] assms by auto
  ultimately show ?thesis by (simp add: shareBits_def floor_mono)
qed

lemma shareBits_ends: "shareBits 0 = 0" "shareBits 1 = 2 ^ 56"
proof -
  have half: "\<lfloor>of_int n + 1 / 2 :: rat\<rfloor> = n" for n by (simp add: floor_eq_iff)
  show "shareBits 0 = 0" using half [of 0] by (simp add: shareBits_def round64_def)
  have "(2 :: rat) ^ 56 = of_int (2 ^ 56)" by simp
  then show "shareBits 1 = 2 ^ 56"
    unfolding shareBits_def mult_1 round64_top float64.case by (simp only: half)
qed

lemma NewKeepFraction_unit:
  assumes "0 \<le> x" "x \<le> 1"
  shows "NewKeepFraction (FFin x) = Some (Inr \<lparr>frThreshold = word_of_int (shareBits x)\<rparr>)"
    "0 \<le> shareBits x" "shareBits x \<le> 2 ^ 56"
proof -
  obtain y where y: "round64 (x * 2 ^ 56) = FFin y" "0 \<le> y" "y \<le> 2 ^ 56" using share_product [OF assms] by blast
  show b: "0 \<le> shareBits x" "shareBits x \<le> 2 ^ 56"
    using shareBits_mono [of 0 x] shareBits_mono [of x 1] assms by (simp_all add: shareBits_ends)
  let ?z = "of_int (shareBits x) :: rat"
  have "?z \<le> of_int (2 ^ 56)" "0 \<le> ?z" using b by (simp_all only: of_int_le_iff of_int_0_le_iff)
  then have z: "0 \<le> ?z" "?z < 2 ^ 64" by simp_all
  have "math_Round (FFin y) = FFin ?z" using y by (simp add: shareBits_def)
  moreover have "uint64_of_float (FFin ?z) = Some (word_of_int (shareBits x))" using z by simp
  ultimately show "NewKeepFraction (FFin x) = Some (Inr \<lparr>frThreshold = word_of_int (shareBits x)\<rparr>)"
    using assms y(1) by (simp add: NewKeepFraction_def)
qed

lemma randomBits_less: "unat (randomBits tid) < 2 ^ 56"
proof -
  have "(push_bit 56 1 - 1 :: uint64) = mask 56" by (simp add: mask_eq_exp_minus_1 push_bit_eq_mult)
  then have "randomBits tid = take_bit 56 (getUint64BE (drop 8 tid))"
    by (simp add: randomBits_def take_bit_eq_mask)
  then have "unat (randomBits tid) = take_bit 56 (unat (getUint64BE (drop 8 tid)))"
    by (simp only: unsigned_take_bit_eq)
  then show ?thesis by (simp only: take_bit_nat_less_exp)
qed

definition keepsShare :: "KeepFraction \<Rightarrow> Tree \<Rightarrow> bool" where
  "keepsShare p t \<longleftrightarrow> KeepFraction_Evaluate p t = Some (\<lparr>vKeep = True, vReason = ''sampled''\<rparr>, True)"

lemma keepsShare_iff: "keepsShare p t \<longleftrightarrow> unat (randomBits (tTraceID t)) < unat (frThreshold p)"
  by (simp add: keepsShare_def KeepFraction_Evaluate_def word_less_nat_alt)

subsection \<open>Properties\<close>

text \<open>C37: \<open>NewKeepFraction\<close> accepts exactly the shares from 0 to 1. The threshold never exceeds
  \<open>2 ^ 56\<close>, a share of 0 keeps nothing, a share of 1 everything, and a trace kept at some share is
  kept at every larger one, so that samplers with different shares agree.\<close>

theorem KeepFraction_shares:
  assumes "f_le (FFin 0) a" "f_le a b" "f_le b (FFin 1)"
  shows "\<exists>p q. NewKeepFraction a = Some (Inr p) \<and> NewKeepFraction b = Some (Inr q) \<and> unat (frThreshold q) \<le> 2 ^ 56
    \<and> (\<forall>t. keepsShare p t \<longrightarrow> keepsShare q t) \<and> (a = FFin 0 \<longrightarrow> (\<forall>t. \<not> keepsShare p t)) \<and> (b = FFin 1 \<longrightarrow> (\<forall>t. keepsShare q t))"
proof -
  have "f_le a (FFin 1)" "f_le (FFin 0) b" using assms by (cases a; cases b; auto)+
  then obtain x y where xy: "a = FFin x" "b = FFin y" "0 \<le> x" "x \<le> 1" "0 \<le> y" "y \<le> 1" "x \<le> y"
    using f_le_unit [of a] f_le_unit [of b] assms by auto
  let ?p = "\<lparr>frThreshold = word_of_int (shareBits x)\<rparr>" and ?q = "\<lparr>frThreshold = word_of_int (shareBits y)\<rparr>"
  note p = NewKeepFraction_unit [OF xy(3,4)] and q = NewKeepFraction_unit [OF xy(5,6)]
  have unat: "unat (word_of_int n :: uint64) = nat n" if "0 \<le> n" "n \<le> 2 ^ 56" for n
    using that by (simp add: unsigned_of_int take_bit_int_eq_self)
  have up: "unat (frThreshold ?p) = nat (shareBits x)" "unat (frThreshold ?q) = nat (shareBits y)"
    using unat p(2,3) q(2,3) by simp_all
  have "shareBits x \<le> shareBits y" using xy by (intro shareBits_mono)
  then have mono: "keepsShare ?p t \<longrightarrow> keepsShare ?q t" for t
    unfolding keepsShare_iff up by (auto intro: less_le_trans nat_mono)
  have none: "a = FFin 0 \<longrightarrow> (\<forall>t. \<not> keepsShare ?p t)"
    unfolding keepsShare_iff up using xy(1) by (simp add: shareBits_ends)
  have all: "b = FFin 1 \<longrightarrow> (\<forall>t. keepsShare ?q t)"
  proof
    assume "b = FFin 1"
    then have "shareBits y = 2 ^ 56" using xy(2) by (simp only: float64.inject shareBits_ends)
    then have "nat (shareBits y) = 2 ^ 56" by simp
    then show "\<forall>t. keepsShare ?q t" unfolding keepsShare_iff up using randomBits_less by metis
  qed
  have "unat (frThreshold ?q) \<le> 2 ^ 56" unfolding up using q(3) by simp
  then show ?thesis using p(1) q(1) xy(1,2) mono none all by blast
qed

theorem KeepFraction_shares_witness:
  "\<exists>p q. NewKeepFraction (FFin 0) = Some (Inr p) \<and> NewKeepFraction (FFin 1) = Some (Inr q)
    \<and> (\<forall>t. \<not> keepsShare p t) \<and> (\<forall>t. keepsShare q t)"
proof -
  have "f_le (FFin 0) (FFin 0)" "f_le (FFin 0) (FFin 1)" "f_le (FFin 1) (FFin 1)" by simp_all
  from KeepFraction_shares [OF this] show ?thesis by blast
qed

end
