(* ===== verification/Sampler.thy ===== *)
theory Sampler
  imports Policy
begin

section \<open>The tail sampler: internal/sampler/sampler.go\<close>

text \<open>
  The sampler's state is one record. The code holds a mutex for parts of an operation and lets
  go of it in between; each stretch under the lock is one definition here (\<open>acceptLocked\<close>,
  \<open>takeDue\<close>, \<open>allowLocked\<close>, \<open>settleLocked\<close>, \<open>forgetLocked\<close>, \<open>takeLate\<close>, \<open>loseLate\<close>), and the
  operations compose them in the order of the code. The interleaving of operations is the
  subject of the theory Sampler\_Steps.

  What the sampler calls is an environment: the clock (\<open>Config.Now\<close>) and the writer, both acting
  on a state of their own. Counters are integers; a counter that passes 63 bits would need as
  many spans. The outcome \<open>None\<close> of an operation is a panic.
\<close>

subsection \<open>State\<close>

record Config =
  cQuiet :: Duration
  cMaxAge :: Duration
  cMaxSpans :: int
  cPolicies :: "Policy list"
  cRemember :: Duration
  cMaxDecisions :: int
  cServiceRate :: float64
  cServiceBurst :: int

record Stats =
  stAccepted :: int
  stRefused :: int
  stBuffered :: int
  stTraces :: int
  stKept :: int
  stDropped :: int
  stKeptSpans :: int
  stDroppedSpans :: int
  stReasons :: "(string, int) fmap"
  stSealedByAge :: int
  stLost :: int
  stLateKept :: int
  stLateDropped :: int
  stDecisions :: int

record bucket =
  bTokens :: float64
  bAt :: Time

record decision =
  dKeep :: bool
  dAt :: Time

record remembered =
  rID :: TraceID
  rAt :: Time

record pending =
  pID :: TraceID
  pSpans :: "Span list"
  pFirst :: Time
  pLast :: Time

record Sampler =
  smConfig :: Config
  smPending :: "(TraceID, pending) fmap"
  smStats :: Stats
  smJudging :: "(TraceID, Span list) fmap"
  smDecided :: "(TraceID, decision) fmap"
  smOrder :: "remembered list"
  smLate :: "(TraceID, Span list) fmap"
  smBuckets :: "(string, bucket) fmap"

datatype SamplerError = ErrBatchTooLarge int int | ErrSinkFull int int

datatype ConfigError = NoWriter | BadQuiet Duration | BadMaxAge Duration Duration | BadMaxSpans int | BadRemember Duration
  | BadMaxDecisions int | BadServiceRate float64 | BadServiceBurst int

datatype 'e WriteError = WriteKept TraceID 'e | WriteLate TraceID 'e

record ('w, 'e) Env =
  eNow :: "'w \<Rightarrow> Time \<times> 'w"
  eWrite :: "Span list \<Rightarrow> 'w \<Rightarrow> 'e option \<times> 'w"

definition zeroStats :: Stats where
  "zeroStats = \<lparr>stAccepted = 0, stRefused = 0, stBuffered = 0, stTraces = 0, stKept = 0, stDropped = 0, stKeptSpans = 0,
     stDroppedSpans = 0, stReasons = fmempty, stSealedByAge = 0, stLost = 0, stLateKept = 0, stLateDropped = 0, stDecisions = 0\<rparr>"

definition New :: "Config \<Rightarrow> bool \<Rightarrow> ConfigError + Sampler" where
  "New cfg outNil =
     (if outNil then Inl NoWriter
      else if cQuiet cfg \<le> 0 then Inl (BadQuiet (cQuiet cfg))
      else if cMaxAge cfg < cQuiet cfg then Inl (BadMaxAge (cMaxAge cfg) (cQuiet cfg))
      else if cMaxSpans cfg \<le> 0 then Inl (BadMaxSpans (cMaxSpans cfg))
      else if cRemember cfg < 0 then Inl (BadRemember (cRemember cfg))
      else if 0 < cRemember cfg \<and> cMaxDecisions cfg \<le> 0 then Inl (BadMaxDecisions (cMaxDecisions cfg))
      else if \<not> f_le (FFin 0) (cServiceRate cfg) then Inl (BadServiceRate (cServiceRate cfg))
      else if f_lt (FFin 0) (cServiceRate cfg) \<and> cServiceBurst cfg < 1 then Inl (BadServiceBurst (cServiceBurst cfg))
      else Inr \<lparr>smConfig = cfg, smPending = fmempty, smStats = zeroStats, smJudging = fmempty, smDecided = fmempty,
                smOrder = [], smLate = fmempty, smBuckets = fmempty\<rparr>)"

subsection \<open>Accept\<close>

definition verdict :: "Sampler \<Rightarrow> TraceID \<Rightarrow> Time \<Rightarrow> bool \<times> bool" where
  "verdict s tid now =
     (if fmlookup (smJudging s) tid \<noteq> None then (False, False)
      else case fmlookup (smDecided s) tid of
             None \<Rightarrow> (False, False)
           | Some d \<Rightarrow> if cRemember (smConfig s) \<le> time_Sub now (dAt d) then (False, False) else (dKeep d, True))"

text \<open>How many of the spans take room: the first loop.\<close>

fun countHeld :: "Sampler \<Rightarrow> Time \<Rightarrow> Span list \<Rightarrow> int \<Rightarrow> int" where
  "countHeld s now [] held = held"
| "countHeld s now (sp # sps) held =
     (let (keep, decided) = verdict s (sTraceID sp) now
      in countHeld s now sps (if \<not> decided \<or> keep then held + 1 else held))"

definition acceptSpan :: "Time \<Rightarrow> Sampler \<Rightarrow> Span \<Rightarrow> Sampler" where
  "acceptSpan now s sp =
     (let tid = sTraceID sp
      in case fmlookup (smJudging s) tid of
           Some waiting \<Rightarrow> s\<lparr>smJudging := fmupd tid (waiting @ [sp]) (smJudging s)\<rparr>
         | None \<Rightarrow>
             (case verdict s tid now of
                (keep, True) \<Rightarrow>
                  if keep
                  then s\<lparr>smLate := fmupd tid (getSlice (smLate s) tid @ [sp]) (smLate s),
                         smStats := (smStats s)\<lparr>stLateKept := stLateKept (smStats s) + 1\<rparr>\<rparr>
                  else s\<lparr>smStats := (smStats s)\<lparr>stLateDropped := stLateDropped (smStats s) + 1\<rparr>\<rparr>
              | (keep, False) \<Rightarrow>
                  let p = (case fmlookup (smPending s) tid of
                             Some p \<Rightarrow> p | None \<Rightarrow> \<lparr>pID = tid, pSpans = [], pFirst = now, pLast = zeroTime\<rparr>)
                  in s\<lparr>smPending := fmupd tid (p\<lparr>pSpans := pSpans p @ [sp], pLast := now\<rparr>) (smPending s)\<rparr>))"

definition acceptLocked :: "Time \<Rightarrow> Span list \<Rightarrow> Sampler \<Rightarrow> SamplerError option \<times> Sampler" where
  "acceptLocked now spans s =
     (let held = countHeld s now spans 0; st = smStats s
      in if cMaxSpans (smConfig s) < stBuffered st + held
         then (Some (ErrSinkFull (stBuffered st) (cMaxSpans (smConfig s))),
               s\<lparr>smStats := st\<lparr>stRefused := stRefused st + int (length spans)\<rparr>\<rparr>)
         else
           let s = foldl (acceptSpan now) s spans; st = smStats s
           in (None, s\<lparr>smStats := st\<lparr>stAccepted := stAccepted st + int (length spans), stBuffered := stBuffered st + held\<rparr>\<rparr>))"

definition Accept :: "('w, 'e) Env \<Rightarrow> Span list \<Rightarrow> Sampler \<Rightarrow> 'w \<Rightarrow> SamplerError option \<times> Sampler \<times> 'w" where
  "Accept E spans s w =
     (if cMaxSpans (smConfig s) < int (length spans)
      then (Some (ErrBatchTooLarge (int (length spans)) (cMaxSpans (smConfig s))), s, w)
      else
        let (now, w) = eNow E w; (err, s) = acceptLocked now spans s
        in (err, s, w))"

subsection \<open>Rate limiting\<close>

definition refill :: "Time \<Rightarrow> float64 \<Rightarrow> int \<Rightarrow> bucket \<Rightarrow> bucket" where
  "refill now rate burst b =
     (let elapsed = time_Sub now (bAt b)
      in if 0 < elapsed
         then \<lparr>bTokens = f_min (f_of_int burst) (f_add (bTokens b) (f_mul rate (Duration_Seconds elapsed))), bAt = now\<rparr>
         else b)"

definition allowLocked :: "Time \<Rightarrow> string \<Rightarrow> Sampler \<Rightarrow> bool \<times> Sampler" where
  "allowLocked now service s =
     (let burst = cServiceBurst (smConfig s);
          b = (case fmlookup (smBuckets s) service of Some b \<Rightarrow> b | None \<Rightarrow> \<lparr>bTokens = f_of_int burst, bAt = now\<rparr>);
          b = refill now (cServiceRate (smConfig s)) burst b
      in if f_lt (bTokens b) (FFin 1) then (False, s\<lparr>smBuckets := fmupd service b (smBuckets s)\<rparr>)
         else (True, s\<lparr>smBuckets := fmupd service (b\<lparr>bTokens := f_sub (bTokens b) (FFin 1)\<rparr>) (smBuckets s)\<rparr>))"

definition allow :: "('w, 'e) Env \<Rightarrow> string \<Rightarrow> Sampler \<Rightarrow> 'w \<Rightarrow> bool \<times> Sampler \<times> 'w" where
  "allow E service s w = (let (now, w) = eNow E w; (ok, s) = allowLocked now service s in (ok, s, w))"

definition serviceVisitor :: "heap \<Rightarrow> string visitor" where
  "serviceVisitor h service n depth = (if Node_Missing (deref h n) then (True, service) else (False, sService (spanOf h n)))"

definition rootService :: "Tree \<Rightarrow> string option" where
  "rootService t = Walk (serviceVisitor (tHeap t)) t []"

subsection \<open>Remembering verdicts\<close>

text \<open>Giving memory back when the dead prefix of \<open>order\<close> grows is not visible in the state.\<close>

definition forgetOldest :: "Sampler \<Rightarrow> Sampler option" where
  "forgetOldest s =
     (case smOrder s of
        [] \<Rightarrow> None
      | oldest # order \<Rightarrow>
          Some (s\<lparr>smOrder := order,
                  smDecided := (case fmlookup (smDecided s) (rID oldest) of
                                  Some d \<Rightarrow> if dAt d = rAt oldest then fmdrop (rID oldest) (smDecided s) else smDecided s
                                | None \<Rightarrow> smDecided s)\<rparr>))"

lemma forgetOldest_shorter [termination_simp]: "forgetOldest s = Some s' \<Longrightarrow> length (smOrder s') < length (smOrder s)"
  by (auto simp: forgetOldest_def split: list.splits)

function trimDecisions :: "Sampler \<Rightarrow> Sampler option" where
  "trimDecisions s =
     (if cMaxDecisions (smConfig s) < int (mapLen (smDecided s))
      then (case forgetOldest s of None \<Rightarrow> None | Some s \<Rightarrow> trimDecisions s)
      else Some s)"
  by pat_completeness auto
termination
  by (relation "measure (\<lambda>s. length (smOrder s))") (auto simp: forgetOldest_shorter)

function forgetExpired :: "Time \<Rightarrow> Sampler \<Rightarrow> Sampler" where
  "forgetExpired now s =
     (case smOrder s of
        [] \<Rightarrow> s
      | oldest # order \<Rightarrow>
          if cRemember (smConfig s) \<le> time_Sub now (rAt oldest)
          then (case forgetOldest s of None \<Rightarrow> s | Some s \<Rightarrow> forgetExpired now s)
          else s)"
  by pat_completeness auto
termination
  by (relation "measure (\<lambda>(now, s). length (smOrder s))") (auto dest: forgetOldest_shorter)

declare trimDecisions.simps [simp del] forgetExpired.simps [simp del]

definition settle :: "Time \<Rightarrow> TraceID \<Rightarrow> bool \<Rightarrow> Sampler \<Rightarrow> Sampler option" where
  "settle now tid keep s =
     (let waiting = getSlice (smJudging s) tid; st = smStats s;
          s = s\<lparr>smJudging := fmdrop tid (smJudging s)\<rparr>;
          s = (if waiting = [] then s
               else if keep
               then s\<lparr>smLate := fmupd tid (getSlice (smLate s) tid @ waiting) (smLate s),
                      smStats := st\<lparr>stLateKept := stLateKept st + int (length waiting)\<rparr>\<rparr>
               else s\<lparr>smStats := st\<lparr>stBuffered := stBuffered st - int (length waiting),
                                   stLateDropped := stLateDropped st + int (length waiting)\<rparr>\<rparr>)
      in if cRemember (smConfig s) \<le> 0 then Some s
         else trimDecisions (s\<lparr>smDecided := fmupd tid \<lparr>dKeep = keep, dAt = now\<rparr> (smDecided s),
                               smOrder := smOrder s @ [\<lparr>rID = tid, rAt = now\<rparr>]\<rparr>))"

definition forgetLocked :: "Time \<Rightarrow> Sampler \<Rightarrow> Sampler" where
  "forgetLocked now s =
     (let s = forgetExpired now s; rate = cServiceRate (smConfig s); burst = cServiceBurst (smConfig s);
          refilled = fmmap (refill now rate burst) (smBuckets s)
      in s\<lparr>smBuckets := fmfilter (\<lambda>service. case fmlookup refilled service of
                                    None \<Rightarrow> False | Some b \<Rightarrow> \<not> f_le (f_of_int burst) (bTokens b)) refilled\<rparr>)"

subsection \<open>Judging\<close>

type_synonym due = "pending \<Rightarrow> Stats \<Rightarrow> bool \<times> Stats"

fun takeDue :: "due \<Rightarrow> TraceID list \<Rightarrow> pending list \<Rightarrow> Sampler \<Rightarrow> pending list \<times> Sampler" where
  "takeDue due [] ready s = (ready, s)"
| "takeDue due (tid # tids) ready s =
     (case fmlookup (smPending s) tid of
        None \<Rightarrow> takeDue due tids ready s
      | Some p \<Rightarrow>
          let (yes, st) = due p (smStats s)
          in if yes
             then takeDue due tids (ready @ [p])
                    (s\<lparr>smPending := fmdrop tid (smPending s), smJudging := fmupd tid [] (smJudging s),
                       smStats := st\<lparr>stBuffered := stBuffered st - int (length (pSpans p))\<rparr>\<rparr>)
             else takeDue due tids ready (s\<lparr>smStats := st\<rparr>))"

definition byFirst :: "pending \<Rightarrow> pending \<Rightarrow> int" where
  "byFirst a b = (let c = time_Compare (pFirst a) (pFirst b) in if c \<noteq> 0 then c else compareBytes (pID a) (pID b))"

text \<open>\<open>decide\<close>: the verdict of the policies, before and after the rate limit, then the write, then
  the bookkeeping.\<close>

definition judgeTree :: "Config \<Rightarrow> pending \<Rightarrow> (Tree \<times> Verdict) option" where
  "judgeTree cfg p =
     (case Build (pSpans p) Sealed of
        Some (Inr t) \<Rightarrow> map_option (Pair t) (Decide t (cPolicies cfg))
      | _ \<Rightarrow> None)"

definition limited :: "Config \<Rightarrow> Verdict \<Rightarrow> bool" where
  "limited cfg v \<longleftrightarrow> vKeep v \<and> f_lt (FFin 0) (cServiceRate cfg)"

definition rateLimitedVerdict :: Verdict where
  "rateLimitedVerdict = \<lparr>vKeep = False, vReason = ''rate limited''\<rparr>"

definition limitRate :: "('w, 'e) Env \<Rightarrow> Tree \<Rightarrow> Verdict \<Rightarrow> Sampler \<Rightarrow> 'w \<Rightarrow> (Verdict \<times> Sampler \<times> 'w) option" where
  "limitRate E t v s w =
     (if limited (smConfig s) v
      then (case rootService t of
              None \<Rightarrow> None
            | Some service \<Rightarrow>
                let (ok, s, w) = allow E service s w in Some (if ok then v else rateLimitedVerdict, s, w))
      else Some (v, s, w))"

definition countVerdict :: "Verdict \<Rightarrow> bool \<Rightarrow> int \<Rightarrow> Stats \<Rightarrow> Stats" where
  "countVerdict v failed n st =
     (let st = st\<lparr>stReasons := fmupd (vReason v) ((case fmlookup (stReasons st) (vReason v) of None \<Rightarrow> 0 | Some k \<Rightarrow> k) + 1) (stReasons st)\<rparr>
      in if \<not> vKeep v then st\<lparr>stDropped := stDropped st + 1, stDroppedSpans := stDroppedSpans st + n\<rparr>
         else if failed then st\<lparr>stLost := stLost st + n\<rparr>
         else st\<lparr>stKept := stKept st + 1, stKeptSpans := stKeptSpans st + n\<rparr>)"

definition settleLocked :: "Time \<Rightarrow> pending \<Rightarrow> Verdict \<Rightarrow> bool \<Rightarrow> Sampler \<Rightarrow> Sampler option" where
  "settleLocked now p v failed s =
     map_option (\<lambda>s. s\<lparr>smStats := countVerdict v failed (int (length (pSpans p))) (smStats s)\<rparr>) (settle now (pID p) (vKeep v) s)"

text \<open>The clock is read for a verdict only when verdicts are remembered.\<close>

definition settleTime :: "('w, 'e) Env \<Rightarrow> Config \<Rightarrow> 'w \<Rightarrow> Time \<times> 'w" where
  "settleTime E cfg w = (if cRemember cfg \<le> 0 then (zeroTime, w) else eNow E w)"

definition decide :: "('w, 'e) Env \<Rightarrow> pending \<Rightarrow> Sampler \<Rightarrow> 'w \<Rightarrow> ('e WriteError option \<times> Sampler \<times> 'w) option" where
  "decide E p s w =
     (case judgeTree (smConfig s) p of
        None \<Rightarrow> None
      | Some (t, v) \<Rightarrow>
          (case limitRate E t v s w of
             None \<Rightarrow> None
           | Some (v, s, w) \<Rightarrow>
               let (err, w) = (if vKeep v then eWrite E (pSpans p) w else (None, w));
                   (now, w) = settleTime E (smConfig s) w
               in map_option (\<lambda>s. (map_option (WriteKept (pID p)) err, s, w)) (settleLocked now p v (err \<noteq> None) s)))"

fun decideAll :: "('w, 'e) Env \<Rightarrow> pending list \<Rightarrow> Sampler \<Rightarrow> 'w \<Rightarrow> ('e WriteError list \<times> Sampler \<times> 'w) option" where
  "decideAll E [] s w = Some ([], s, w)"
| "decideAll E (p # ps) s w =
     (case decide E p s w of
        None \<Rightarrow> None
      | Some (err, s, w) \<Rightarrow>
          map_option (\<lambda>(errs, r). ((case err of None \<Rightarrow> errs | Some e \<Rightarrow> e # errs), r)) (decideAll E ps s w))"

definition judge :: "('w, 'e) Env \<Rightarrow> due \<Rightarrow> Sampler \<Rightarrow> 'w \<Rightarrow> ('e WriteError list \<times> Sampler \<times> 'w) option" where
  "judge E due s w =
     (let (ready, s) = takeDue due (mapKeys (smPending s)) [] s
      in decideAll E (sortFunc byFirst ready) s w)"

subsection \<open>Late spans\<close>

definition takeLate :: "Sampler \<Rightarrow> (TraceID, Span list) fmap \<times> Sampler" where
  "takeLate s =
     (let late = smLate s; st = smStats s
      in (late, s\<lparr>smLate := fmempty,
                  smStats := st\<lparr>stBuffered := foldl (\<lambda>n tid. n - int (length (getSlice late tid))) (stBuffered st) (mapKeys late)\<rparr>\<rparr>))"

definition loseLate :: "Span list \<Rightarrow> Sampler \<Rightarrow> Sampler" where
  "loseLate spans s = s\<lparr>smStats := (smStats s)\<lparr>stLost := stLost (smStats s) + int (length spans)\<rparr>\<rparr>"

fun writeLateLoop :: "('w, 'e) Env \<Rightarrow> (TraceID, Span list) fmap \<Rightarrow> TraceID list \<Rightarrow> Sampler \<Rightarrow> 'w \<Rightarrow> 'e WriteError list \<times> Sampler \<times> 'w" where
  "writeLateLoop E late [] s w = ([], s, w)"
| "writeLateLoop E late (tid # tids) s w =
     (let spans = getSlice late tid
      in case eWrite E spans w of
           (None, w) \<Rightarrow> writeLateLoop E late tids s w
         | (Some err, w) \<Rightarrow>
             let (errs, r) = writeLateLoop E late tids (loseLate spans s) w in (WriteLate tid err # errs, r))"

definition writeLate :: "('w, 'e) Env \<Rightarrow> Sampler \<Rightarrow> 'w \<Rightarrow> 'e WriteError list \<times> Sampler \<times> 'w" where
  "writeLate E s w =
     (let (late, s) = takeLate s
      in writeLateLoop E late (sortFunc compareBytes (mapKeys late)) s w)"

subsection \<open>Sweep, Flush, Run and Stats\<close>

definition sweepDue :: "Config \<Rightarrow> Time \<Rightarrow> due" where
  "sweepDue cfg now p st =
     (if cQuiet cfg \<le> time_Sub now (pLast p) then (True, st)
      else if cMaxAge cfg \<le> time_Sub now (pFirst p) then (True, st\<lparr>stSealedByAge := stSealedByAge st + 1\<rparr>)
      else (False, st))"

definition Sweep :: "('w, 'e) Env \<Rightarrow> Sampler \<Rightarrow> 'w \<Rightarrow> ('e WriteError list \<times> Sampler \<times> 'w) option" where
  "Sweep E s w =
     (let (now, w) = eNow E w
      in case judge E (sweepDue (smConfig s) now) s w of
           None \<Rightarrow> None
         | Some (errs, s, w) \<Rightarrow>
             let (late, s, w) = writeLate E (forgetLocked now s) w in Some (errs @ late, s, w))"

definition Flush :: "('w, 'e) Env \<Rightarrow> Sampler \<Rightarrow> 'w \<Rightarrow> ('e WriteError list \<times> Sampler \<times> 'w) option" where
  "Flush E s w =
     (case judge E (\<lambda>p st. (True, st)) s w of
        None \<Rightarrow> None
      | Some (errs, s, w) \<Rightarrow> let (late, s, w) = writeLate E s w in Some (errs @ late, s, w))"

text \<open>\<open>Run\<close> with \<open>n\<close> ticks before its context is done; the errors of a sweep are only logged.\<close>

fun Run :: "('w, 'e) Env \<Rightarrow> nat \<Rightarrow> Sampler \<Rightarrow> 'w \<Rightarrow> ('e WriteError list \<times> Sampler \<times> 'w) option" where
  "Run E 0 s w = Flush E s w"
| "Run E (Suc n) s w = (case Sweep E s w of None \<Rightarrow> None | Some (errs, s, w) \<Rightarrow> Run E n s w)"

definition Sampler_Stats :: "Sampler \<Rightarrow> Stats" where
  "Sampler_Stats s = (smStats s)\<lparr>stTraces := int (mapLen (smPending s)), stDecisions := int (mapLen (smDecided s))\<rparr>"

end
