(* ===== verification/Sampler_Inv.thy ===== *)
theory Sampler_Inv
  imports Sampler
begin

section \<open>What the sampler's state satisfies\<close>

text \<open>
  The spans a sampler holds, as a multiset, and three invariants: what is held is what \<open>Buffered\<close>
  counts and stays within \<open>MaxSpans\<close> (\<open>holds_ok\<close>, with every span filed under its own trace), every remembered verdict has an entry in the
  forgetting order and there are at most \<open>MaxDecisions\<close> (\<open>verdicts_ok\<close>), and every allowance lies
  between zero and the burst (\<open>buckets_ok\<close>). Each stretch under the lock keeps them.
\<close>

subsection \<open>The contents of a map of slices\<close>

definition mapBag :: "('v \<Rightarrow> 'a multiset) \<Rightarrow> ('k, 'v) fmap \<Rightarrow> 'a multiset" where
  "mapBag f m = (\<Sum>k \<in> fset (fmdom m). f (the (fmlookup m k)))"

lemma in_fmdom: "k |\<in>| fmdom m \<longleftrightarrow> fmlookup m k \<noteq> None"
  by (auto simp: fmlookup_dom_iff)

lemma mapBag_empty [simp]: "mapBag f fmempty = {#}"
  by (simp add: mapBag_def)

lemma mapBag_fmdrop: "fmlookup m k = Some v \<Longrightarrow> mapBag f m = f v + mapBag f (fmdrop k m)"
proof -
  assume k: "fmlookup m k = Some v"
  then have mem: "k \<in> fset (fmdom m)" by (simp add: fmlookup_dom_iff)
  have "mapBag f (fmdrop k m) = (\<Sum>k' \<in> fset (fmdom m) - {k}. f (the (fmlookup m k')))"
    unfolding mapBag_def by (intro sum.cong) auto
  then show ?thesis
    unfolding mapBag_def using sum.remove [OF _ mem, of "\<lambda>k. f (the (fmlookup m k))"] k by simp
qed

lemma fmdrop_absent: "fmlookup m k = None \<Longrightarrow> fmdrop k m = m"
  by (rule fmap_ext) simp

lemma mapBag_fmupd: "mapBag f (fmupd k v m) = f v + mapBag f (fmdrop k m)"
proof -
  have "fmdrop k (fmupd k v m) = fmdrop k m" by (rule fmap_ext) simp
  then show ?thesis using mapBag_fmdrop [of "fmupd k v m" k v f] by simp
qed

lemma mapBag_fmupd_absent: "fmlookup m k = None \<Longrightarrow> mapBag f (fmupd k v m) = f v + mapBag f m"
  by (simp add: mapBag_fmupd fmdrop_absent)

lemma mapBag_getSlice: "mapBag mset m = mset (getSlice m k) + mapBag mset (fmdrop k m)"
  by (cases "fmlookup m k") (simp_all add: getSlice_def mapBag_fmdrop fmdrop_absent)

lemma mapBag_append: "mapBag mset (fmupd k (getSlice m k @ xs) m) = mapBag mset m + mset xs"
  unfolding mapBag_fmupd mapBag_getSlice [of m k] by simp

lemma mapBag_keys: "mapBag mset m = (\<Sum>k \<leftarrow> mapKeys m. mset (getSlice m k))"
proof -
  have "(\<Sum>k \<leftarrow> mapKeys m. mset (getSlice m k)) = (\<Sum>k \<in> set (mapKeys m). mset (getSlice m k))"
    by (rule sum_list_distinct_conv_sum_set) simp
  also have "\<dots> = mapBag mset m"
    unfolding mapBag_def by (intro sum.cong) (auto simp: getSlice_def fmlookup_dom_iff mapKeys_def)
  finally show ?thesis ..
qed

subsection \<open>What is held\<close>

definition heldBag :: "Sampler \<Rightarrow> Span multiset" where
  "heldBag s = mapBag (\<lambda>p. mset (pSpans p)) (smPending s) + mapBag mset (smJudging s) + mapBag mset (smLate s)"

definition pending_ok :: "TraceID \<Rightarrow> pending \<Rightarrow> bool" where
  "pending_ok tid p \<longleftrightarrow> pID p = tid \<and> pSpans p \<noteq> [] \<and> (\<forall>sp \<in> set (pSpans p). sTraceID sp = tid)"

definition places_ok :: "Sampler \<Rightarrow> bool" where
  "places_ok s \<longleftrightarrow>
     (\<forall>tid p. fmlookup (smPending s) tid = Some p \<longrightarrow> pending_ok tid p \<and> fmlookup (smJudging s) tid = None)
     \<and> (\<forall>tid xs. fmlookup (smJudging s) tid = Some xs \<longrightarrow> (\<forall>sp \<in> set xs. sTraceID sp = tid))
     \<and> (\<forall>tid xs. fmlookup (smLate s) tid = Some xs \<longrightarrow> (\<forall>sp \<in> set xs. sTraceID sp = tid))"

lemma heldBag_stats [simp]: "heldBag (s\<lparr>smStats := st\<rparr>) = heldBag s"
  by (simp add: heldBag_def)

lemma places_stats [simp]: "places_ok (s\<lparr>smStats := st\<rparr>) \<longleftrightarrow> places_ok s"
  by (simp add: places_ok_def)

definition holds_ok :: "Sampler \<Rightarrow> bool" where
  "holds_ok s \<longleftrightarrow> places_ok s
     \<and> stBuffered (smStats s) = int (size (heldBag s)) \<and> stBuffered (smStats s) \<le> cMaxSpans (smConfig s)"

definition verdicts_ok :: "Sampler \<Rightarrow> bool" where
  "verdicts_ok s \<longleftrightarrow>
     (\<forall>tid d. fmlookup (smDecided s) tid = Some d \<longrightarrow> (\<exists>r \<in> set (smOrder s). rID r = tid \<and> rAt r = dAt d))
     \<and> int (mapLen (smDecided s)) \<le> max 0 (cMaxDecisions (smConfig s))
     \<and> (cRemember (smConfig s) \<le> 0 \<longrightarrow> smOrder s = [])"

definition bucket_ok :: "int \<Rightarrow> bucket \<Rightarrow> bool" where
  "bucket_ok burst b \<longleftrightarrow> f_le (FFin 0) (bTokens b) \<and> f_le (bTokens b) (f_of_int burst)"

definition buckets_ok :: "Sampler \<Rightarrow> bool" where
  "buckets_ok s \<longleftrightarrow> (\<forall>service b. fmlookup (smBuckets s) service = Some b \<longrightarrow> bucket_ok (cServiceBurst (smConfig s)) b)"

definition config_ok :: "Config \<Rightarrow> bool" where
  "config_ok cfg \<longleftrightarrow> 0 < cQuiet cfg \<and> cQuiet cfg \<le> cMaxAge cfg \<and> 0 < cMaxSpans cfg \<and> 0 \<le> cRemember cfg
     \<and> (0 < cRemember cfg \<longrightarrow> 0 < cMaxDecisions cfg) \<and> f_le (FFin 0) (cServiceRate cfg)
     \<and> (f_lt (FFin 0) (cServiceRate cfg) \<longrightarrow> 1 \<le> cServiceBurst cfg)"

definition sampler_inv :: "Sampler \<Rightarrow> bool" where
  "sampler_inv s \<longleftrightarrow> config_ok (smConfig s) \<and> holds_ok s \<and> verdicts_ok s \<and> buckets_ok s"

lemma New_ok:
  "New cfg outNil = Inr s \<longleftrightarrow> \<not> outNil \<and> config_ok cfg
     \<and> s = \<lparr>smConfig = cfg, smPending = fmempty, smStats = zeroStats, smJudging = fmempty, smDecided = fmempty,
            smOrder = [], smLate = fmempty, smBuckets = fmempty\<rparr>"
  unfolding New_def config_ok_def by auto

lemma New_inv: "New cfg outNil = Inr s \<Longrightarrow> sampler_inv s"
  by (auto simp: New_ok sampler_inv_def holds_ok_def places_ok_def verdicts_ok_def buckets_ok_def heldBag_def zeroStats_def config_ok_def)

subsection \<open>Accept\<close>

lemma countHeld_filter:
  "countHeld s now spans held =
     held + int (length (filter (\<lambda>sp. verdict s (sTraceID sp) now \<noteq> (False, True)) spans))"
proof (induction spans arbitrary: held)
  case (Cons sp spans)
  then show ?case by (cases "verdict s (sTraceID sp) now") auto
qed simp

text \<open>Spans of traces dropped before: they take no room.\<close>

definition lateDropped :: "Sampler \<Rightarrow> Time \<Rightarrow> Span list \<Rightarrow> Span multiset" where
  "lateDropped s now spans = {#sp \<in># mset spans. verdict s (sTraceID sp) now = (False, True)#}"

lemma countHeld_lateDropped: "countHeld s now spans 0 = int (length spans) - int (size (lateDropped s now spans))"
  unfolding countHeld_filter lateDropped_def
  using sum_length_filter_compl [of "\<lambda>sp. verdict s (sTraceID sp) now = (False, True)" spans]
  by (simp add: mset_filter [symmetric] del: mset_filter)

lemma acceptSpan_same [simp]:
  "smConfig (acceptSpan now s sp) = smConfig s" "smDecided (acceptSpan now s sp) = smDecided s"
  "smOrder (acceptSpan now s sp) = smOrder s" "smBuckets (acceptSpan now s sp) = smBuckets s"
  "fmlookup (smJudging (acceptSpan now s sp)) tid = None \<longleftrightarrow> fmlookup (smJudging s) tid = None"
  by (auto simp: acceptSpan_def Let_def split: option.splits prod.splits bool.splits)

lemma verdict_acceptSpan [simp]: "verdict (acceptSpan now s sp) tid now' = verdict s tid now'"
  unfolding verdict_def by (simp split: option.splits)

lemma heldBag_acceptSpan:
  "heldBag (acceptSpan now s sp) = heldBag s + (if verdict s (sTraceID sp) now = (False, True) then {#} else {#sp#})"
proof (cases "fmlookup (smJudging s) (sTraceID sp)")
  case (Some waiting)
  then have "verdict s (sTraceID sp) now = (False, False)" by (simp add: verdict_def)
  moreover have "waiting = getSlice (smJudging s) (sTraceID sp)" using Some by (simp add: getSlice_def)
  ultimately show ?thesis
    using Some by (simp add: acceptSpan_def Let_def heldBag_def mapBag_append)
next
  case None
  obtain keep decided where v: "verdict s (sTraceID sp) now = (keep, decided)" by fastforce
  consider "decided" "keep" | "decided" "\<not> keep" | "\<not> decided" by blast
  then show ?thesis
  proof cases
    case 3
    show ?thesis
    proof (cases "fmlookup (smPending s) (sTraceID sp)")
      case (Some p)
      then show ?thesis
        using None v 3 mapBag_fmdrop [OF Some, of "\<lambda>p. mset (pSpans p)"]
        by (simp add: acceptSpan_def Let_def heldBag_def mapBag_fmupd)
    qed (use None v 3 in \<open>simp add: acceptSpan_def Let_def heldBag_def mapBag_fmupd_absent\<close>)
  qed (use None v in \<open>simp_all add: acceptSpan_def Let_def heldBag_def mapBag_append\<close>)
qed

lemma heldBag_acceptSpans:
  "heldBag (foldl (acceptSpan now) s spans) + lateDropped s now spans = heldBag s + mset spans"
proof (induction spans arbitrary: s)
  case (Cons sp spans)
  have "lateDropped (acceptSpan now s sp) now spans = lateDropped s now spans" by (simp add: lateDropped_def)
  with Cons [of "acceptSpan now s sp"] show ?case
    by (auto simp: heldBag_acceptSpan lateDropped_def)
qed (simp add: lateDropped_def)

lemma verdict_judging: "fmlookup (smJudging s) tid \<noteq> None \<Longrightarrow> verdict s tid now = (False, False)"
  by (simp add: verdict_def)

lemma getSlice_owned:
  "(\<forall>tid xs. fmlookup m tid = Some xs \<longrightarrow> (\<forall>sp \<in> set xs. sTraceID sp = tid)) \<Longrightarrow> sp \<in> set (getSlice m tid) \<Longrightarrow> sTraceID sp = tid"
  by (cases "fmlookup m tid") (auto simp: getSlice_def)

lemma places_acceptSpan:
  assumes "places_ok s"
  shows "places_ok (acceptSpan now s sp)"
proof (cases "fmlookup (smJudging s) (sTraceID sp)")
  case (Some waiting)
  then have "fmlookup (smPending s) (sTraceID sp) = None"
    using assms unfolding places_ok_def by (metis option.exhaust option.simps(3))
  with Some show ?thesis
    using assms unfolding places_ok_def by (auto simp: acceptSpan_def Let_def)
next
  case None
  have late: "\<And>x. x \<in> set (getSlice (smLate s) (sTraceID sp)) \<Longrightarrow> sTraceID x = sTraceID sp"
    using assms getSlice_owned [of "smLate s"] unfolding places_ok_def by blast
  obtain keep decided where v: "verdict s (sTraceID sp) now = (keep, decided)" by fastforce
  show ?thesis
  proof (cases decided)
    case True
    with None v assms late show ?thesis unfolding places_ok_def by (auto simp: acceptSpan_def Let_def)
  next
    case False
    with None v assms show ?thesis
      unfolding places_ok_def
      by (cases "fmlookup (smPending s) (sTraceID sp)") (auto simp: acceptSpan_def Let_def pending_ok_def)
  qed
qed

lemma acceptSpans_same [simp]:
  "smConfig (foldl (acceptSpan now) s spans) = smConfig s" "smDecided (foldl (acceptSpan now) s spans) = smDecided s"
  "smOrder (foldl (acceptSpan now) s spans) = smOrder s" "smBuckets (foldl (acceptSpan now) s spans) = smBuckets s"
  "fmlookup (smJudging (foldl (acceptSpan now) s spans)) tid = None \<longleftrightarrow> fmlookup (smJudging s) tid = None"
  by (induction spans arbitrary: s) simp_all

lemma places_acceptSpans: "places_ok s \<Longrightarrow> places_ok (foldl (acceptSpan now) s spans)"
  by (induction spans arbitrary: s) (simp_all add: places_acceptSpan)

lemma stats_acceptSpan:
  "\<exists>n. smStats (acceptSpan now s sp) = (smStats s)\<lparr>stLateKept := n,
     stLateDropped := stLateDropped (smStats s) + (if verdict s (sTraceID sp) now = (False, True) then 1 else 0)\<rparr>"
proof (cases "fmlookup (smJudging s) (sTraceID sp)")
  case (Some waiting)
  then show ?thesis using verdict_judging [of s "sTraceID sp" now]
    by (intro exI [of _ "stLateKept (smStats s)"]) (simp add: acceptSpan_def Let_def)
next
  case None
  obtain keep decided where v: "verdict s (sTraceID sp) now = (keep, decided)" by fastforce
  show ?thesis
    using None v
    by (intro exI [of _ "stLateKept (smStats (acceptSpan now s sp))"]; cases decided) (auto simp: acceptSpan_def Let_def)
qed

lemma stats_acceptSpans:
  "\<exists>n. smStats (foldl (acceptSpan now) s spans) = (smStats s)\<lparr>stLateKept := n,
     stLateDropped := stLateDropped (smStats s) + int (size (lateDropped s now spans))\<rparr>"
proof (induction spans arbitrary: s)
  case Nil
  show ?case by (intro exI [of _ "stLateKept (smStats s)"]) (simp add: lateDropped_def)
next
  case (Cons sp spans)
  have late: "lateDropped (acceptSpan now s sp) now spans = lateDropped s now spans" by (simp add: lateDropped_def)
  obtain m where m: "smStats (acceptSpan now s sp) = (smStats s)\<lparr>stLateKept := m,
      stLateDropped := stLateDropped (smStats s) + (if verdict s (sTraceID sp) now = (False, True) then 1 else 0)\<rparr>"
    using stats_acceptSpan by blast
  obtain n where "smStats (foldl (acceptSpan now) (acceptSpan now s sp) spans) = (smStats (acceptSpan now s sp))\<lparr>stLateKept := n,
      stLateDropped := stLateDropped (smStats (acceptSpan now s sp)) + int (size (lateDropped s now spans))\<rparr>"
    using Cons [of "acceptSpan now s sp"] late by auto
  then show ?case by (intro exI [of _ n]) (simp add: m lateDropped_def)
qed

text \<open>What one call of \<open>Accept\<close> does under the lock.\<close>

lemma acceptLocked_refused:
  assumes "acceptLocked now spans s = (Some e, s')"
  shows "s' = s\<lparr>smStats := (smStats s)\<lparr>stRefused := stRefused (smStats s) + int (length spans)\<rparr>\<rparr>"
    "e = ErrSinkFull (stBuffered (smStats s)) (cMaxSpans (smConfig s))"
    "cMaxSpans (smConfig s) < stBuffered (smStats s) + int (length spans) - int (size (lateDropped s now spans))"
  using assms by (auto simp: acceptLocked_def countHeld_lateDropped Let_def split: if_splits)

lemma acceptLocked_accepted:
  assumes "acceptLocked now spans s = (None, s')"
  shows "heldBag s' + lateDropped s now spans = heldBag s + mset spans" "places_ok s \<Longrightarrow> places_ok s'"
    "stBuffered (smStats s') = stBuffered (smStats s) + int (length spans) - int (size (lateDropped s now spans))"
    "stBuffered (smStats s') \<le> cMaxSpans (smConfig s)"
    "\<exists>n. smStats s' = (smStats s)\<lparr>stAccepted := stAccepted (smStats s) + int (length spans), stBuffered := stBuffered (smStats s'),
       stLateKept := n, stLateDropped := stLateDropped (smStats s) + int (size (lateDropped s now spans))\<rparr>"
    "smConfig s' = smConfig s" "smDecided s' = smDecided s" "smOrder s' = smOrder s" "smBuckets s' = smBuckets s"
    "fmdom (smJudging s') = fmdom (smJudging s)"
proof -
  let ?f = "foldl (acceptSpan now) s spans"
  let ?st = "(smStats ?f)\<lparr>stAccepted := stAccepted (smStats ?f) + int (length spans),
      stBuffered := stBuffered (smStats ?f) + (int (length spans) - int (size (lateDropped s now spans)))\<rparr>"
  have s': "s' = ?f\<lparr>smStats := ?st\<rparr>"
    and room: "stBuffered (smStats s) + (int (length spans) - int (size (lateDropped s now spans))) \<le> cMaxSpans (smConfig s)"
    using assms by (auto simp: acceptLocked_def countHeld_lateDropped Let_def split: if_splits)
  obtain n where n: "smStats ?f = (smStats s)\<lparr>stLateKept := n,
      stLateDropped := stLateDropped (smStats s) + int (size (lateDropped s now spans))\<rparr>"
    using stats_acceptSpans by blast
  show "heldBag s' + lateDropped s now spans = heldBag s + mset spans"
    using heldBag_acceptSpans [of now s spans] by (simp add: s' heldBag_def)
  show "places_ok s \<Longrightarrow> places_ok s'"
    using places_acceptSpans [of s now spans] by (simp add: s' places_ok_def)
  show "stBuffered (smStats s') = stBuffered (smStats s) + int (length spans) - int (size (lateDropped s now spans))"
    "stBuffered (smStats s') \<le> cMaxSpans (smConfig s)"
    using room by (simp_all add: s' n)
  show "\<exists>n. smStats s' = (smStats s)\<lparr>stAccepted := stAccepted (smStats s) + int (length spans), stBuffered := stBuffered (smStats s'),
       stLateKept := n, stLateDropped := stLateDropped (smStats s) + int (size (lateDropped s now spans))\<rparr>"
    by (intro exI [of _ n]) (simp add: s' n)
  show "smConfig s' = smConfig s" "smDecided s' = smDecided s" "smOrder s' = smOrder s" "smBuckets s' = smBuckets s"
    by (simp_all add: s')
  have "tid |\<in>| fmdom (smJudging s') \<longleftrightarrow> tid |\<in>| fmdom (smJudging s)" for tid
    unfolding in_fmdom using acceptSpans_same(5) [of now s spans tid] by (simp add: s')
  then show "fmdom (smJudging s') = fmdom (smJudging s)" by blast
qed

lemma acceptLocked_counts:
  assumes "acceptLocked now spans s = (None, s')"
  shows "stAccepted (smStats s') = stAccepted (smStats s) + int (length spans)"
    "stKeptSpans (smStats s') = stKeptSpans (smStats s)" "stLost (smStats s') = stLost (smStats s)"
    "stDroppedSpans (smStats s') + stLateDropped (smStats s') = stDroppedSpans (smStats s) + stLateDropped (smStats s)
      + int (size (lateDropped s now spans))"
proof -
  obtain n where st: "smStats s' = (smStats s)\<lparr>stAccepted := stAccepted (smStats s) + int (length spans), stBuffered := stBuffered (smStats s'),
       stLateKept := n, stLateDropped := stLateDropped (smStats s) + int (size (lateDropped s now spans))\<rparr>"
    using acceptLocked_accepted(5) [OF assms] by blast
  show "stAccepted (smStats s') = stAccepted (smStats s) + int (length spans)"
    "stKeptSpans (smStats s') = stKeptSpans (smStats s)" "stLost (smStats s') = stLost (smStats s)"
    "stDroppedSpans (smStats s') + stLateDropped (smStats s') = stDroppedSpans (smStats s) + stLateDropped (smStats s)
      + int (size (lateDropped s now spans))"
    by (subst st, simp)+
qed

lemma size_lateDropped: "size (lateDropped s now spans) \<le> length spans"
  unfolding lateDropped_def by (metis size_filter_mset_lesseq size_mset)

lemma acceptLocked_inv:
  assumes "sampler_inv s" "acceptLocked now spans s = (err, s')"
  shows "sampler_inv s'"
proof (cases err)
  case (Some e)
  with assms acceptLocked_refused [of now spans s e s'] show ?thesis
    by (simp add: sampler_inv_def holds_ok_def places_ok_def heldBag_def verdicts_ok_def buckets_ok_def)
next
  case None
  note a = acceptLocked_accepted [OF assms(2) [unfolded None]]
  have "int (size (heldBag s')) + int (size (lateDropped s now spans)) = int (size (heldBag s)) + int (length spans)"
    using arg_cong [OF a(1), of size] by (simp flip: of_nat_add)
  then have "stBuffered (smStats s') = int (size (heldBag s'))"
    using a(3) assms(1) by (simp add: sampler_inv_def holds_ok_def)
  then show ?thesis
    using assms(1) a(2,4,6-9) by (simp add: sampler_inv_def holds_ok_def verdicts_ok_def buckets_ok_def)
qed

subsection \<open>Taking the traces that are due\<close>

definition spansOf :: "pending list \<Rightarrow> Span multiset" where
  "spansOf ps = mset (concat (map pSpans ps))"

lemma spansOf_simps [simp]: "spansOf [] = {#}" "spansOf (ps @ qs) = spansOf ps + spansOf qs" "spansOf (p # ps) = mset (pSpans p) + spansOf ps"
  by (simp_all add: spansOf_def)

lemma spansOf_perm: "mset ps = mset qs \<Longrightarrow> spansOf ps = spansOf qs"
  unfolding spansOf_def by (simp add: mset_concat) (metis mset_map sum_mset_sum_list)

text \<open>From \<open>s\<close> the traces \<open>ps\<close> were taken, which left \<open>s'\<close>.\<close>

definition took :: "Sampler \<Rightarrow> pending list \<Rightarrow> Sampler \<Rightarrow> bool" where
  "took s ps s' \<longleftrightarrow>
     heldBag s = heldBag s' + spansOf ps \<and> places_ok s'
     \<and> (\<exists>n. smStats s' = (smStats s)\<lparr>stSealedByAge := n, stBuffered := stBuffered (smStats s) - int (size (spansOf ps))\<rparr>)
     \<and> smConfig s' = smConfig s \<and> smDecided s' = smDecided s \<and> smOrder s' = smOrder s \<and> smLate s' = smLate s \<and> smBuckets s' = smBuckets s
     \<and> (\<forall>p \<in> set ps. pending_ok (pID p) p \<and> fmlookup (smPending s) (pID p) = Some p \<and> fmlookup (smJudging s) (pID p) = None)
     \<and> distinct (map pID ps)
     \<and> (\<forall>tid. fmlookup (smPending s') tid = (if tid \<in> pID ` set ps then None else fmlookup (smPending s) tid))
     \<and> (\<forall>tid. fmlookup (smJudging s') tid = (if tid \<in> pID ` set ps then Some [] else fmlookup (smJudging s) tid))"

lemma took_nothing: "places_ok s \<Longrightarrow> took s [] s"
  unfolding took_def by (auto intro: exI [of _ "stSealedByAge (smStats s)"])

lemma took_stats:
  assumes "took s ps s'" "st = (smStats s')\<lparr>stSealedByAge := n\<rparr>"
  shows "took s ps (s'\<lparr>smStats := st\<rparr>)"
proof -
  note t = assms(1) [unfolded took_def]
  obtain m where "smStats s' = (smStats s)\<lparr>stSealedByAge := m, stBuffered := stBuffered (smStats s) - int (size (spansOf ps))\<rparr>"
    using t by blast
  with assms(2) have "st = (smStats s)\<lparr>stSealedByAge := n, stBuffered := stBuffered (smStats s) - int (size (spansOf ps))\<rparr>" by simp
  with t show ?thesis unfolding took_def by (simp add: places_stats) blast
qed

lemma took_one:
  assumes "took s ps s'" "fmlookup (smPending s') tid = Some p"
  shows "took s (ps @ [p]) (s'\<lparr>smPending := fmdrop tid (smPending s'), smJudging := fmupd tid [] (smJudging s'),
    smStats := (smStats s')\<lparr>stBuffered := stBuffered (smStats s') - int (length (pSpans p))\<rparr>\<rparr>)" (is "took s _ ?s")
proof -
  note t = assms(1) [unfolded took_def]
  have places: "places_ok s'" using t by blast
  have p: "pending_ok tid p" "fmlookup (smJudging s') tid = None"
    using places assms(2) unfolding places_ok_def by blast+
  have id: "pID p = tid" using p(1) by (simp add: pending_ok_def)
  have new: "tid \<notin> pID ` set ps" using t assms(2) by (metis option.distinct(1))
  have orig: "fmlookup (smPending s) tid = Some p" "fmlookup (smJudging s) tid = None"
    using t assms(2) p(2) new by simp_all
  have "heldBag s' = heldBag ?s + mset (pSpans p)"
    using mapBag_fmdrop [OF assms(2), of "\<lambda>p. mset (pSpans p)"] p(2) by (simp add: heldBag_def mapBag_fmupd_absent)
  moreover have "places_ok ?s" using places unfolding places_ok_def by auto
  moreover obtain n where "smStats s' = (smStats s)\<lparr>stSealedByAge := n, stBuffered := stBuffered (smStats s) - int (size (spansOf ps))\<rparr>"
    using t by blast
  ultimately show ?thesis
    using t id new orig p(1) unfolding took_def
    by (auto intro!: exI [of _ n])
qed

definition due_ok :: "due \<Rightarrow> bool" where
  "due_ok due \<longleftrightarrow> (\<forall>p st. \<exists>n. snd (due p st) = st\<lparr>stSealedByAge := n\<rparr>)"

lemma due_ok_sweep: "due_ok (sweepDue cfg now)"
proof -
  have "\<exists>n. snd (sweepDue cfg now p st) = st\<lparr>stSealedByAge := n\<rparr>" for p st
    by (intro exI [of _ "stSealedByAge (snd (sweepDue cfg now p st))"]) (simp add: sweepDue_def)
  then show ?thesis by (simp add: due_ok_def)
qed

lemma due_ok_flush: "due_ok (\<lambda>p st. (True, st))"
proof -
  have "\<exists>n. st = st\<lparr>stSealedByAge := n\<rparr>" for st :: Stats by (intro exI [of _ "stSealedByAge st"]) simp
  then show ?thesis by (simp add: due_ok_def)
qed

lemma takeDue_took:
  assumes "due_ok due" "took s0 ready s" "takeDue due tids ready s = (ready', s')"
  shows "took s0 ready' s'"
  using assms(2,3)
proof (induction tids arbitrary: ready s)
  case (Cons tid tids)
  show ?case
  proof (cases "fmlookup (smPending s) tid")
    case None
    with Cons show ?thesis by simp
  next
    case (Some p)
    obtain yes st where d: "due p (smStats s) = (yes, st)" by fastforce
    obtain n where st: "st = (smStats s)\<lparr>stSealedByAge := n\<rparr>"
      using assms(1) d unfolding due_ok_def by (metis snd_conv)
    let ?s = "s\<lparr>smStats := st\<rparr>"
    have t: "took s0 ready ?s" by (rule took_stats [OF Cons.prems(1) st])
    have "fmlookup (smPending ?s) tid = Some p" using Some by simp
    note one = took_one [OF t this]
    show ?thesis
    proof (cases yes)
      case True
      then have "takeDue due tids (ready @ [p]) (?s\<lparr>smPending := fmdrop tid (smPending ?s), smJudging := fmupd tid [] (smJudging ?s),
          smStats := (smStats ?s)\<lparr>stBuffered := stBuffered (smStats ?s) - int (length (pSpans p))\<rparr>\<rparr>) = (ready', s')"
        using Cons.prems(2) Some d by simp
      from Cons.IH [OF one this] show ?thesis .
    next
      case False
      with Cons.prems(2) Some d have "takeDue due tids ready ?s = (ready', s')" by simp
      from Cons.IH [OF t this] show ?thesis .
    qed
  qed
qed simp

lemma took_inv:
  assumes "sampler_inv s" "took s ps s'"
  shows "sampler_inv s'"
proof -
  note t = assms(2) [unfolded took_def]
  obtain n where n: "smStats s' = (smStats s)\<lparr>stSealedByAge := n, stBuffered := stBuffered (smStats s) - int (size (spansOf ps))\<rparr>"
    using t by blast
  have "size (heldBag s) = size (heldBag s') + size (spansOf ps)" using t by simp
  with n assms(1) have "stBuffered (smStats s') = int (size (heldBag s'))" "stBuffered (smStats s') \<le> cMaxSpans (smConfig s)"
    by (simp_all add: sampler_inv_def holds_ok_def)
  with t assms(1) show ?thesis
    unfolding sampler_inv_def holds_ok_def verdicts_ok_def buckets_ok_def by simp
qed

subsection \<open>Allowances\<close>

lemma f_le_trans: "f_le x y \<Longrightarrow> f_le y z \<Longrightarrow> f_le x z"
  by (cases x; cases y; cases z) auto

lemma refill_ok:
  assumes "bucket_ok burst b" "f_le (FFin 0) rate"
  shows "bucket_ok burst (refill now rate burst b)"
proof (cases "0 < time_Sub now (bAt b)")
  case True
  obtain secs where "Duration_Seconds (time_Sub now (bAt b)) = FFin secs" "0 < secs"
    using Duration_Seconds_pos [OF True] by auto
  then have "f_le (FFin 0) (f_add (bTokens b) (f_mul rate (Duration_Seconds (time_Sub now (bAt b)))))"
    using assms by (simp add: bucket_ok_def f_add_nonneg f_mul_nonneg)
  moreover have "f_le (FFin 0) (f_of_int burst)" using assms(1) f_le_trans unfolding bucket_ok_def by blast
  ultimately show ?thesis using True f_min_bounds by (simp add: bucket_ok_def refill_def)
qed (use assms in \<open>simp add: refill_def\<close>)

lemma take_token_ok:
  assumes "bucket_ok burst b" "\<not> f_lt (bTokens b) (FFin 1)"
  shows "bucket_ok burst (b\<lparr>bTokens := f_sub (bTokens b) (FFin 1)\<rparr>)"
proof (cases "bTokens b")
  case (FFin x)
  have x: "1 \<le> x" using assms(2) FFin by simp
  have "f_le (round64 (x - 1)) (f_of_int burst)"
  proof (cases "f_of_int burst")
    case (FFin y)
    then have "round64 y = FFin y" unfolding f_of_int_def by (rule round64_idem)
    moreover have "x - 1 \<le> y" using assms(1) \<open>bTokens b = FFin x\<close> FFin by (simp add: bucket_ok_def)
    ultimately show ?thesis using round64_mono [of "x - 1" y] FFin by simp
  next
    case (FInf neg)
    moreover have "f_le (round64 (x - 1)) (FInf False)"
      using round64_nonneg [of "x - 1"] x by (cases "round64 (x - 1)") auto
    ultimately show ?thesis using assms(1) \<open>bTokens b = FFin x\<close> by (simp add: bucket_ok_def)
  next
    case FNaN
    with assms(1) show ?thesis by (cases "bTokens b") (simp_all add: bucket_ok_def)
  qed
  with x FFin round64_nonneg [of "x - 1"] show ?thesis by (simp add: bucket_ok_def f_sub_def)
qed (use assms in \<open>auto simp: bucket_ok_def f_sub_def\<close>)

lemma allowLocked_inv:
  assumes "sampler_inv s" "f_lt (FFin 0) (cServiceRate (smConfig s))" "allowLocked now service s = (ok, s')"
  shows "sampler_inv s' \<and> s' = s\<lparr>smBuckets := smBuckets s'\<rparr>"
proof -
  let ?burst = "cServiceBurst (smConfig s)"
  define b0 where "b0 = (case fmlookup (smBuckets s) service of Some b \<Rightarrow> b | None \<Rightarrow> \<lparr>bTokens = f_of_int ?burst, bAt = now\<rparr>)"
  define b where "b = refill now (cServiceRate (smConfig s)) ?burst b0"
  have cfg: "f_le (FFin 0) (cServiceRate (smConfig s))" "1 \<le> ?burst"
    using assms(1,2) by (auto simp: sampler_inv_def config_ok_def)
  have full: "f_le (f_of_int ?burst) (f_of_int ?burst)"
    using f_of_int_nonneg [of ?burst] cfg(2) by (cases "f_of_int ?burst") auto
  have b0: "bucket_ok ?burst b0"
    using assms(1) cfg(2) full f_of_int_nonneg [of ?burst]
    by (auto simp: b0_def sampler_inv_def buckets_ok_def bucket_ok_def split: option.splits)
  have ok: "bucket_ok ?burst b" unfolding b_def by (rule refill_ok [OF b0 cfg(1)])
  define c where "c = (if f_lt (bTokens b) (FFin 1) then b else b\<lparr>bTokens := f_sub (bTokens b) (FFin 1)\<rparr>)"
  have "bucket_ok ?burst c" using ok take_token_ok [OF ok] by (simp add: c_def)
  moreover have "s' = s\<lparr>smBuckets := fmupd service c (smBuckets s)\<rparr>"
    using assms(3) by (auto simp: allowLocked_def Let_def b_def b0_def c_def split: if_splits)
  ultimately show ?thesis
    using assms(1) by (auto simp: sampler_inv_def holds_ok_def heldBag_def places_ok_def verdicts_ok_def buckets_ok_def)
qed

subsection \<open>Remembered verdicts\<close>

definition remembered_ok :: "Sampler \<Rightarrow> bool" where
  "remembered_ok s \<longleftrightarrow> (\<forall>tid d. fmlookup (smDecided s) tid = Some d \<longrightarrow> (\<exists>r \<in> set (smOrder s). rID r = tid \<and> rAt r = dAt d))"

text \<open>\<open>s'\<close> is \<open>s\<close> with some of the oldest verdicts forgotten.\<close>

definition forgot :: "Sampler \<Rightarrow> Sampler \<Rightarrow> bool" where
  "forgot s s' \<longleftrightarrow> smConfig s' = smConfig s \<and> smPending s' = smPending s \<and> smStats s' = smStats s \<and> smJudging s' = smJudging s
     \<and> smLate s' = smLate s \<and> smBuckets s' = smBuckets s \<and> (\<exists>rs. smOrder s = rs @ smOrder s'
     \<and> (\<forall>tid. fmlookup (smDecided s') tid = fmlookup (smDecided s) tid
          \<or> fmlookup (smDecided s') tid = None \<and> (\<exists>d. fmlookup (smDecided s) tid = Some d \<and> \<lparr>rID = tid, rAt = dAt d\<rparr> \<in> set rs)))"

lemma forgot_refl: "forgot s s"
  by (simp add: forgot_def)

lemma forgot_trans: "forgot s t \<Longrightarrow> forgot t u \<Longrightarrow> forgot s u"
proof -
  assume st: "forgot s t" and tu: "forgot t u"
  obtain rs where rs: "smOrder s = rs @ smOrder t" "\<forall>tid. fmlookup (smDecided t) tid = fmlookup (smDecided s) tid
      \<or> fmlookup (smDecided t) tid = None \<and> (\<exists>d. fmlookup (smDecided s) tid = Some d \<and> \<lparr>rID = tid, rAt = dAt d\<rparr> \<in> set rs)"
    using st unfolding forgot_def by blast
  obtain qs where qs: "smOrder t = qs @ smOrder u" "\<forall>tid. fmlookup (smDecided u) tid = fmlookup (smDecided t) tid
      \<or> fmlookup (smDecided u) tid = None \<and> (\<exists>d. fmlookup (smDecided t) tid = Some d \<and> \<lparr>rID = tid, rAt = dAt d\<rparr> \<in> set qs)"
    using tu unfolding forgot_def by blast
  have "fmlookup (smDecided u) tid = fmlookup (smDecided s) tid
      \<or> fmlookup (smDecided u) tid = None \<and> (\<exists>d. fmlookup (smDecided s) tid = Some d \<and> \<lparr>rID = tid, rAt = dAt d\<rparr> \<in> set (rs @ qs))" for tid
    using rs(2) [rule_format, of tid] qs(2) [rule_format, of tid] by (cases "fmlookup (smDecided s) tid") auto
  moreover have "smOrder s = (rs @ qs) @ smOrder u" using rs(1) qs(1) by simp
  ultimately have "\<exists>rs. smOrder s = rs @ smOrder u \<and> (\<forall>tid. fmlookup (smDecided u) tid = fmlookup (smDecided s) tid
      \<or> fmlookup (smDecided u) tid = None \<and> (\<exists>d. fmlookup (smDecided s) tid = Some d \<and> \<lparr>rID = tid, rAt = dAt d\<rparr> \<in> set rs))"
    by blast
  then show ?thesis using st tu unfolding forgot_def by simp
qed

lemma forgetOldest_forgot: "forgetOldest s = Some s' \<Longrightarrow> forgot s s'"
proof -
  assume f: "forgetOldest s = Some s'"
  then obtain r rs where o: "smOrder s = r # rs" by (auto simp: forgetOldest_def split: list.splits)
  let ?m = "case fmlookup (smDecided s) (rID r) of
      Some d \<Rightarrow> if dAt d = rAt r then fmdrop (rID r) (smDecided s) else smDecided s | None \<Rightarrow> smDecided s"
  have s': "s' = s\<lparr>smOrder := rs, smDecided := ?m\<rparr>" using f o by (simp add: forgetOldest_def)
  have "fmlookup ?m tid = fmlookup (smDecided s) tid
      \<or> fmlookup ?m tid = None \<and> (\<exists>d. fmlookup (smDecided s) tid = Some d \<and> \<lparr>rID = tid, rAt = dAt d\<rparr> \<in> set [r])" for tid
    by (cases "fmlookup (smDecided s) (rID r)") auto
  then show ?thesis unfolding forgot_def s' using o by (auto intro!: exI [of _ "[r]"])
qed

lemma forgetOldest_remembered: "remembered_ok s \<Longrightarrow> forgetOldest s = Some s' \<Longrightarrow> remembered_ok s'"
  unfolding remembered_ok_def by (fastforce simp: forgetOldest_def split: list.splits option.splits if_splits)

lemma mapLen_pos_lookup: "0 < mapLen m \<Longrightarrow> \<exists>k v. fmlookup m k = Some v"
  using mapLen_0_iff [of m] by (metis fmap_ext fmempty_lookup less_irrefl not_None_eq)

lemma trimDecisions_total:
  assumes "remembered_ok s" "0 \<le> cMaxDecisions (smConfig s)"
  shows "\<exists>s'. trimDecisions s = Some s' \<and> remembered_ok s' \<and> forgot s s'
    \<and> int (mapLen (smDecided s')) \<le> cMaxDecisions (smConfig s)"
  using assms
proof (induction s rule: trimDecisions.induct)
  case (1 s)
  show ?case
  proof (cases "cMaxDecisions (smConfig s) < int (mapLen (smDecided s))")
    case True
    then obtain tid d where "fmlookup (smDecided s) tid = Some d" using 1(3) mapLen_pos_lookup [of "smDecided s"] by auto
    then have "smOrder s \<noteq> []" using 1(2) by (force simp: remembered_ok_def)
    then obtain s1 where s1: "forgetOldest s = Some s1" by (cases "smOrder s") (auto simp: forgetOldest_def)
    have f: "forgot s s1" by (rule forgetOldest_forgot [OF s1])
    then have cfg: "smConfig s1 = smConfig s" by (simp add: forgot_def)
    obtain s' where "trimDecisions s1 = Some s'" "remembered_ok s'" "forgot s1 s'" "int (mapLen (smDecided s')) \<le> cMaxDecisions (smConfig s)"
      using 1(1) [OF True s1 forgetOldest_remembered [OF 1(2) s1]] 1(3) cfg by auto
    with True s1 forgot_trans [OF f] show ?thesis by (subst trimDecisions.simps) simp
  next
    case False
    then show ?thesis using 1(2) forgot_refl by (subst trimDecisions.simps) simp
  qed
qed

end
