(* ===== verification/Sampler_Steps.thy ===== *)
theory Sampler_Steps
  imports Sampler_Inv
begin

section \<open>Interleavings of the sampler's operations\<close>

text \<open>
  The remaining stretches under the lock keep the invariants. Then a step relation over all of
  them: any number of goroutines accept, sweep and flush at the same time, and between two
  stretches of one operation the stretches of others run. The system state carries, beside the
  sampler, what the operations hold in local variables (traces taken and not yet decided, late
  spans taken and not yet written) and where every accepted span went.
\<close>

subsection \<open>Settling a trace\<close>

definition unjudge :: "TraceID \<Rightarrow> bool \<Rightarrow> Sampler \<Rightarrow> Sampler" where
  "unjudge tid keep s =
     (let waiting = getSlice (smJudging s) tid; st = smStats s;
          s = s\<lparr>smJudging := fmdrop tid (smJudging s)\<rparr>
      in if waiting = [] then s
         else if keep
         then s\<lparr>smLate := fmupd tid (getSlice (smLate s) tid @ waiting) (smLate s),
                smStats := st\<lparr>stLateKept := stLateKept st + int (length waiting)\<rparr>\<rparr>
         else s\<lparr>smStats := st\<lparr>stBuffered := stBuffered st - int (length waiting),
                             stLateDropped := stLateDropped st + int (length waiting)\<rparr>\<rparr>)"

definition rememberVerdict :: "Time \<Rightarrow> TraceID \<Rightarrow> bool \<Rightarrow> Sampler \<Rightarrow> Sampler" where
  "rememberVerdict now tid keep s =
     s\<lparr>smDecided := fmupd tid \<lparr>dKeep = keep, dAt = now\<rparr> (smDecided s), smOrder := smOrder s @ [\<lparr>rID = tid, rAt = now\<rparr>]\<rparr>"

lemma settle_split:
  "settle now tid keep s =
     (if cRemember (smConfig s) \<le> 0 then Some (unjudge tid keep s)
      else trimDecisions (rememberVerdict now tid keep (unjudge tid keep s)))"
  by (simp add: settle_def unjudge_def rememberVerdict_def Let_def)

text \<open>The spans that follow a verdict to drop.\<close>

definition followDrop :: "bool \<Rightarrow> Span list \<Rightarrow> Span multiset" where
  "followDrop keep waiting = (if keep then {#} else mset waiting)"

lemma unjudge_effect:
  "heldBag s = heldBag (unjudge tid keep s) + followDrop keep (getSlice (smJudging s) tid)"
  "places_ok s \<Longrightarrow> places_ok (unjudge tid keep s)"
  "\<exists>n. smStats (unjudge tid keep s) = (smStats s)\<lparr>
     stBuffered := stBuffered (smStats s) - int (size (followDrop keep (getSlice (smJudging s) tid))), stLateKept := n,
     stLateDropped := stLateDropped (smStats s) + int (size (followDrop keep (getSlice (smJudging s) tid)))\<rparr>"
  "smConfig (unjudge tid keep s) = smConfig s" "smPending (unjudge tid keep s) = smPending s"
  "smJudging (unjudge tid keep s) = fmdrop tid (smJudging s)" "smDecided (unjudge tid keep s) = smDecided s"
  "smOrder (unjudge tid keep s) = smOrder s" "smBuckets (unjudge tid keep s) = smBuckets s"
proof -
  let ?w = "getSlice (smJudging s) tid"
  show "heldBag s = heldBag (unjudge tid keep s) + followDrop keep ?w"
    using mapBag_getSlice [of "smJudging s" tid]
    by (simp add: unjudge_def Let_def heldBag_def followDrop_def mapBag_append)
  show "smConfig (unjudge tid keep s) = smConfig s" "smPending (unjudge tid keep s) = smPending s"
    "smJudging (unjudge tid keep s) = fmdrop tid (smJudging s)" "smDecided (unjudge tid keep s) = smDecided s"
    "smOrder (unjudge tid keep s) = smOrder s" "smBuckets (unjudge tid keep s) = smBuckets s"
    by (simp_all add: unjudge_def Let_def)
  show "\<exists>n. smStats (unjudge tid keep s) = (smStats s)\<lparr>
     stBuffered := stBuffered (smStats s) - int (size (followDrop keep ?w)), stLateKept := n,
     stLateDropped := stLateDropped (smStats s) + int (size (followDrop keep ?w))\<rparr>"
    by (intro exI [of _ "stLateKept (smStats (unjudge tid keep s))"]) (simp add: unjudge_def Let_def followDrop_def)
  show "places_ok (unjudge tid keep s)" if "places_ok s"
  proof -
    have "\<And>x. x \<in> set ?w \<Longrightarrow> sTraceID x = tid" "\<And>x. x \<in> set (getSlice (smLate s) tid) \<Longrightarrow> sTraceID x = tid"
      using that getSlice_owned [of "smJudging s"] getSlice_owned [of "smLate s"] unfolding places_ok_def by blast+
    with that show ?thesis unfolding places_ok_def by (auto simp: unjudge_def Let_def)
  qed
qed

lemma settle_effect:
  assumes "sampler_inv s"
  shows "\<exists>s'. settle now tid keep s = Some s' \<and> sampler_inv s'
    \<and> heldBag s = heldBag s' + followDrop keep (getSlice (smJudging s) tid)
    \<and> (\<exists>n. smStats s' = (smStats s)\<lparr>
         stBuffered := stBuffered (smStats s) - int (size (followDrop keep (getSlice (smJudging s) tid))), stLateKept := n,
         stLateDropped := stLateDropped (smStats s) + int (size (followDrop keep (getSlice (smJudging s) tid)))\<rparr>)
    \<and> smConfig s' = smConfig s \<and> smPending s' = smPending s \<and> smJudging s' = fmdrop tid (smJudging s)"
proof -
  let ?u = "unjudge tid keep s" and ?r = "rememberVerdict now tid keep (unjudge tid keep s)"
  note u = unjudge_effect [where s = s and tid = tid and keep = keep]
  have "size (heldBag s) = size (heldBag ?u) + size (followDrop keep (getSlice (smJudging s) tid))" using u(1) by (metis size_union)
  moreover have "places_ok ?u" using assms u(2) by (simp add: sampler_inv_def holds_ok_def)
  ultimately have holds: "holds_ok ?u" using assms u(3,4) by (auto simp: sampler_inv_def holds_ok_def)
  have vb: "verdicts_ok ?u" "buckets_ok ?u" "config_ok (smConfig s)"
    using assms u(4-) by (auto simp: sampler_inv_def verdicts_ok_def buckets_ok_def)
  show ?thesis
  proof (cases "cRemember (smConfig s) \<le> 0")
    case True
    then show ?thesis using u(1,3-6) holds vb by (simp add: settle_split sampler_inv_def)
  next
    case False
    have "remembered_ok ?r"
      using vb(1) by (auto simp: remembered_ok_def verdicts_ok_def rememberVerdict_def)
    moreover have max: "0 < cMaxDecisions (smConfig ?r)" using vb(3) False u(4) by (simp add: config_ok_def rememberVerdict_def)
    ultimately obtain s' where s': "trimDecisions ?r = Some s'" "remembered_ok s'" "forgot ?r s'"
      "int (mapLen (smDecided s')) \<le> cMaxDecisions (smConfig ?r)"
      using trimDecisions_total [of ?r] by auto
    have same: "smConfig s' = smConfig s" "smPending s' = smPending s" "smStats s' = smStats ?u"
      "smJudging s' = fmdrop tid (smJudging s)" "smLate s' = smLate ?u" "smBuckets s' = smBuckets ?u"
      using s'(3) u(4-6) by (simp_all add: forgot_def rememberVerdict_def)
    have "heldBag s' = heldBag ?u" "places_ok s' \<longleftrightarrow> places_ok ?u" using same u(5,6) by (simp_all add: heldBag_def places_ok_def)
    then have "holds_ok s'" using holds same u(4) by (simp add: holds_ok_def)
    moreover have "verdicts_ok s'"
      using s'(2,4) max False same(1) u(4) by (simp add: verdicts_ok_def remembered_ok_def rememberVerdict_def)
    moreover have "buckets_ok s'" using vb(2) same u(4) by (simp add: buckets_ok_def)
    ultimately have "sampler_inv s'" using vb(3) same(1) by (simp add: sampler_inv_def)
    with s'(1) False same u(1,3) \<open>heldBag s' = heldBag ?u\<close> show ?thesis by (simp add: settle_split)
  qed
qed

lemma countVerdict_same:
  "\<exists>reasons kept dropped. countVerdict v failed n st = st\<lparr>stReasons := reasons, stKept := kept, stDropped := dropped,
     stDroppedSpans := stDroppedSpans st + (if vKeep v then 0 else n), stLost := stLost st + (if vKeep v \<and> failed then n else 0),
     stKeptSpans := stKeptSpans st + (if vKeep v \<and> \<not> failed then n else 0)\<rparr>"
  by (intro exI [of _ "stReasons (countVerdict v failed n st)"] exI [of _ "stKept (countVerdict v failed n st)"]
      exI [of _ "stDropped (countVerdict v failed n st)"]) (simp add: countVerdict_def Let_def)

text \<open>The end of \<open>decide\<close> always goes through.\<close>

lemma settleLocked_effect:
  assumes "sampler_inv s"
  shows "\<exists>s'. settleLocked now p v failed s = Some s' \<and> sampler_inv s'
    \<and> heldBag s = heldBag s' + followDrop (vKeep v) (getSlice (smJudging s) (pID p))
    \<and> stAccepted (smStats s') = stAccepted (smStats s)
    \<and> stDroppedSpans (smStats s') + stLateDropped (smStats s') = stDroppedSpans (smStats s) + stLateDropped (smStats s)
        + int (size (followDrop (vKeep v) (pSpans p @ getSlice (smJudging s) (pID p))))
    \<and> stLost (smStats s') = stLost (smStats s) + (if vKeep v \<and> failed then int (length (pSpans p)) else 0)
    \<and> stKeptSpans (smStats s') = stKeptSpans (smStats s) + (if vKeep v \<and> \<not> failed then int (length (pSpans p)) else 0)
    \<and> smConfig s' = smConfig s \<and> smPending s' = smPending s \<and> smJudging s' = fmdrop (pID p) (smJudging s)"
proof -
  let ?w = "followDrop (vKeep v) (getSlice (smJudging s) (pID p))"
  obtain s1 n where s1: "settle now (pID p) (vKeep v) s = Some s1" "sampler_inv s1" "heldBag s = heldBag s1 + ?w"
    "smStats s1 = (smStats s)\<lparr>stBuffered := stBuffered (smStats s) - int (size ?w), stLateKept := n, stLateDropped := stLateDropped (smStats s) + int (size ?w)\<rparr>"
    "smConfig s1 = smConfig s" "smPending s1 = smPending s" "smJudging s1 = fmdrop (pID p) (smJudging s)"
    using settle_effect [OF assms, of now "pID p" "vKeep v"] by blast
  define st where "st = countVerdict v failed (int (length (pSpans p))) (smStats s1)"
  obtain reasons kept dropped where c: "st = (smStats s1)\<lparr>stReasons := reasons, stKept := kept, stDropped := dropped,
     stDroppedSpans := stDroppedSpans (smStats s1) + (if vKeep v then 0 else int (length (pSpans p))),
     stLost := stLost (smStats s1) + (if vKeep v \<and> failed then int (length (pSpans p)) else 0),
     stKeptSpans := stKeptSpans (smStats s1) + (if vKeep v \<and> \<not> failed then int (length (pSpans p)) else 0)\<rparr>"
    using countVerdict_same unfolding st_def by blast
  have inv: "sampler_inv (s1\<lparr>smStats := st\<rparr>)"
    using s1(2) by (simp add: c sampler_inv_def holds_ok_def verdicts_ok_def buckets_ok_def)
  have run: "settleLocked now p v failed s = Some (s1\<lparr>smStats := st\<rparr>)" using s1(1) by (simp add: settleLocked_def st_def)
  have counts: "stAccepted st = stAccepted (smStats s)"
    "stDroppedSpans st + stLateDropped st = stDroppedSpans (smStats s) + stLateDropped (smStats s)
      + int (size (followDrop (vKeep v) (pSpans p @ getSlice (smJudging s) (pID p))))"
    "stLost st = stLost (smStats s) + (if vKeep v \<and> failed then int (length (pSpans p)) else 0)"
    "stKeptSpans st = stKeptSpans (smStats s) + (if vKeep v \<and> \<not> failed then int (length (pSpans p)) else 0)"
    by (simp_all add: c s1(4) followDrop_def)
  show ?thesis
    by (rule exI [of _ "s1\<lparr>smStats := st\<rparr>"]) (use inv run counts s1(3,5-7) in simp)
qed

subsection \<open>Forgetting\<close>

lemma forgetExpired_forgot:
  "forgot s (forgetExpired now s) \<and> (remembered_ok s \<longrightarrow> remembered_ok (forgetExpired now s))"
proof (induction now s rule: forgetExpired.induct)
  case (1 now s)
  show ?case
  proof (cases "smOrder s")
    case Nil
    then show ?thesis by (simp add: forgetExpired.simps [of now s] forgot_refl)
  next
    case (Cons r rs)
    then obtain s1 where s1: "forgetOldest s = Some s1" by (auto simp: forgetOldest_def)
    show ?thesis
    proof (cases "cRemember (smConfig s) \<le> time_Sub now (rAt r)")
      case True
      with Cons s1 have "forgetExpired now s = forgetExpired now s1" by (simp add: forgetExpired.simps [of now s])
      with 1 [OF Cons True s1] forgetOldest_forgot [OF s1] forgetOldest_remembered [OF _ s1] show ?thesis
        using forgot_trans by auto
    next
      case False
      with Cons show ?thesis by (simp add: forgetExpired.simps [of now s] forgot_refl)
    qed
  qed
qed

lemma mapLen_mono: "(\<And>k. fmlookup m k = None \<Longrightarrow> fmlookup m' k = None) \<Longrightarrow> mapLen m' \<le> mapLen m"
  unfolding mapLen_def fcard.rep_eq by (rule card_mono) (auto simp: fmlookup_dom_iff, metis not_None_eq)

lemma forgetLocked_inv:
  assumes "sampler_inv s"
  shows "sampler_inv (forgetLocked now s) \<and> heldBag (forgetLocked now s) = heldBag s \<and> smStats (forgetLocked now s) = smStats s
    \<and> smConfig (forgetLocked now s) = smConfig s \<and> smPending (forgetLocked now s) = smPending s \<and> smJudging (forgetLocked now s) = smJudging s"
proof -
  define t where "t = forgetExpired now s"
  have t: "forgot s t" "remembered_ok t"
    using forgetExpired_forgot [of s now] assms by (auto simp: t_def sampler_inv_def verdicts_ok_def remembered_ok_def)
  have same: "smConfig t = smConfig s" "smPending t = smPending s" "smStats t = smStats s" "smJudging t = smJudging s"
    "smLate t = smLate s" "smBuckets t = smBuckets s" using t(1) by (simp_all add: forgot_def)
  have len: "mapLen (smDecided t) \<le> mapLen (smDecided s)"
    using t(1) by (intro mapLen_mono) (auto simp: forgot_def, metis not_None_eq)
  obtain rs where "smOrder s = rs @ smOrder t" using t(1) by (auto simp: forgot_def)
  then have nil: "smOrder s = [] \<longrightarrow> smOrder t = []" by simp
  define u where "u = forgetLocked now s"
  have u: "u = t\<lparr>smBuckets := smBuckets u\<rparr>" by (simp add: u_def t_def forgetLocked_def Let_def)
  have fields: "smConfig u = smConfig s" "smPending u = smPending s" "smStats u = smStats s" "smJudging u = smJudging s"
    "smLate u = smLate s" "smDecided u = smDecided t" "smOrder u = smOrder t"
    using same by (subst u, simp)+
  have "bucket_ok (cServiceBurst (smConfig s)) b" if lookup: "fmlookup (smBuckets u) service = Some b" for service b
  proof -
    obtain b0 where "fmlookup (smBuckets s) service = Some b0" "b = refill now (cServiceRate (smConfig s)) (cServiceBurst (smConfig s)) b0"
      using lookup same by (auto simp: u_def forgetLocked_def Let_def t_def [symmetric] split: if_splits)
    with assms show ?thesis by (auto simp: sampler_inv_def buckets_ok_def config_ok_def intro: refill_ok)
  qed
  then have "buckets_ok u" using fields by (simp add: buckets_ok_def)
  moreover have "verdicts_ok u"
    using t(2) len nil assms fields by (auto simp: sampler_inv_def verdicts_ok_def remembered_ok_def)
  moreover have held: "heldBag u = heldBag s" "places_ok u \<longleftrightarrow> places_ok s" using fields by (simp_all add: heldBag_def places_ok_def)
  ultimately show ?thesis
    using assms fields unfolding u_def [symmetric] by (simp add: sampler_inv_def holds_ok_def)
qed

subsection \<open>Late spans\<close>

definition lateItems :: "(TraceID, Span list) fmap \<Rightarrow> Span list list" where
  "lateItems late = map (getSlice late) (mapKeys late)"

lemma takeLate_effect:
  assumes "sampler_inv s" "takeLate s = (late, s')"
  shows "sampler_inv s'" "late = smLate s" "heldBag s = heldBag s' + mset (concat (lateItems late))"
    "smStats s' = (smStats s)\<lparr>stBuffered := stBuffered (smStats s) - int (size (mset (concat (lateItems late))))\<rparr>"
    "smConfig s' = smConfig s" "smPending s' = smPending s" "smJudging s' = smJudging s" "smLate s' = fmempty"
proof -
  have bag: "mset (concat (lateItems m)) = mapBag mset m" for m :: "(TraceID, Span list) fmap"
    by (simp add: lateItems_def mapBag_keys mset_concat comp_def)
  have foldl: "foldl (\<lambda>n tid. n - int (length (getSlice m tid))) b ks = b - int (length (concat (map (getSlice m) ks)))"
    for m :: "(TraceID, Span list) fmap" and b ks
    by (induction ks arbitrary: b) simp_all
  let ?n = "int (size (mset (concat (lateItems (smLate s)))))"
  have eq: "late = smLate s" "s' = s\<lparr>smLate := fmempty, smStats := (smStats s)\<lparr>stBuffered := stBuffered (smStats s) - ?n\<rparr>\<rparr>"
    using assms(2) by (auto simp: takeLate_def Let_def foldl lateItems_def)
  then show "late = smLate s" "heldBag s = heldBag s' + mset (concat (lateItems late))"
    "smStats s' = (smStats s)\<lparr>stBuffered := stBuffered (smStats s) - int (size (mset (concat (lateItems late))))\<rparr>"
    "smConfig s' = smConfig s" "smPending s' = smPending s" "smJudging s' = smJudging s" "smLate s' = fmempty"
    unfolding bag by (simp_all add: heldBag_def)
  moreover have "places_ok s'" using assms(1) by (auto simp: eq sampler_inv_def holds_ok_def places_ok_def)
  ultimately show "sampler_inv s'"
    using assms(1) unfolding sampler_inv_def holds_ok_def verdicts_ok_def buckets_ok_def by (simp add: eq)
qed

subsection \<open>The system\<close>

record System =
  sySampler :: Sampler
  syReady :: "pending list"
  syRuled :: "(pending \<times> Verdict) list"
  syLate :: "Span list list"
  syAccepted :: "Span multiset"
  syKept :: "Span multiset"
  syLateKept :: "Span multiset"
  syLost :: "Span multiset"
  syDropped :: "Span multiset"

definition initSystem :: "Sampler \<Rightarrow> System" where
  "initSystem s = \<lparr>sySampler = s, syReady = [], syRuled = [], syLate = [], syAccepted = {#}, syKept = {#}, syLateKept = {#}, syLost = {#}, syDropped = {#}\<rparr>"

text \<open>One stretch of one operation. \<open>taken\<close> and \<open>lateTaken\<close> are the first stretches of \<open>judge\<close> and
  \<open>writeLate\<close>, \<open>ruled\<close> and \<open>limited\<close> the verdict in \<open>decide\<close>, \<open>settled\<close> its write and its end;
  whether a write fails is open.\<close>

inductive sys_step :: "System \<Rightarrow> System \<Rightarrow> bool" where
  accepted: "acceptLocked now spans (sySampler y) = (None, s') \<Longrightarrow>
     sys_step y (y\<lparr>sySampler := s', syAccepted := syAccepted y + mset spans, syDropped := syDropped y + lateDropped (sySampler y) now spans\<rparr>)"
| refused: "acceptLocked now spans (sySampler y) = (Some e, s') \<Longrightarrow> sys_step y (y\<lparr>sySampler := s'\<rparr>)"
| taken: "due_ok due \<Longrightarrow> takeDue due (mapKeys (smPending (sySampler y))) [] (sySampler y) = (ready, s') \<Longrightarrow>
     sys_step y (y\<lparr>sySampler := s', syReady := syReady y @ ready\<rparr>)"
| ruled: "syReady y = ps @ p # qs \<Longrightarrow> judgeTree (smConfig (sySampler y)) p = Some (t, v) \<Longrightarrow> \<not> limited (smConfig (sySampler y)) v \<Longrightarrow>
     sys_step y (y\<lparr>syReady := ps @ qs, syRuled := (p, v) # syRuled y\<rparr>)"
| limited: "syReady y = ps @ p # qs \<Longrightarrow> judgeTree (smConfig (sySampler y)) p = Some (t, v) \<Longrightarrow> limited (smConfig (sySampler y)) v \<Longrightarrow>
     rootService t = Some service \<Longrightarrow> allowLocked now service (sySampler y) = (ok, s') \<Longrightarrow>
     sys_step y (y\<lparr>sySampler := s', syReady := ps @ qs, syRuled := (p, if ok then v else rateLimitedVerdict) # syRuled y\<rparr>)"
| settled: "syRuled y = rs @ (p, v) # qs \<Longrightarrow> settleLocked now p v failed (sySampler y) = Some s' \<Longrightarrow>
     sys_step y (y\<lparr>sySampler := s', syRuled := rs @ qs,
       syKept := syKept y + (if vKeep v \<and> \<not> failed then mset (pSpans p) else {#}),
       syLost := syLost y + (if vKeep v \<and> failed then mset (pSpans p) else {#}),
       syDropped := syDropped y + followDrop (vKeep v) (pSpans p @ getSlice (smJudging (sySampler y)) (pID p))\<rparr>)"
| forgotten: "sys_step y (y\<lparr>sySampler := forgetLocked now (sySampler y)\<rparr>)"
| lateTaken: "takeLate (sySampler y) = (late, s') \<Longrightarrow> sys_step y (y\<lparr>sySampler := s', syLate := syLate y @ lateItems late\<rparr>)"
| lateWritten: "syLate y = as @ xs # bs \<Longrightarrow> sys_step y (y\<lparr>syLate := as @ bs, syLateKept := syLateKept y + mset xs\<rparr>)"
| lateLost: "syLate y = as @ xs # bs \<Longrightarrow>
     sys_step y (y\<lparr>sySampler := loseLate xs (sySampler y), syLate := as @ bs, syLost := syLost y + mset xs\<rparr>)"

inductive sys_reach :: "Config \<Rightarrow> System \<Rightarrow> bool" for cfg where
  start: "New cfg False = Inr s \<Longrightarrow> sys_reach cfg (initSystem s)"
| next_step: "sys_reach cfg y \<Longrightarrow> sys_step y y' \<Longrightarrow> sys_reach cfg y'"

definition inFlight :: "System \<Rightarrow> pending list" where
  "inFlight y = syReady y @ map fst (syRuled y)"

definition accounted :: "System \<Rightarrow> bool" where
  "accounted y \<longleftrightarrow>
     syAccepted y = heldBag (sySampler y) + spansOf (inFlight y) + mset (concat (syLate y)) + syKept y + syLateKept y + syLost y + syDropped y"

definition counted :: "System \<Rightarrow> bool" where
  "counted y \<longleftrightarrow> (let st = smStats (sySampler y) in
     stAccepted st = int (size (syAccepted y)) \<and> stKeptSpans st = int (size (syKept y)) \<and> stLost st = int (size (syLost y))
     \<and> stDroppedSpans st + stLateDropped st = int (size (syDropped y)))"

text \<open>The traces in flight are the ones \<open>judging\<close> lists, each once.\<close>

definition judging_these :: "pending list \<Rightarrow> (TraceID, Span list) fmap \<Rightarrow> bool" where
  "judging_these ps m \<longleftrightarrow> (\<forall>p \<in> set ps. pending_ok (pID p) p) \<and> distinct (map pID ps) \<and> fset (fmdom m) = pID ` set ps"

definition judged_once :: "System \<Rightarrow> bool" where
  "judged_once y \<longleftrightarrow> judging_these (inFlight y) (smJudging (sySampler y))"

lemma judging_these_perm: "mset ps = mset qs \<Longrightarrow> judging_these ps m \<longleftrightarrow> judging_these qs m"
  unfolding judging_these_def by (metis mset_eq_imp_distinct_iff mset_eq_setD mset_map)

lemma judging_these_drop:
  assumes "judging_these (ps @ p # qs) m"
  shows "judging_these (ps @ qs) (fmdrop (pID p) m)"
proof -
  have "pID p \<notin> pID ` set (ps @ qs)" "fset (fmdom m) = insert (pID p) (pID ` set (ps @ qs))"
    using assms by (auto simp: judging_these_def)
  then have "fset (fmdom m) - {pID p} = pID ` set (ps @ qs)" by blast
  then show ?thesis using assms by (auto simp: judging_these_def)
qed

lemma judging_these_add:
  assumes "judging_these ps m" "\<forall>p \<in> set qs. pending_ok (pID p) p \<and> fmlookup m (pID p) = None"
    "distinct (map pID qs)" "\<And>tid. fmlookup m' tid = (if tid \<in> pID ` set qs then Some [] else fmlookup m tid)"
  shows "judging_these (qs @ ps) m'"
proof -
  have dom: "fset (fmdom m) = pID ` set ps" using assms(1) by (simp add: judging_these_def)
  have "pID q \<notin> fset (fmdom m)" if "q \<in> set qs" for q using assms(2) that by (simp add: in_fmdom)
  then have "pID ` set qs \<inter> pID ` set ps = {}" unfolding dom [symmetric] by blast
  moreover have "fset (fmdom m') = pID ` set qs \<union> pID ` set ps"
    unfolding dom [symmetric] by (rule set_eqI) (simp add: in_fmdom assms(4))
  ultimately show ?thesis using assms(1,2,3) by (auto simp: judging_these_def image_Un)
qed

definition sys_inv :: "System \<Rightarrow> bool" where
  "sys_inv y \<longleftrightarrow> sampler_inv (sySampler y) \<and> accounted y \<and> counted y \<and> judged_once y"

lemmas sys_defs = sys_inv_def accounted_def counted_def judged_once_def inFlight_def

lemma sys_inv_init: "New cfg False = Inr s \<Longrightarrow> sys_inv (initSystem s)"
  using New_inv [of cfg False s] by (auto simp: New_ok sys_defs judging_these_def initSystem_def heldBag_def zeroStats_def)

lemma sys_inv_accepted:
  assumes "sys_inv y" "acceptLocked now spans (sySampler y) = (None, s')"
  shows "sys_inv (y\<lparr>sySampler := s', syAccepted := syAccepted y + mset spans, syDropped := syDropped y + lateDropped (sySampler y) now spans\<rparr>)"
proof -
  note a = acceptLocked_accepted [OF assms(2)]
  have inv: "sampler_inv s'" using acceptLocked_inv [OF _ assms(2)] assms(1) by (simp add: sys_inv_def)
  let ?rest = "spansOf (inFlight y) + mset (concat (syLate y)) + syKept y + syLateKept y + syLost y + syDropped y"
  have "syAccepted y + mset spans = (heldBag (sySampler y) + mset spans) + ?rest"
    using assms(1) by (simp add: sys_inv_def accounted_def ac_simps)
  also have "\<dots> = heldBag s' + lateDropped (sySampler y) now spans + ?rest" by (simp only: a(1))
  finally show ?thesis
    using assms(1) inv acceptLocked_counts [OF assms(2)] a(10) by (simp add: sys_defs judging_these_def Let_def ac_simps)
qed

lemma sys_inv_refused:
  assumes "sys_inv y" "acceptLocked now spans (sySampler y) = (Some e, s')"
  shows "sys_inv (y\<lparr>sySampler := s'\<rparr>)"
proof -
  have s': "s' = (sySampler y)\<lparr>smStats := (smStats (sySampler y))\<lparr>stRefused := stRefused (smStats (sySampler y)) + int (length spans)\<rparr>\<rparr>"
    using acceptLocked_refused(1) [OF assms(2)] .
  have "sampler_inv s'" using acceptLocked_inv [OF _ assms(2)] assms(1) by (simp add: sys_inv_def)
  then show ?thesis using assms(1) by (simp add: s' sys_defs Let_def)
qed

lemma sys_inv_taken:
  assumes "sys_inv y" "took (sySampler y) ready s'"
  shows "sys_inv (y\<lparr>sySampler := s', syReady := syReady y @ ready\<rparr>)"
proof -
  note t = assms(2) [unfolded took_def]
  have inv: "sampler_inv s'" using took_inv [OF _ assms(2)] assms(1) by (simp add: sys_inv_def)
  obtain n where st: "smStats s' = (smStats (sySampler y))\<lparr>stSealedByAge := n, stBuffered := stBuffered (smStats (sySampler y)) - int (size (spansOf ready))\<rparr>"
    using t by blast
  have held: "heldBag (sySampler y) = heldBag s' + spansOf ready" using t by blast
  have j: "judging_these (inFlight y) (smJudging (sySampler y))" using assms(1) by (simp add: sys_inv_def judged_once_def)
  have "judging_these (ready @ inFlight y) (smJudging s')"
    by (rule judging_these_add [OF j]) (use t in auto)
  then have "judging_these (inFlight (y\<lparr>sySampler := s', syReady := syReady y @ ready\<rparr>)) (smJudging s')"
    by (subst judging_these_perm [of _ "ready @ inFlight y"]) (simp_all add: inFlight_def)
  then have "judged_once (y\<lparr>sySampler := s', syReady := syReady y @ ready\<rparr>)" by (simp add: judged_once_def)
  moreover have "accounted (y\<lparr>sySampler := s', syReady := syReady y @ ready\<rparr>)"
    using assms(1) held by (simp add: sys_inv_def accounted_def inFlight_def ac_simps)
  moreover have "counted (y\<lparr>sySampler := s', syReady := syReady y @ ready\<rparr>)"
    using assms(1) st by (simp add: sys_inv_def counted_def Let_def)
  ultimately show ?thesis using inv by (simp add: sys_inv_def)
qed

lemma spansOf_middle: "spansOf (ps @ p # qs) = mset (pSpans p) + spansOf (ps @ qs)"
  by simp

lemma sys_inv_ruled:
  assumes "sys_inv y" "syReady y = ps @ p # qs" "sampler_inv s'" "s' = (sySampler y)\<lparr>smBuckets := smBuckets s'\<rparr>"
  shows "sys_inv (y\<lparr>sySampler := s', syReady := ps @ qs, syRuled := (p, v) # syRuled y\<rparr>)" (is "sys_inv ?y")
proof -
  have perm: "mset (inFlight ?y) = mset (inFlight y)" using assms(2) by (simp add: inFlight_def)
  have same: "heldBag s' = heldBag (sySampler y)" "smStats s' = smStats (sySampler y)" "smJudging s' = smJudging (sySampler y)"
    by (subst assms(4), simp add: heldBag_def)+
  have "judged_once ?y" using assms(1) same judging_these_perm [OF perm] by (simp add: sys_inv_def judged_once_def)
  moreover have "accounted ?y" using assms(1) same spansOf_perm [OF perm] by (simp add: sys_inv_def accounted_def)
  moreover have "counted ?y" using assms(1) same by (simp add: sys_inv_def counted_def)
  ultimately show ?thesis using assms(3) by (simp add: sys_inv_def)
qed

lemma sys_inv_settled:
  assumes "sys_inv y" "syRuled y = rs @ (p, v) # qs" "settleLocked now p v failed (sySampler y) = Some s'"
  shows "sys_inv (y\<lparr>sySampler := s', syRuled := rs @ qs,
       syKept := syKept y + (if vKeep v \<and> \<not> failed then mset (pSpans p) else {#}),
       syLost := syLost y + (if vKeep v \<and> failed then mset (pSpans p) else {#}),
       syDropped := syDropped y + followDrop (vKeep v) (pSpans p @ getSlice (smJudging (sySampler y)) (pID p))\<rparr>)" (is "sys_inv ?y")
proof -
  let ?s = "sySampler y"
  let ?w = "followDrop (vKeep v) (getSlice (smJudging ?s) (pID p))"
  have "sampler_inv ?s" using assms(1) by (simp add: sys_inv_def)
  note e = settleLocked_effect [OF this, of now p v failed, unfolded assms(3), simplified]
  have held: "heldBag ?s = heldBag s' + ?w" using e by blast
  have fl: "inFlight y = (syReady y @ map fst rs) @ p # map fst qs" "inFlight ?y = (syReady y @ map fst rs) @ map fst qs"
    using assms(2) by (simp_all add: inFlight_def)
  have "counted ?y"
    using assms(1) e by (simp add: sys_inv_def counted_def Let_def followDrop_def)
  moreover have "accounted ?y"
  proof -
    have "syAccepted y = (heldBag s' + ?w) + (mset (pSpans p) + spansOf ((syReady y @ map fst rs) @ map fst qs)) + mset (concat (syLate y)) + syKept y + syLateKept y + syLost y + syDropped y"
      using assms(1) unfolding sys_inv_def accounted_def held fl(1) spansOf_middle by blast
    then show ?thesis
      unfolding accounted_def fl(2) by (cases "vKeep v"; cases failed) (simp_all add: followDrop_def ac_simps)
  qed
  moreover have "judged_once ?y"
  proof -
    have "judging_these ((syReady y @ map fst rs) @ p # map fst qs) (smJudging ?s)"
      using assms(1) unfolding sys_inv_def judged_once_def fl(1) by blast
    from judging_these_drop [OF this] show ?thesis unfolding judged_once_def fl(2) using e by simp
  qed
  ultimately show ?thesis using e by (simp add: sys_inv_def)
qed

lemma sys_inv_late:
  assumes "sys_inv y" "syLate y = as @ xs # bs"
  shows "sys_inv (y\<lparr>syLate := as @ bs, syLateKept := syLateKept y + mset xs\<rparr>)"
    "sys_inv (y\<lparr>sySampler := loseLate xs (sySampler y), syLate := as @ bs, syLost := syLost y + mset xs\<rparr>)"
  using assms
  by (simp_all add: sys_defs Let_def loseLate_def ac_simps sampler_inv_def holds_ok_def verdicts_ok_def buckets_ok_def)

lemma sys_step_inv:
  assumes "sys_step y y'" "sys_inv y"
  shows "sys_inv y'"
  using assms
proof (cases rule: sys_step.cases)
  case (accepted now spans s')
  then show ?thesis using sys_inv_accepted [OF assms(2)] by simp
next
  case (refused now spans e s')
  then show ?thesis using sys_inv_refused [OF assms(2)] by simp
next
  case (taken due ready s')
  have "took (sySampler y) [] (sySampler y)"
    using assms(2) by (intro took_nothing) (simp add: sys_inv_def sampler_inv_def holds_ok_def)
  from takeDue_took [OF taken(2) this taken(3)] show ?thesis using sys_inv_taken [OF assms(2)] taken(1) by simp
next
  case (ruled ps p qs t v)
  have "sampler_inv (sySampler y)" using assms(2) by (simp add: sys_inv_def)
  from sys_inv_ruled [OF assms(2) ruled(2) this, of v] show ?thesis using ruled(1) by simp
next
  case (limited ps p qs t v service now ok s')
  have "sampler_inv (sySampler y)" using assms(2) by (simp add: sys_inv_def)
  from allowLocked_inv [OF this _ limited(6)] limited(4) have "sampler_inv s'" "s' = (sySampler y)\<lparr>smBuckets := smBuckets s'\<rparr>"
    by (simp_all add: limited_def)
  from sys_inv_ruled [OF assms(2) limited(2) this] show ?thesis using limited(1) by simp
next
  case (settled rs p v qs now failed s')
  then show ?thesis using sys_inv_settled [OF assms(2)] by simp
next
  case (forgotten now)
  have "sampler_inv (sySampler y)" using assms(2) by (simp add: sys_inv_def)
  from forgetLocked_inv [OF this, of now] assms(2) show ?thesis by (simp add: forgotten sys_defs Let_def)
next
  case (lateTaken late s')
  have "sampler_inv (sySampler y)" using assms(2) by (simp add: sys_inv_def)
  note l = takeLate_effect [OF this lateTaken(2)]
  have "heldBag (sySampler y) = heldBag s' + mset (concat (lateItems late))" by (rule l(3))
  with l assms(2) show ?thesis by (simp add: lateTaken(1) sys_defs Let_def ac_simps)
next
  case (lateWritten as xs bs)
  then show ?thesis using sys_inv_late(1) [OF assms(2)] by simp
next
  case (lateLost as xs bs)
  then show ?thesis using sys_inv_late(2) [OF assms(2)] by simp
qed

lemma sys_reach_inv: "sys_reach cfg y \<Longrightarrow> sys_inv y"
  by (induction rule: sys_reach.induct) (auto intro: sys_inv_init sys_step_inv)

lemma sys_step_config: "sys_step y y' \<Longrightarrow> sys_inv y \<Longrightarrow> smConfig (sySampler y') = smConfig (sySampler y)"
proof (induction rule: sys_step.induct)
  case (taken due y ready s')
  have "took (sySampler y) [] (sySampler y)"
    using taken(3) by (intro took_nothing) (simp add: sys_inv_def sampler_inv_def holds_ok_def)
  from takeDue_took [OF taken(1) this taken(2)] show ?case by (simp add: took_def)
next
  case (limited y ps p qs t v service now ok s')
  then show ?case by (auto simp: allowLocked_def Let_def split: if_splits)
next
  case (settled y rs p v qs now failed s')
  then show ?case using settleLocked_effect [of "sySampler y" now p v failed] by (auto simp: sys_inv_def)
next
  case (forgotten y now)
  then show ?case using forgetLocked_inv [of "sySampler y" now] by (simp add: sys_inv_def)
qed (auto simp: acceptLocked_accepted(6) dest!: acceptLocked_refused(1) simp: takeLate_def loseLate_def Let_def)

lemma sys_reach_config: "sys_reach cfg y \<Longrightarrow> smConfig (sySampler y) = cfg"
proof (induction rule: sys_reach.induct)
  case (start s)
  then show ?case by (simp add: New_ok initSystem_def)
next
  case (next_step y y')
  then show ?case using sys_step_config [OF next_step(2) sys_reach_inv] by simp
qed

end
