(* ===== verification/Sampler_Run.thy ===== *)
theory Sampler_Run
  imports Sampler_Steps
begin

section \<open>The sampler's operations return, and are runs of the step relation\<close>

text \<open>
  A policy promises to answer on every tree that \<open>Build\<close> makes of a sealed trace: the locale
  \<open>policy\<close>, interpreted for the three policies of the package. With such policies \<open>decide\<close>,
  \<open>judge\<close>, \<open>Sweep\<close>, \<open>Flush\<close> and \<open>Run\<close> return from every state the sampler can reach, whatever the
  clock and the writer do, and what they do is a sequence of steps.
\<close>

subsection \<open>Policies\<close>

locale policy =
  fixes evaluate :: Policy
  assumes answers: "Build spans Sealed = Some (Inr t) \<Longrightarrow> evaluate t \<noteq> None"
begin

lemma decided_or_next:
  assumes "Build spans Sealed = Some (Inr t)"
  shows "Decide t (evaluate # ps) \<in> {Some (fst (the (evaluate t))), Decide t ps}"
  using answers [OF assms] by (auto split: option.splits)

end

interpretation keepErrors: policy KeepErrors_Evaluate
  by unfold_locales (simp add: KeepErrors_built)

interpretation keepSlow: policy "KeepSlow_Evaluate p" for p
  by unfold_locales (auto simp: KeepSlow_Evaluate_def Trace_Duration_roots [OF built_roots])

interpretation keepFraction: policy "KeepFraction_Evaluate p" for p
  by unfold_locales (auto simp: KeepFraction_Evaluate_def Let_def)

lemma Decide_total:
  assumes "\<forall>p \<in> set ps. policy p" "Build spans Sealed = Some (Inr t)"
  shows "\<exists>v. Decide t ps = Some v"
  using assms(1)
proof (induction ps)
  case (Cons p ps)
  have "policy p" using Cons.prems by simp
  from policy.decided_or_next [OF this assms(2), of ps] Cons show ?case by auto
qed simp

subsection \<open>Deciding one trace\<close>

lemma pending_oneTrace: "pending_ok tid p \<Longrightarrow> oneTrace (pSpans p)"
  unfolding pending_ok_def oneTrace_def by (metis hd_in_set)

lemma judgeTree_total:
  assumes "\<forall>p \<in> set (cPolicies cfg). policy p" "pending_ok tid p"
  shows "\<exists>t v. judgeTree cfg p = Some (t, v) \<and> Build (pSpans p) Sealed = Some (Inr t) \<and> Decide t (cPolicies cfg) = Some v"
proof -
  obtain t where t: "Build (pSpans p) Sealed = Some (Inr t)"
    using Build_exists [OF pending_oneTrace [OF assms(2)]] by blast
  obtain v where "Decide t (cPolicies cfg) = Some v" using Decide_total [OF assms(1) t] by blast
  with t show ?thesis by (simp add: judgeTree_def)
qed

lemma rootService_total: "Build spans phase = Some (Inr t) \<Longrightarrow> \<exists>service. rootService t = Some service"
  using walk_tree(1) [of t "serviceVisitor (tHeap t)" "[]"] Build_tree_ok [of spans phase t] by (simp add: rootService_def)

text \<open>Steps that leave everything else in flight alone.\<close>

definition runs_to :: "System \<Rightarrow> System \<Rightarrow> bool" where
  "runs_to y y' \<longleftrightarrow> sys_step\<^sup>*\<^sup>* y y'"

lemma runs_to_trans: "runs_to x y \<Longrightarrow> runs_to y z \<Longrightarrow> runs_to x z"
  unfolding runs_to_def by (rule rtranclp_trans)

lemma runs_to_step: "sys_step x y \<Longrightarrow> runs_to x y"
  unfolding runs_to_def by (rule r_into_rtranclp)

lemma runs_to_refl: "runs_to x x"
  by (simp add: runs_to_def)

lemma runs_to_inv: "runs_to x y \<Longrightarrow> sys_inv x \<Longrightarrow> sys_inv y \<and> smConfig (sySampler y) = smConfig (sySampler x)"
  unfolding runs_to_def by (induction rule: rtranclp_induct) (auto dest: sys_step_inv sys_step_config)

lemma runs_to_reach: "runs_to x y \<Longrightarrow> sys_reach cfg x \<Longrightarrow> sys_reach cfg y"
  unfolding runs_to_def by (induction rule: rtranclp_induct) (auto intro: sys_reach.next_step)

text \<open>A run of the environment in which it is given spans of \<open>S\<close> to write, with those its writer took.\<close>

inductive env_run :: "('w, 'e) Env \<Rightarrow> Span set \<Rightarrow> 'w \<Rightarrow> Span multiset \<Rightarrow> 'w \<Rightarrow> bool" for E S where
  idle: "env_run E S w {#} w"
| clock: "env_run E S w xs w1 \<Longrightarrow> eNow E w1 = (t, w') \<Longrightarrow> env_run E S w xs w'"
| took: "env_run E S w xs w1 \<Longrightarrow> set spans \<subseteq> S \<Longrightarrow> eWrite E spans w1 = (None, w') \<Longrightarrow> env_run E S w (xs + mset spans) w'"
| failed: "env_run E S w xs w1 \<Longrightarrow> set spans \<subseteq> S \<Longrightarrow> eWrite E spans w1 = (Some e, w') \<Longrightarrow> env_run E S w xs w'"

lemma env_run_trans:
  assumes "env_run E S w1 ys w2" "env_run E S w xs w1"
  shows "env_run E S w (xs + ys) w2"
  using assms by (induction) (auto intro: env_run.intros simp flip: add.assoc)

lemma env_run_mono:
  assumes "env_run E S w xs w'" "S \<subseteq> T"
  shows "env_run E T w xs w'"
  using assms by (induction) (blast intro: env_run.intros)+

text \<open>What an operation does to the system and to the world: a run of each, in which no span is accepted
  only accepted spans are written, and the spans that become kept are the ones the writer took.\<close>

definition moves :: "('w, 'e) Env \<Rightarrow> System \<Rightarrow> 'w \<Rightarrow> System \<Rightarrow> 'w \<Rightarrow> bool" where
  "moves E y w y' w' \<longleftrightarrow> runs_to y y' \<and> syAccepted y' = syAccepted y
     \<and> (\<exists>xs. env_run E (set_mset (syAccepted y)) w xs w' \<and> syKept y' + syLateKept y' = syKept y + syLateKept y + xs)"

lemma moves_runs: "moves E y w y' w' \<Longrightarrow> runs_to y y'"
  by (simp add: moves_def)

lemma moves_trans:
  assumes "moves E y w y1 w1" "moves E y1 w1 y2 w2"
  shows "moves E y w y2 w2"
proof -
  obtain xs ys where e: "env_run E (set_mset (syAccepted y)) w xs w1" "syKept y1 + syLateKept y1 = syKept y + syLateKept y + xs"
    "env_run E (set_mset (syAccepted y)) w1 ys w2" "syKept y2 + syLateKept y2 = syKept y1 + syLateKept y1 + ys"
    using assms by (auto simp: moves_def)
  have "syKept y2 + syLateKept y2 = syKept y + syLateKept y + (xs + ys)" unfolding e(4) e(2) by (simp add: add.assoc)
  with env_run_trans [OF e(3,1)] assms show ?thesis unfolding moves_def using runs_to_trans by metis
qed

lemma moves_inside:
  assumes "sys_step y y'" "syAccepted y' = syAccepted y" "syKept y' = syKept y" "syLateKept y' = syLateKept y"
  shows "moves E y w y' w"
  unfolding moves_def using assms by (auto intro!: exI [of _ "{#}"] env_run.idle runs_to_step)

lemma moves_clock: "eNow E w = (t, w') \<Longrightarrow> moves E y w y w'"
  unfolding moves_def by (auto intro!: exI [of _ "{#}"] intro: env_run.intros runs_to_refl)

lemma moves_refl: "moves E y w y w"
  unfolding moves_def by (auto intro!: exI [of _ "{#}"] intro: env_run.intros runs_to_refl)

text \<open>A step that ends a write, for the spans \<open>zs\<close>.\<close>

lemma moves_write:
  assumes "eWrite E zs w = (err, w')" "set zs \<subseteq> set_mset (syAccepted y)" "sys_step y y'" "syAccepted y' = syAccepted y"
    "syKept y' + syLateKept y' = syKept y + syLateKept y + (if err = None then mset zs else {#})"
  shows "moves E y w y' w'"
proof -
  have "env_run E (set_mset (syAccepted y)) w (if err = None then mset zs else {#}) w'"
    using env_run.took [OF env_run.idle assms(2), of E w w'] env_run.failed [OF env_run.idle assms(2), of E w _ w'] assms(1)
    by (cases err) simp_all
  with assms(3-5) show ?thesis unfolding moves_def by (auto intro: runs_to_step)
qed

text \<open>What is about to be written was accepted.\<close>

lemma inFlight_accepted: "sys_inv y \<Longrightarrow> p \<in> set (inFlight y) \<Longrightarrow> set (pSpans p) \<subseteq> set_mset (syAccepted y)"
  by (force simp: sys_inv_def accounted_def spansOf_def)

lemma late_accepted: "sys_inv y \<Longrightarrow> xs \<in> set (syLate y) \<Longrightarrow> set xs \<subseteq> set_mset (syAccepted y)"
  by (force simp: sys_inv_def accounted_def)

lemma ready_ok: "sys_inv y \<Longrightarrow> p \<in> set (inFlight y) \<Longrightarrow> pending_ok (pID p) p"
  by (simp add: sys_inv_def judged_once_def judging_these_def)

lemma limitRate_runs:
  assumes "sys_inv y" "syReady y = ps @ p # qs" "judgeTree (smConfig (sySampler y)) p = Some (t, v)"
    "Build (pSpans p) Sealed = Some (Inr t)"
  shows "\<exists>v' s' w' y'. limitRate E t v (sySampler y) w = Some (v', s', w') \<and> moves E y w y' w' \<and> sySampler y' = s'
    \<and> syReady y' = ps @ qs \<and> syRuled y' = (p, v') # syRuled y \<and> syLate y' = syLate y \<and> smPending s' = smPending (sySampler y)"
proof (cases "limited (smConfig (sySampler y)) v")
  case False
  then have "sys_step y (y\<lparr>syReady := ps @ qs, syRuled := (p, v) # syRuled y\<rparr>)" by (rule sys_step.ruled [OF assms(2,3)])
  with False show ?thesis
    by (intro exI [of _ v] exI [of _ "sySampler y"] exI [of _ w] exI [of _ "y\<lparr>syReady := ps @ qs, syRuled := (p, v) # syRuled y\<rparr>"])
      (simp add: limitRate_def moves_inside)
next
  case True
  obtain service where sv: "rootService t = Some service" using rootService_total [OF assms(4)] by blast
  obtain now w' where now: "eNow E w = (now, w')" by fastforce
  obtain ok s' where ok: "allowLocked now service (sySampler y) = (ok, s')" by fastforce
  let ?v = "if ok then v else rateLimitedVerdict"
  have "smPending s' = smPending (sySampler y)" using ok by (auto simp: allowLocked_def Let_def split: if_splits)
  moreover have "moves E y w' (y\<lparr>sySampler := s', syReady := ps @ qs, syRuled := (p, ?v) # syRuled y\<rparr>) w'"
    by (rule moves_inside [OF sys_step.limited [OF assms(2,3) True sv ok]]) simp_all
  from moves_trans [OF moves_clock [OF now] this]
  have "moves E y w (y\<lparr>sySampler := s', syReady := ps @ qs, syRuled := (p, ?v) # syRuled y\<rparr>) w'" .
  ultimately show ?thesis
    using True sv now ok
    by (intro exI [of _ ?v] exI [of _ s'] exI [of _ w'] exI [of _ "y\<lparr>sySampler := s', syReady := ps @ qs, syRuled := (p, ?v) # syRuled y\<rparr>"])
      (simp add: limitRate_def allow_def)
qed

lemma decide_runs:
  assumes "sys_inv y" "syReady y = ps @ p # qs" "\<forall>q \<in> set (cPolicies (smConfig (sySampler y))). policy q"
  shows "\<exists>err s' w' y'. decide E p (sySampler y) w = Some (err, s', w') \<and> moves E y w y' w' \<and> sySampler y' = s'
    \<and> syReady y' = ps @ qs \<and> syRuled y' = syRuled y \<and> syLate y' = syLate y \<and> smPending s' = smPending (sySampler y)"
proof -
  have "pending_ok (pID p) p" using assms(2) by (intro ready_ok [OF assms(1)]) (simp add: inFlight_def)
  from judgeTree_total [OF assms(3) this] obtain t v where tv: "judgeTree (smConfig (sySampler y)) p = Some (t, v)"
    "Build (pSpans p) Sealed = Some (Inr t)" by blast
  obtain v1 s1 w1 y1 where l: "limitRate E t v (sySampler y) w = Some (v1, s1, w1)" "moves E y w y1 w1" "sySampler y1 = s1"
    "syReady y1 = ps @ qs" "syRuled y1 = (p, v1) # syRuled y" "syLate y1 = syLate y" "smPending s1 = smPending (sySampler y)"
    using limitRate_runs [OF assms(1,2) tv, where E = E and w = w] by blast
  obtain err w2 where wr: "(if vKeep v1 then eWrite E (pSpans p) w1 else (None, w1)) = (err, w2)" by fastforce
  obtain now w3 where now: "settleTime E (smConfig s1) w2 = (now, w3)" by fastforce
  have inv1: "sys_inv y1" using runs_to_inv [OF moves_runs [OF l(2)] assms(1)] by blast
  then have "sampler_inv s1" using l(3) by (simp add: sys_inv_def)
  then obtain s2 where s2: "settleLocked now p v1 (err \<noteq> None) s1 = Some s2" "smPending s2 = smPending s1" using settleLocked_effect by blast
  define y2 where "y2 = y1\<lparr>sySampler := s2, syRuled := [] @ syRuled y,
       syKept := syKept y1 + (if vKeep v1 \<and> \<not> (err \<noteq> None) then mset (pSpans p) else {#}),
       syLost := syLost y1 + (if vKeep v1 \<and> err \<noteq> None then mset (pSpans p) else {#}),
       syDropped := syDropped y1 + followDrop (vKeep v1) (pSpans p @ getSlice (smJudging (sySampler y1)) (pID p))\<rparr>"
  have step: "sys_step y1 y2" unfolding y2_def using l(3,5) s2(1) by (intro sys_step.settled) simp_all
  have w2: "moves E y1 w1 y2 w2"
  proof (cases "vKeep v1")
    case True
    have "p \<in> set (inFlight y1)" using l(5) by (simp add: inFlight_def)
    then have "set (pSpans p) \<subseteq> set_mset (syAccepted y1)" by (rule inFlight_accepted [OF inv1])
    with True show ?thesis using wr by (intro moves_write [OF _ _ step, of E "pSpans p" w1 err]) (simp_all add: y2_def)
  next
    case False
    then show ?thesis using wr moves_inside [OF step] by (simp add: y2_def)
  qed
  have w3: "moves E y2 w2 y2 w3"
    using now by (auto simp: settleTime_def intro: moves_clock moves_refl split: if_splits)
  have "moves E y w y2 w3" by (rule moves_trans [OF l(2) moves_trans [OF w2 w3]])
  moreover have "decide E p (sySampler y) w = Some (map_option (WriteKept (pID p)) err, s2, w3)"
    using tv(1) l(1) wr now s2(1) by (simp add: decide_def)
  ultimately show ?thesis
    using l s2(2) by (intro exI [of _ "map_option (WriteKept (pID p)) err"] exI [of _ s2] exI [of _ w3] exI [of _ y2]) (simp add: y2_def)
qed

lemma decideAll_runs:
  assumes "sys_inv y" "mset ps \<subseteq># mset (syReady y)" "\<forall>q \<in> set (cPolicies (smConfig (sySampler y))). policy q"
  shows "\<exists>errs s' w' y'. decideAll E ps (sySampler y) w = Some (errs, s', w') \<and> moves E y w y' w' \<and> sySampler y' = s'
    \<and> mset (syReady y') = mset (syReady y) - mset ps \<and> syRuled y' = syRuled y \<and> syLate y' = syLate y \<and> smPending s' = smPending (sySampler y)"
  using assms
proof (induction ps arbitrary: y w)
  case Nil
  then show ?case by (auto intro: moves_refl)
next
  case (Cons p ps)
  have "p \<in> set (syReady y)" using Cons.prems(2) by (metis insert_subset_eq_iff mset.simps(2) set_mset_mset)
  then obtain as bs where ready: "syReady y = as @ p # bs" by (auto dest: split_list)
  obtain err s1 w1 y1 where d: "decide E p (sySampler y) w = Some (err, s1, w1)" "moves E y w y1 w1" "sySampler y1 = s1"
    "syReady y1 = as @ bs" "syRuled y1 = syRuled y" "syLate y1 = syLate y" "smPending s1 = smPending (sySampler y)"
    using decide_runs [OF Cons.prems(1) ready Cons.prems(3), where E = E and w = w] by blast
  have y1: "sys_inv y1" "smConfig (sySampler y1) = smConfig (sySampler y)" using runs_to_inv [OF moves_runs [OF d(2)] Cons.prems(1)] by blast+
  have m: "mset (syReady y1) = mset (syReady y) - {#p#}" using ready d(4) by simp
  have "mset ps \<subseteq># mset (syReady y1)" unfolding m using Cons.prems(2) by (simp add: insert_subset_eq_iff)
  from Cons.IH [OF y1(1) this, of w1] Cons.prems(3) y1(2)
  obtain errs s2 w2 y2 where r: "decideAll E ps (sySampler y1) w1 = Some (errs, s2, w2)" "moves E y1 w1 y2 w2" "sySampler y2 = s2"
    "mset (syReady y2) = mset (syReady y1) - mset ps" "syRuled y2 = syRuled y1" "syLate y2 = syLate y1"
    "smPending s2 = smPending (sySampler y1)" by auto
  have "moves E y w y2 w2" by (rule moves_trans [OF d(2) r(2)])
  moreover have "mset (syReady y2) = mset (syReady y) - mset (p # ps)" unfolding r(4) m by simp
  ultimately show ?case using d r by auto
qed

subsection \<open>Judging, late spans, and the operations\<close>

lemma judge_runs:
  assumes "sys_inv y" "due_ok due" "\<forall>q \<in> set (cPolicies (smConfig (sySampler y))). policy q"
  shows "\<exists>errs s' w' y' ready s1. judge E due (sySampler y) w = Some (errs, s', w') \<and> moves E y w y' w' \<and> sySampler y' = s'
    \<and> mset (syReady y') = mset (syReady y) \<and> syRuled y' = syRuled y \<and> syLate y' = syLate y
    \<and> takeDue due (mapKeys (smPending (sySampler y))) [] (sySampler y) = (ready, s1) \<and> smPending s' = smPending s1"
proof -
  let ?s = "sySampler y"
  obtain ready s1 where t: "takeDue due (mapKeys (smPending ?s)) [] ?s = (ready, s1)" by fastforce
  let ?y1 = "y\<lparr>sySampler := s1, syReady := syReady y @ ready\<rparr>"
  have step: "moves E y w ?y1 w" by (rule moves_inside [OF sys_step.taken [OF assms(2) t]]) simp_all
  have inv: "sys_inv ?y1" "smConfig s1 = smConfig ?s" using runs_to_inv [OF moves_runs [OF step] assms(1)] by simp_all
  have "mset (sortFunc byFirst ready) \<subseteq># mset (syReady ?y1)" by simp
  from decideAll_runs [OF inv(1) this, where E = E and w = w] inv(2) assms(3)
  obtain errs s' w' y' where d: "decideAll E (sortFunc byFirst ready) s1 w = Some (errs, s', w')" "moves E ?y1 w y' w'" "sySampler y' = s'"
    "mset (syReady y') = mset (syReady y)" "syRuled y' = syRuled y" "syLate y' = syLate y" "smPending s' = smPending s1" by auto
  have "judge E due ?s w = Some (errs, s', w')" using t d(1) by (simp add: judge_def)
  with d t moves_trans [OF step d(2)] show ?thesis by blast
qed

lemma writeLateLoop_runs:
  assumes "sys_inv y" "mset (map (getSlice late) tids) \<subseteq># mset (syLate y)"
  shows "\<exists>errs s' w' y'. writeLateLoop E late tids (sySampler y) w = (errs, s', w') \<and> moves E y w y' w' \<and> sySampler y' = s'
    \<and> syReady y' = syReady y \<and> syRuled y' = syRuled y \<and> mset (syLate y') = mset (syLate y) - mset (map (getSlice late) tids)
    \<and> s' = (sySampler y)\<lparr>smStats := smStats s'\<rparr>"
  using assms
proof (induction tids arbitrary: y w)
  case Nil
  then show ?case by (auto intro: moves_refl)
next
  case (Cons tid tids)
  let ?xs = "getSlice late tid"
  have late: "?xs \<in> set (syLate y)" using Cons.prems(2) by (metis insert_subset_eq_iff list.simps(9) mset.simps(2) set_mset_mset)
  then obtain as bs where l: "syLate y = as @ ?xs # bs" by (auto dest: split_list)
  obtain err w1 where wr: "eWrite E ?xs w = (err, w1)" by fastforce
  define y1 where "y1 = (if err = None then y\<lparr>syLate := as @ bs, syLateKept := syLateKept y + mset ?xs\<rparr>
      else y\<lparr>sySampler := loseLate ?xs (sySampler y), syLate := as @ bs, syLost := syLost y + mset ?xs\<rparr>)"
  have step: "sys_step y y1" unfolding y1_def using sys_step.lateWritten [OF l] sys_step.lateLost [OF l] by simp
  have y1: "syLate y1 = as @ bs" "syReady y1 = syReady y" "syRuled y1 = syRuled y" "sySampler y1 = (sySampler y)\<lparr>smStats := smStats (sySampler y1)\<rparr>"
    by (simp_all add: y1_def loseLate_def)
  have m: "mset (syLate y1) = mset (syLate y) - {#?xs#}" using l y1(1) by simp
  have "mset (map (getSlice late) tids) \<subseteq># mset (syLate y1)" unfolding m using Cons.prems(2) by (simp add: insert_subset_eq_iff)
  moreover have "sys_inv y1" by (rule sys_step_inv [OF step Cons.prems(1)])
  ultimately have pre: "sys_inv y1" "mset (map (getSlice late) tids) \<subseteq># mset (syLate y1)" by blast+
  from Cons.IH [OF pre, of w1] obtain errs s2 w2 y2 where r: "writeLateLoop E late tids (sySampler y1) w1 = (errs, s2, w2)" "moves E y1 w1 y2 w2"
    "sySampler y2 = s2" "syReady y2 = syReady y1" "syRuled y2 = syRuled y1"
    "mset (syLate y2) = mset (syLate y1) - mset (map (getSlice late) tids)" "s2 = (sySampler y1)\<lparr>smStats := smStats s2\<rparr>" by blast
  have "writeLateLoop E late (tid # tids) (sySampler y) w = ((case err of None \<Rightarrow> errs | Some e \<Rightarrow> WriteLate tid e # errs), s2, w2)"
    using wr r(1) by (cases err) (simp_all add: y1_def)
  moreover have "s2 = (sySampler y)\<lparr>smStats := smStats s2\<rparr>" by (subst r(7), subst y1(4)) simp
  moreover have "moves E y w y1 w1" by (rule moves_write [OF wr late_accepted [OF Cons.prems(1) late] step]) (simp_all add: y1_def ac_simps)
  then have "moves E y w y2 w2" by (rule moves_trans [OF _ r(2)])
  moreover have "mset (syLate y2) = mset (syLate y) - mset (map (getSlice late) (tid # tids))" unfolding r(6) m by simp
  ultimately show ?case using r(3-5) y1 by (intro exI conjI) simp_all
qed

lemma writeLate_runs:
  assumes "sys_inv y"
  shows "\<exists>errs s' w' y'. writeLate E (sySampler y) w = (errs, s', w') \<and> moves E y w y' w' \<and> sySampler y' = s'
    \<and> syReady y' = syReady y \<and> syRuled y' = syRuled y \<and> mset (syLate y') = mset (syLate y)
    \<and> smLate s' = fmempty \<and> smPending s' = smPending (sySampler y) \<and> smJudging s' = smJudging (sySampler y)"
proof -
  obtain late s1 where t: "takeLate (sySampler y) = (late, s1)" by fastforce
  have inv: "sampler_inv (sySampler y)" using assms by (simp add: sys_inv_def)
  note e = takeLate_effect [OF inv t]
  let ?y1 = "y\<lparr>sySampler := s1, syLate := syLate y @ lateItems late\<rparr>" and ?ids = "sortFunc compareBytes (mapKeys late)"
  have step: "moves E y w ?y1 w" by (rule moves_inside [OF sys_step.lateTaken [OF t]]) simp_all
  have items: "mset (map (getSlice late) ?ids) = mset (lateItems late)" by (simp add: lateItems_def)
  then have sub: "mset (map (getSlice late) ?ids) \<subseteq># mset (syLate ?y1)" by simp
  have inv1: "sys_inv ?y1" using runs_to_inv [OF moves_runs [OF step] assms] by blast
  from writeLateLoop_runs [OF inv1 sub, where E = E and w = w]
  obtain errs s' w' y' where r: "writeLateLoop E late ?ids s1 w = (errs, s', w')" "moves E ?y1 w y' w'" "sySampler y' = s'"
    "syReady y' = syReady y" "syRuled y' = syRuled y" "mset (syLate y') = mset (syLate ?y1) - mset (map (getSlice late) ?ids)"
    "s' = s1\<lparr>smStats := smStats s'\<rparr>" by auto
  have "mset (syLate y') = mset (syLate y)" unfolding r(6) items by simp
  moreover have "smLate s' = fmempty" "smPending s' = smPending (sySampler y)" "smJudging s' = smJudging (sySampler y)"
    by (subst r(7), simp add: e(6-8))+
  moreover have "writeLate E (sySampler y) w = (errs, s', w')" using t r(1) by (simp add: writeLate_def)
  ultimately show ?thesis using moves_trans [OF step r(2)] r(3-5) by blast
qed

lemma Sweep_runs:
  assumes "sys_inv y" "\<forall>q \<in> set (cPolicies (smConfig (sySampler y))). policy q"
  shows "\<exists>errs s' w' y'. Sweep E (sySampler y) w = Some (errs, s', w') \<and> moves E y w y' w' \<and> sySampler y' = s'
    \<and> mset (syReady y') = mset (syReady y) \<and> syRuled y' = syRuled y \<and> mset (syLate y') = mset (syLate y)"
proof -
  obtain now w0 where now: "eNow E w = (now, w0)" by fastforce
  let ?due = "sweepDue (smConfig (sySampler y)) now"
  obtain errs s1 w1 y1 where j: "judge E ?due (sySampler y) w0 = Some (errs, s1, w1)" "moves E y w0 y1 w1" "sySampler y1 = s1"
    "mset (syReady y1) = mset (syReady y)" "syRuled y1 = syRuled y" "syLate y1 = syLate y"
    using judge_runs [OF assms(1) due_ok_sweep assms(2), where E = E and w = w0] by blast
  let ?y2 = "y1\<lparr>sySampler := forgetLocked now s1\<rparr>"
  have "moves E y1 w1 ?y2 w1" using moves_inside [OF sys_step.forgotten [of y1 now]] j(3) by simp
  then have two: "moves E y w ?y2 w1" by (rule moves_trans [OF moves_trans [OF moves_clock [OF now] j(2)]])
  have "sys_inv ?y2" using runs_to_inv [OF moves_runs [OF two] assms(1)] by blast
  from writeLate_runs [OF this, where E = E and w = w1]
  obtain late s3 w3 y3 where l: "writeLate E (forgetLocked now s1) w1 = (late, s3, w3)" "moves E ?y2 w1 y3 w3" "sySampler y3 = s3"
    "syReady y3 = syReady y1" "syRuled y3 = syRuled y1" "mset (syLate y3) = mset (syLate y1)" by auto
  have "Sweep E (sySampler y) w = Some (errs @ late, s3, w3)" using now j(1) l(1) by (simp add: Sweep_def)
  then show ?thesis using moves_trans [OF two l(2)] l(3-6) j(4-6) by auto
qed

text \<open>Taking everything leaves nothing pending.\<close>

lemma takeAll:
  assumes "places_ok s" "takeDue (\<lambda>p st. (True, st)) (mapKeys (smPending s)) [] s = (ready, s')"
  shows "smPending s' = fmempty"
proof -
  have "fmlookup (smPending s') tid = None"
    if "takeDue (\<lambda>p st. (True, st)) tids r s = (ready, s')" "\<forall>tid. fmlookup (smPending s) tid \<noteq> None \<longrightarrow> tid \<in> set tids" for tids r s tid
    using that
  proof (induction tids arbitrary: r s)
    case Nil
    then show ?case by auto
  next
    case (Cons t tids)
    then show ?case by (cases "fmlookup (smPending s) t") (fastforce split: if_splits)+
  qed
  from this [OF assms(2)] show ?thesis by (intro fmap_ext) simp
qed

lemma Flush_runs:
  assumes "sys_inv y" "\<forall>q \<in> set (cPolicies (smConfig (sySampler y))). policy q"
  shows "\<exists>errs s' w' y'. Flush E (sySampler y) w = Some (errs, s', w') \<and> moves E y w y' w' \<and> sySampler y' = s'
    \<and> mset (syReady y') = mset (syReady y) \<and> syRuled y' = syRuled y \<and> mset (syLate y') = mset (syLate y)
    \<and> smPending s' = fmempty \<and> smLate s' = fmempty"
proof -
  let ?due = "\<lambda>p st. (True, st)"
  obtain errs s1 w1 y1 ready s0 where j: "judge E ?due (sySampler y) w = Some (errs, s1, w1)" "moves E y w y1 w1" "sySampler y1 = s1"
    "mset (syReady y1) = mset (syReady y)" "syRuled y1 = syRuled y" "syLate y1 = syLate y"
    "takeDue ?due (mapKeys (smPending (sySampler y))) [] (sySampler y) = (ready, s0)" "smPending s1 = smPending s0"
    using judge_runs [OF assms(1) due_ok_flush assms(2), where E = E and w = w] by blast
  have "places_ok (sySampler y)" using assms(1) by (simp add: sys_inv_def sampler_inv_def holds_ok_def)
  from takeAll [OF this j(7)] j(8) have empty: "smPending s1 = fmempty" by simp
  have "sys_inv y1" using runs_to_inv [OF moves_runs [OF j(2)] assms(1)] by blast
  from writeLate_runs [OF this, where E = E and w = w1] j(3)
  obtain late s3 w3 y3 where l: "writeLate E s1 w1 = (late, s3, w3)" "moves E y1 w1 y3 w3" "sySampler y3 = s3"
    "syReady y3 = syReady y1" "syRuled y3 = syRuled y1" "mset (syLate y3) = mset (syLate y1)" "smLate s3 = fmempty" "smPending s3 = smPending s1" by auto
  have "Flush E (sySampler y) w = Some (errs @ late, s3, w3)" using j(1) l(1) by (simp add: Flush_def)
  then show ?thesis using moves_trans [OF j(2) l(2)] l(3-8) j(4-6) empty by auto
qed

lemma Run_runs:
  assumes "sys_inv y" "\<forall>q \<in> set (cPolicies (smConfig (sySampler y))). policy q"
  shows "\<exists>errs s' w' y'. Run E n (sySampler y) w = Some (errs, s', w') \<and> moves E y w y' w' \<and> sySampler y' = s'
    \<and> mset (syReady y') = mset (syReady y) \<and> syRuled y' = syRuled y \<and> mset (syLate y') = mset (syLate y)
    \<and> smPending s' = fmempty \<and> smLate s' = fmempty"
  using assms
proof (induction n arbitrary: y w)
  case 0
  from Flush_runs [OF this, where E = E and w = w] show ?case by simp
next
  case (Suc n)
  obtain errs s1 w1 y1 where s: "Sweep E (sySampler y) w = Some (errs, s1, w1)" "moves E y w y1 w1" "sySampler y1 = s1"
    "mset (syReady y1) = mset (syReady y)" "syRuled y1 = syRuled y" "mset (syLate y1) = mset (syLate y)"
    using Sweep_runs [OF Suc.prems, where E = E and w = w] by blast
  have "sys_inv y1" "smConfig (sySampler y1) = smConfig (sySampler y)" using runs_to_inv [OF moves_runs [OF s(2)] Suc.prems(1)] by blast+
  then obtain errs2 s2 w2 y2 where r: "Run E n s1 w1 = Some (errs2, s2, w2)" "moves E y1 w1 y2 w2" "sySampler y2 = s2"
    "mset (syReady y2) = mset (syReady y1)" "syRuled y2 = syRuled y1" "mset (syLate y2) = mset (syLate y1)" "smPending s2 = fmempty" "smLate s2 = fmempty"
    using Suc.IH [of y1 w1] Suc.prems(2) s(3) by auto
  show ?case using s r moves_trans [OF s(2) r(2)] by auto
qed

text \<open>A sampler with empty maps and nothing in flight holds nothing: every accepted span has left.\<close>

lemma drained:
  assumes "sys_inv y" "inFlight y = []" "syLate y = []" "smPending (sySampler y) = fmempty" "smLate (sySampler y) = fmempty"
  shows "heldBag (sySampler y) = {#}" "stBuffered (smStats (sySampler y)) = 0" "stLost (smStats (sySampler y)) = int (size (syLost y))"
    "syAccepted y = syKept y + syLateKept y + syLost y + syDropped y"
proof -
  have "fset (fmdom (smJudging (sySampler y))) = {}" using assms(1,2) by (simp add: sys_inv_def judged_once_def judging_these_def)
  then have "mapLen (smJudging (sySampler y)) = 0" by (simp add: mapLen_def fcard.rep_eq)
  then show held: "heldBag (sySampler y) = {#}" using assms(4,5) by (simp add: heldBag_def mapLen_0_iff)
  show "stBuffered (smStats (sySampler y)) = 0" "stLost (smStats (sySampler y)) = int (size (syLost y))"
    "syAccepted y = syKept y + syLateKept y + syLost y + syDropped y"
    using assms(1-3) held by (simp_all add: sys_inv_def sampler_inv_def holds_ok_def counted_def accounted_def Let_def)
qed

end
