(* ===== verification/Sampler_Judging.thy ===== *)
theory Sampler_Judging
  imports Sampler_Run
begin

section \<open>What judging does to each trace\<close>

text \<open>
  \<open>Sampler_Run\<close> shows that the operations of the sampler return and keep the books. This theory
  says what they do trace by trace: which verdict each judged trace got, what was handed to the
  writer and in which order, what the writer answered, and what was counted.
\<close>

subsection \<open>Rulings and calls of the writer\<close>

text \<open>A ruling is a judged trace with its verdict and, for a trace to keep, the writer's error.\<close>

type_synonym 'e ruling = "pending \<times> Verdict \<times> 'e option"

text \<open>The verdict of the policies, which the rate limit may turn into a refusal.\<close>

definition ruledBy :: "Config \<Rightarrow> 'e ruling \<Rightarrow> bool" where
  "ruledBy cfg r \<longleftrightarrow> (case r of (p, v, err) \<Rightarrow>
     (\<exists>t v0. judgeTree cfg p = Some (t, v0) \<and> (v = v0 \<or> limited cfg v0 \<and> v = rateLimitedVerdict))
     \<and> (\<not> vKeep v \<longrightarrow> err = None))"

definition keptRuling :: "'e ruling \<Rightarrow> bool" where
  "keptRuling r \<longleftrightarrow> vKeep (fst (snd r)) \<and> snd (snd r) = None"

definition droppedRuling :: "'e ruling \<Rightarrow> bool" where
  "droppedRuling r \<longleftrightarrow> \<not> vKeep (fst (snd r))"

definition spansRuled :: "'e ruling list \<Rightarrow> int" where
  "spansRuled rs = int (sum_list (map (\<lambda>r. length (pSpans (fst r))) rs))"

text \<open>The calls of the writer: the spans it was given and its answer.\<close>

type_synonym 'e call = "Span list \<times> 'e option"

definition writesOf :: "'e ruling list \<Rightarrow> 'e call list" where
  "writesOf rs = map (\<lambda>(p, v, err). (pSpans p, err)) (filter (\<lambda>(p, v, err). vKeep v) rs)"

definition lostIn :: "'e call list \<Rightarrow> int" where
  "lostIn cs = int (sum_list (map (\<lambda>(spans, err). if err = None then 0 else length spans) cs))"

definition failures :: "'e call list \<Rightarrow> 'e list" where
  "failures cs = List.map_filter snd cs"

inductive env_calls :: "('w, 'e) Env \<Rightarrow> 'w \<Rightarrow> 'e call list \<Rightarrow> 'w \<Rightarrow> bool" for E where
  idle: "env_calls E w [] w"
| clock: "env_calls E w cs w1 \<Longrightarrow> eNow E w1 = (t, w') \<Longrightarrow> env_calls E w cs w'"
| wrote: "env_calls E w cs w1 \<Longrightarrow> eWrite E spans w1 = (err, w') \<Longrightarrow> env_calls E w (cs @ [(spans, err)]) w'"

lemma env_calls_trans:
  assumes "env_calls E w1 ds w2" "env_calls E w cs w1"
  shows "env_calls E w (cs @ ds) w2"
  using assms by (induction) (auto intro: env_calls.intros simp flip: append_assoc)

lemma env_calls_clock: "eNow E w = (t, w') \<Longrightarrow> env_calls E w [] w'"
  by (blast intro: env_calls.intros)

lemma env_calls_write: "eWrite E spans w = (err, w') \<Longrightarrow> env_calls E w [(spans, err)] w'"
  using env_calls.wrote [OF env_calls.idle] by fastforce

lemma rulings_simps [simp]:
  "spansRuled [] = 0" "spansRuled (r # rs) = int (length (pSpans (fst r))) + spansRuled rs"
  "writesOf [] = []" "writesOf ((p, v, err) # rs) = (if vKeep v then [(pSpans p, err)] else []) @ writesOf rs"
  "lostIn [] = 0" "lostIn ((spans, err) # cs) = (if err = None then 0 else int (length spans)) + lostIn cs"
  "lostIn (cs @ ds) = lostIn cs + lostIn ds" "failures [] = []" "failures (cs @ ds) = failures cs @ failures ds"
  "failures ((spans, err) # cs) = (case err of None \<Rightarrow> failures cs | Some e \<Rightarrow> e # failures cs)"
  by (simp_all add: spansRuled_def writesOf_def lostIn_def failures_def List.map_filter_def split: option.split)

text \<open>What a list of rulings adds to the counters.\<close>

definition reasonCount :: "Stats \<Rightarrow> string \<Rightarrow> int" where
  "reasonCount st reason = (case fmlookup (stReasons st) reason of None \<Rightarrow> 0 | Some k \<Rightarrow> k)"

definition tallied :: "'e ruling list \<Rightarrow> Stats \<Rightarrow> Stats \<Rightarrow> bool" where
  "tallied rs st st' \<longleftrightarrow>
     stKept st' = stKept st + int (length (filter keptRuling rs))
     \<and> stKeptSpans st' = stKeptSpans st + spansRuled (filter keptRuling rs)
     \<and> stDropped st' = stDropped st + int (length (filter droppedRuling rs))
     \<and> stDroppedSpans st' = stDroppedSpans st + spansRuled (filter droppedRuling rs)
     \<and> (\<forall>reason. reasonCount st' reason = reasonCount st reason + int (length (filter (\<lambda>r. vReason (fst (snd r)) = reason) rs)))"

lemma tallied_trans:
  assumes "tallied [r] st st1" "tallied rs st1 st2"
  shows "tallied (r # rs) st st2"
  using assms by (auto simp: tallied_def)

lemma countVerdict_tallied:
  "tallied [(p, v, err)] st (countVerdict v (err \<noteq> None) (int (length (pSpans p))) st)"
  by (auto simp: tallied_def countVerdict_def keptRuling_def droppedRuling_def reasonCount_def Let_def)

lemma countVerdict_lost:
  "stLost (countVerdict v (err \<noteq> None) (int (length (pSpans p))) st) = stLost st + lostIn (writesOf [(p, v, err)])"
  by (simp add: countVerdict_def Let_def)

subsection \<open>Settling and deciding one trace\<close>

lemma trimDecisions_forgot: "trimDecisions s = Some s' \<Longrightarrow> forgot s s'"
proof (induction s rule: trimDecisions.induct)
  case (1 s)
  show ?case
  proof (cases "cMaxDecisions (smConfig s) < int (mapLen (smDecided s))")
    case True
    with 1(2) obtain s1 where s1: "forgetOldest s = Some s1" "trimDecisions s1 = Some s'"
      by (subst (asm) trimDecisions.simps) (auto split: option.splits)
    from forgot_trans [OF forgetOldest_forgot [OF s1(1)] 1(1) [OF True s1]] show ?thesis .
  next
    case False
    with 1(2) show ?thesis by (simp add: trimDecisions.simps [of s] forgot_refl)
  qed
qed

lemma settle_unwaited:
  assumes "getSlice (smJudging s) tid = []" "settle now tid keep s = Some s'"
  shows "smStats s' = smStats s" "smLate s' = smLate s" "smJudging s' = fmdrop tid (smJudging s)"
    "smConfig s' = smConfig s" "smPending s' = smPending s"
proof -
  have u: "unjudge tid keep s = s\<lparr>smJudging := fmdrop tid (smJudging s)\<rparr>"
    using assms(1) by (simp add: unjudge_def)
  have "s' = unjudge tid keep s \<or> forgot (rememberVerdict now tid keep (unjudge tid keep s)) s'"
    using assms(2) trimDecisions_forgot by (auto simp: settle_split split: if_splits)
  then show "smStats s' = smStats s" "smLate s' = smLate s" "smJudging s' = fmdrop tid (smJudging s)"
    "smConfig s' = smConfig s" "smPending s' = smPending s"
    by (auto simp: u forgot_def rememberVerdict_def)
qed

lemma limitRate_effect:
  assumes "limitRate E t v0 s w = Some (v, s', w')"
  shows "(v = v0 \<or> limited (smConfig s) v0 \<and> v = rateLimitedVerdict) \<and> env_calls E w [] w'
    \<and> smStats s' = smStats s \<and> smLate s' = smLate s \<and> smJudging s' = smJudging s \<and> smConfig s' = smConfig s
    \<and> smPending s' = smPending s"
proof (cases "limited (smConfig s) v0")
  case False
  with assms show ?thesis by (simp add: limitRate_def env_calls.idle)
next
  case True
  then obtain service ok where "rootService t = Some service" "allow E service s w = (ok, s', w')"
    "v = (if ok then v0 else rateLimitedVerdict)"
    using assms by (auto simp: limitRate_def split: option.splits prod.splits)
  with True show ?thesis
    by (auto simp: allow_def allowLocked_def Let_def intro: env_calls_clock split: prod.splits if_splits)
qed

text \<open>What \<open>decide\<close> does with a trace for which no span arrived meanwhile.\<close>

definition judgedAs :: "('w, 'e) Env \<Rightarrow> 'e ruling list \<Rightarrow> Sampler \<Rightarrow> 'w \<Rightarrow> Sampler \<Rightarrow> 'w \<Rightarrow> bool" where
  "judgedAs E rs s w s' w' \<longleftrightarrow> (\<forall>r \<in> set rs. ruledBy (smConfig s) r) \<and> env_calls E w (writesOf rs) w'
     \<and> tallied rs (smStats s) (smStats s') \<and> stLost (smStats s') = stLost (smStats s) + lostIn (writesOf rs)
     \<and> smLate s' = smLate s \<and> smConfig s' = smConfig s \<and> smPending s' = smPending s
     \<and> (\<forall>tid. fmlookup (smJudging s') tid = (if tid \<in> (pID \<circ> fst) ` set rs then None else fmlookup (smJudging s) tid))"

lemma decide_ruling:
  assumes "decide E p s w = Some (err, s', w')" "fmlookup (smJudging s) (pID p) = Some []"
  shows "\<exists>v e. err = map_option (WriteKept (pID p)) e \<and> judgedAs E [(p, v, e)] s w s' w'"
proof -
  obtain t v0 v s1 w1 where j: "judgeTree (smConfig s) p = Some (t, v0)" "limitRate E t v0 s w = Some (v, s1, w1)"
    using assms(1) by (auto simp: decide_def split: option.splits)
  note l = limitRate_effect [OF j(2)]
  obtain e w2 where wr: "(if vKeep v then eWrite E (pSpans p) w1 else (None, w1)) = (e, w2)" by fastforce
  obtain now w3 where now: "settleTime E (smConfig s1) w2 = (now, w3)" by fastforce
  obtain s2 where s2: "settle now (pID p) (vKeep v) s1 = Some s2" "err = map_option (WriteKept (pID p)) e" "w' = w3"
    "s' = s2\<lparr>smStats := countVerdict v (e \<noteq> None) (int (length (pSpans p))) (smStats s2)\<rparr>"
    using assms(1) j wr now by (auto simp: decide_def settleLocked_def)
  have "getSlice (smJudging s1) (pID p) = []" using l assms(2) by (simp add: getSlice_def)
  note u = settle_unwaited [OF this s2(1)]
  have "env_calls E w1 (writesOf [(p, v, e)]) w2"
    using wr by (auto intro: env_calls_write env_calls.idle split: if_splits)
  moreover have "env_calls E w2 [] w3"
    using now by (auto simp: settleTime_def intro: env_calls_clock env_calls.idle split: if_splits)
  ultimately have calls: "env_calls E w (writesOf [(p, v, e)]) w'"
    using l env_calls_trans s2(3) by (metis append_Nil append_Nil2)
  have st: "smStats s' = countVerdict v (e \<noteq> None) (int (length (pSpans p))) (smStats s)"
    using s2(4) u(1) l by simp
  have "ruledBy (smConfig s) (p, v, e)"
    using j(1) l wr by (auto simp: ruledBy_def split: if_splits)
  moreover have "tallied [(p, v, e)] (smStats s) (smStats s')" "stLost (smStats s') = stLost (smStats s) + lostIn (writesOf [(p, v, e)])"
    unfolding st by (rule countVerdict_tallied, rule countVerdict_lost)
  moreover have "smLate s' = smLate s" "smConfig s' = smConfig s" "smPending s' = smPending s"
    "smJudging s' = fmdrop (pID p) (smJudging s)"
    using s2(4) u l by simp_all
  ultimately have "judgedAs E [(p, v, e)] s w s' w'"
    using calls unfolding judgedAs_def by (simp only: list.set ball_simps simp_thms) simp
  with s2(2) show ?thesis by blast
qed

subsection \<open>Deciding, in the order of the traces\<close>

definition errorsOf :: "'e ruling list \<Rightarrow> 'e WriteError list" where
  "errorsOf rs = List.map_filter (\<lambda>(p, v, err). map_option (WriteKept (pID p)) err) rs"

lemma errorsOf_simps [simp]:
  "errorsOf [] = []"
  "errorsOf ((p, v, err) # rs) = (case err of None \<Rightarrow> errorsOf rs | Some e \<Rightarrow> WriteKept (pID p) e # errorsOf rs)"
  by (simp_all add: errorsOf_def List.map_filter_def split: option.split)

lemma judgedAs_Nil: "judgedAs E [] s w s w"
  by (simp add: judgedAs_def env_calls.idle tallied_def)

lemma writesOf_Cons: "writesOf (r # rs) = writesOf [r] @ writesOf rs"
  by (cases r) simp

lemma judgedAs_Cons:
  assumes 1: "judgedAs E [r] s w s1 w1" and 2: "judgedAs E rs s1 w1 s2 w2"
  shows "judgedAs E (r # rs) s w s2 w2"
  unfolding judgedAs_def
proof (intro conjI allI)
  have calls: "env_calls E w (writesOf [r]) w1" "env_calls E w1 (writesOf rs) w2"
    and tally: "tallied [r] (smStats s) (smStats s1)" "tallied rs (smStats s1) (smStats s2)"
    and lost: "stLost (smStats s1) = stLost (smStats s) + lostIn (writesOf [r])"
      "stLost (smStats s2) = stLost (smStats s1) + lostIn (writesOf rs)"
    and judging: "fmlookup (smJudging s1) tid = (if tid \<in> (pID \<circ> fst) ` set [r] then None else fmlookup (smJudging s) tid)"
      "fmlookup (smJudging s2) tid = (if tid \<in> (pID \<circ> fst) ` set rs then None else fmlookup (smJudging s1) tid)" for tid
    using 1 2 unfolding judgedAs_def by blast+
  show "env_calls E w (writesOf (r # rs)) w2"
    unfolding writesOf_Cons [of r rs] by (rule env_calls_trans [OF calls(2,1)])
  show "tallied (r # rs) (smStats s) (smStats s2)"
    by (rule tallied_trans [OF tally])
  show "stLost (smStats s2) = stLost (smStats s) + lostIn (writesOf (r # rs))"
    unfolding writesOf_Cons [of r rs] lost by simp
  show "fmlookup (smJudging s2) tid = (if tid \<in> (pID \<circ> fst) ` set (r # rs) then None else fmlookup (smJudging s) tid)" for tid
    by (simp add: judging)
  show "\<forall>r \<in> set (r # rs). ruledBy (smConfig s) r" "smLate s2 = smLate s" "smConfig s2 = smConfig s"
    "smPending s2 = smPending s"
    using 1 2 by (simp_all add: judgedAs_def)
qed

lemma decideAll_rulings:
  assumes "decideAll E ps s w = Some (errs, s', w')" "distinct (map pID ps)"
    "\<forall>p \<in> set ps. fmlookup (smJudging s) (pID p) = Some []"
  shows "\<exists>rs. map fst rs = ps \<and> errs = errorsOf rs \<and> judgedAs E rs s w s' w'"
  using assms
proof (induction ps arbitrary: s w errs)
  case Nil
  then show ?case using judgedAs_Nil by auto
next
  case (Cons p ps)
  then obtain err s1 w1 errs1 where d: "decide E p s w = Some (err, s1, w1)" "decideAll E ps s1 w1 = Some (errs1, s', w')"
    "errs = (case err of None \<Rightarrow> errs1 | Some e \<Rightarrow> e # errs1)"
    by (auto split: option.splits)
  obtain v e where v: "err = map_option (WriteKept (pID p)) e" "judgedAs E [(p, v, e)] s w s1 w1"
    using decide_ruling [OF d(1)] Cons.prems(3) by auto
  have "\<forall>q \<in> set ps. fmlookup (smJudging s1) (pID q) = Some []"
    using v(2) Cons.prems(2,3) by (simp add: judgedAs_def) (metis image_eqI)
  with Cons.IH [OF d(2)] Cons.prems(2) obtain rs where rs: "map fst rs = ps" "errs1 = errorsOf rs" "judgedAs E rs s1 w1 s' w'"
    by auto
  show ?case
    using rs v(1) d(3) judgedAs_Cons [OF v(2) rs(3)]
    by (intro exI [of _ "(p, v, e) # rs"]) (simp split: option.split)
qed

subsection \<open>The traces that are due\<close>

definition isDue :: "Config \<Rightarrow> Time \<Rightarrow> pending \<Rightarrow> bool" where
  "isDue cfg now p \<longleftrightarrow> cQuiet cfg \<le> time_Sub now (pLast p) \<or> cMaxAge cfg \<le> time_Sub now (pFirst p)"

lemma sweepDue_fst: "fst (sweepDue cfg now p st) \<longleftrightarrow> isDue cfg now p"
  by (simp add: sweepDue_def isDue_def)

lemma sweepDue_stats:
  "\<exists>n. snd (sweepDue cfg now p st) = st\<lparr>stSealedByAge := n\<rparr>"
  by (intro exI [of _ "stSealedByAge (snd (sweepDue cfg now p st))"]) (simp add: sweepDue_def)

definition dueIn :: "Config \<Rightarrow> Time \<Rightarrow> Sampler \<Rightarrow> TraceID \<Rightarrow> pending option" where
  "dueIn cfg now s tid = (case fmlookup (smPending s) tid of None \<Rightarrow> None | Some p \<Rightarrow> if isDue cfg now p then Some p else None)"

text \<open>The counters that taking due traces does not touch.\<close>

definition sameTally :: "Stats \<Rightarrow> Stats \<Rightarrow> bool" where
  "sameTally st st' \<longleftrightarrow> stKept st' = stKept st \<and> stKeptSpans st' = stKeptSpans st \<and> stDropped st' = stDropped st
     \<and> stDroppedSpans st' = stDroppedSpans st \<and> stReasons st' = stReasons st \<and> stLost st' = stLost st"

lemma takeDue_due:
  assumes "distinct tids" "takeDue (sweepDue cfg now) tids ready s = (ready', s')"
  shows "ready' = ready @ List.map_filter (dueIn cfg now s) tids \<and> smLate s' = smLate s \<and> smConfig s' = smConfig s
    \<and> sameTally (smStats s) (smStats s')
    \<and> (\<forall>tid. fmlookup (smPending s') tid = (if tid \<in> set tids \<and> dueIn cfg now s tid \<noteq> None then None else fmlookup (smPending s) tid))
    \<and> (\<forall>tid. fmlookup (smJudging s') tid = (if tid \<in> set tids \<and> dueIn cfg now s tid \<noteq> None then Some [] else fmlookup (smJudging s) tid))"
  using assms
proof (induction tids arbitrary: ready s)
  case (Cons t tids)
  show ?case
  proof (cases "dueIn cfg now s t")
    case None
    then have "\<exists>st. sameTally (smStats s) st \<and> takeDue (sweepDue cfg now) tids ready (s\<lparr>smStats := st\<rparr>) = (ready', s')"
    proof (cases "fmlookup (smPending s) t")
      case None
      with Cons.prems(2) show ?thesis by (intro exI [of _ "smStats s"]) (simp add: sameTally_def)
    next
      case (Some p)
      with None have "\<not> isDue cfg now p" by (auto simp: dueIn_def split: if_splits)
      then have "fst (sweepDue cfg now p (smStats s)) = False" by (simp add: sweepDue_fst)
      with Cons.prems(2) Some sweepDue_stats [of cfg now p "smStats s"] show ?thesis
        by (intro exI [of _ "snd (sweepDue cfg now p (smStats s))"]) (auto simp: split_beta sameTally_def)
    qed
    then obtain st where st: "sameTally (smStats s) st" "takeDue (sweepDue cfg now) tids ready (s\<lparr>smStats := st\<rparr>) = (ready', s')" by blast
    have "dueIn cfg now (s\<lparr>smStats := st\<rparr>) = dueIn cfg now s" by (simp add: dueIn_def fun_eq_iff)
    with Cons.IH [OF _ st(2)] Cons.prems(1) st(1) None show ?thesis
      by (auto simp: List.map_filter_simps sameTally_def)
  next
    case (Some p)
    then have p: "fmlookup (smPending s) t = Some p" "fst (sweepDue cfg now p (smStats s))"
      by (auto simp: dueIn_def sweepDue_fst split: option.splits if_splits)
    define s1 where "s1 = s\<lparr>smPending := fmdrop t (smPending s), smJudging := fmupd t [] (smJudging s),
      smStats := (snd (sweepDue cfg now p (smStats s)))\<lparr>stBuffered := stBuffered (snd (sweepDue cfg now p (smStats s))) - int (length (pSpans p))\<rparr>\<rparr>"
    have run: "takeDue (sweepDue cfg now) tids (ready @ [p]) s1 = (ready', s')"
      using Cons.prems(2) p by (simp add: split_beta s1_def)
    have s1: "sameTally (smStats s) (smStats s1)" "smLate s1 = smLate s" "smConfig s1 = smConfig s"
      using sweepDue_stats [of cfg now p "smStats s"] by (auto simp: s1_def sameTally_def)
    have fields: "fmlookup (smPending s1) tid = (if tid = t then None else fmlookup (smPending s) tid)"
      "fmlookup (smJudging s1) tid = (if tid = t then Some [] else fmlookup (smJudging s) tid)" for tid
      by (simp_all add: s1_def)
    have notin: "t \<notin> set tids" "distinct tids" using Cons.prems(1) by simp_all
    have due: "dueIn cfg now s1 tid = (if tid = t then None else dueIn cfg now s tid)" for tid
      by (simp add: dueIn_def s1_def)
    have same: "List.map_filter (dueIn cfg now s1) tids = List.map_filter (dueIn cfg now s) tids"
      using Cons.prems(1) by (auto simp: due List.map_filter_def intro!: map_cong filter_cong)
    note result = Cons.IH [OF notin(2) run]
    note ih = result [THEN conjunct2, THEN conjunct2, THEN conjunct2, THEN conjunct2, THEN conjunct1, THEN spec] result [THEN conjunct2, THEN conjunct2, THEN conjunct2, THEN conjunct2, THEN conjunct2, THEN spec]
    have "ready' = ready @ List.map_filter (dueIn cfg now s) (t # tids)" "smLate s' = smLate s1" "smConfig s' = smConfig s1"
      "sameTally (smStats s1) (smStats s')"
      using result Some by (simp_all add: List.map_filter_simps same)
    moreover have "fmlookup (smPending s') tid = (if tid \<in> set (t # tids) \<and> dueIn cfg now s tid \<noteq> None then None else fmlookup (smPending s) tid)"
      "fmlookup (smJudging s') tid = (if tid \<in> set (t # tids) \<and> dueIn cfg now s tid \<noteq> None then Some [] else fmlookup (smJudging s) tid)" for tid
      using notin(1) Some by (auto simp: ih due fields)
    moreover have "sameTally (smStats s) (smStats s')"
      using s1(1) calculation(4) by (simp add: sameTally_def)
    ultimately show ?thesis using s1(2,3) by (intro conjI allI) simp_all
  qed
qed (simp add: sameTally_def List.map_filter_simps)

subsection \<open>Late spans\<close>

definition lateErrors :: "TraceID list \<Rightarrow> 'e option list \<Rightarrow> 'e WriteError list" where
  "lateErrors tids answers = List.map_filter (\<lambda>(tid, err). map_option (WriteLate tid) err) (zip tids answers)"

lemma lateErrors_simps [simp]:
  "lateErrors [] answers = []"
  "lateErrors (tid # tids) (err # answers)
     = (case err of None \<Rightarrow> lateErrors tids answers | Some e \<Rightarrow> WriteLate tid e # lateErrors tids answers)"
  by (simp_all add: lateErrors_def List.map_filter_simps split: option.split)

lemma writeLateLoop_calls:
  assumes "writeLateLoop E late tids s w = (errs, s', w')"
  shows "\<exists>answers. length answers = length tids \<and> errs = lateErrors tids answers
    \<and> env_calls E w (zip (map (getSlice late) tids) answers) w'
    \<and> s' = s\<lparr>smStats := (smStats s)\<lparr>stLost := stLost (smStats s) + lostIn (zip (map (getSlice late) tids) answers)\<rparr>\<rparr>"
  using assms
proof (induction tids arbitrary: s w errs)
  case Nil
  then show ?case by (simp add: env_calls.idle)
next
  case (Cons tid tids)
  obtain err w1 where wr: "eWrite E (getSlice late tid) w = (err, w1)" by fastforce
  define s1 where "s1 = (if err = None then s else loseLate (getSlice late tid) s)"
  obtain errs1 where r: "writeLateLoop E late tids s1 w1 = (errs1, s', w')"
    "errs = (case err of None \<Rightarrow> errs1 | Some e \<Rightarrow> WriteLate tid e # errs1)"
    using Cons.prems wr by (auto simp: s1_def split: option.splits prod.splits)
  obtain answers where a: "length answers = length tids" "errs1 = lateErrors tids answers"
    "env_calls E w1 (zip (map (getSlice late) tids) answers) w'"
    "s' = s1\<lparr>smStats := (smStats s1)\<lparr>stLost := stLost (smStats s1) + lostIn (zip (map (getSlice late) tids) answers)\<rparr>\<rparr>"
    using Cons.IH [OF r(1)] by blast
  have "env_calls E w ([(getSlice late tid, err)] @ zip (map (getSlice late) tids) answers) w'"
    by (rule env_calls_trans [OF a(3) env_calls_write [OF wr]])
  moreover have "s' = s\<lparr>smStats := (smStats s)\<lparr>stLost := stLost (smStats s)
      + lostIn (zip (map (getSlice late) (tid # tids)) (err # answers))\<rparr>\<rparr>"
    unfolding a(4) by (simp add: s1_def loseLate_def)
  ultimately show ?case
    using a(1,2) r(2) by (intro exI [of _ "err # answers"]) (simp split: option.split)
qed

subsection \<open>Sweep\<close>

abbreviation lateOrder :: "Sampler \<Rightarrow> TraceID list" where
  "lateOrder s \<equiv> sortFunc compareBytes (mapKeys (smLate s))"

abbreviation lateCalls :: "Sampler \<Rightarrow> 'e option list \<Rightarrow> 'e call list" where
  "lateCalls s answers \<equiv> zip (map (getSlice (smLate s)) (lateOrder s)) answers"

abbreviation dueTraces :: "Time \<Rightarrow> Sampler \<Rightarrow> pending list" where
  "dueTraces now s \<equiv> List.map_filter (dueIn (smConfig s) now s) (mapKeys (smPending s))"

lemma set_dueTraces: "set (dueTraces now s) = {p. \<exists>tid. fmlookup (smPending s) tid = Some p \<and> isDue (smConfig s) now p}"
  by (force simp: List.map_filter_def dueIn_def split: option.splits if_splits)

lemma ids_dueTraces:
  assumes "places_ok s"
  shows "map pID (dueTraces now s) = filter (\<lambda>tid. dueIn (smConfig s) now s tid \<noteq> None) (mapKeys (smPending s))"
proof -
  have "pID p = tid" if "dueIn (smConfig s) now s tid = Some p" for tid p
    using that assms by (auto simp: dueIn_def places_ok_def pending_ok_def split: option.splits if_splits)
  then have "map pID (List.map_filter (dueIn (smConfig s) now s) tids) = filter (\<lambda>tid. dueIn (smConfig s) now s tid \<noteq> None) tids" for tids
    by (induction tids) (auto simp: List.map_filter_simps split: option.split)
  then show ?thesis .
qed

interpretation byFirst: comparator byFirst
proof -
  have eq: "byFirst = thenCompare (onKey pFirst time_Compare) (onKey pID compareBytes)"
    by (simp add: byFirst_def thenCompare_def onKey_def Let_def fun_eq_iff)
  show "comparator byFirst"
    unfolding eq by (intro comparator_intros)
qed

lemma distinct_rulings:
  assumes "places_ok s" "map fst rs = sortFunc byFirst (dueTraces now s)"
  shows "distinct (map (pID \<circ> fst) rs)"
proof -
  have "mset (map pID (map fst rs)) = mset (filter (\<lambda>tid. dueIn (smConfig s) now s tid \<noteq> None) (mapKeys (smPending s)))"
    unfolding assms(2) ids_dueTraces [OF assms(1), symmetric] by (simp only: mset_map mset_sortFunc)
  moreover have "map pID (map fst rs) = map (pID \<circ> fst) rs" by simp
  ultimately show ?thesis
    by (metis distinct_filter distinct_mapKeys mset_eq_imp_distinct_iff)
qed

text \<open>Taking the due traces and deciding them leaves everything else alone.\<close>

lemma judge_rulings:
  assumes ok: "places_ok s" and j: "judge E (sweepDue (smConfig s) now) s w = Some (errs, s', w')"
  shows "\<exists>rs. map fst rs = sortFunc byFirst (dueTraces now s) \<and> errs = errorsOf rs
    \<and> (\<forall>r \<in> set rs. ruledBy (smConfig s) r) \<and> env_calls E w (writesOf rs) w'
    \<and> tallied rs (smStats s) (smStats s') \<and> stLost (smStats s') = stLost (smStats s) + lostIn (writesOf rs)
    \<and> smLate s' = smLate s \<and> smJudging s' = smJudging s
    \<and> (\<forall>tid. fmlookup (smPending s') tid = (if dueIn (smConfig s) now s tid \<noteq> None then None else fmlookup (smPending s) tid))"
proof -
  let ?due = "\<lambda>tid. dueIn (smConfig s) now s tid \<noteq> None"
  obtain ready s0 where t: "takeDue (sweepDue (smConfig s) now) (mapKeys (smPending s)) [] s = (ready, s0)" by fastforce
  note td = takeDue_due [OF distinct_mapKeys t]
  have ready: "ready = dueTraces now s" and s0: "smLate s0 = smLate s" "smConfig s0 = smConfig s" "sameTally (smStats s) (smStats s0)"
    using td by simp_all
  have due_key: "tid \<in> set (mapKeys (smPending s)) \<and> ?due tid \<longleftrightarrow> ?due tid" for tid
    by (auto simp: dueIn_def split: option.splits)
  have judging: "fmlookup (smJudging s0) tid = (if ?due tid then Some [] else fmlookup (smJudging s) tid)" for tid
    using td due_key by simp
  have ids: "pID ` set ready = {tid. ?due tid}" "distinct (map pID ready)"
  proof -
    have "map pID ready = filter ?due (mapKeys (smPending s))" unfolding ready by (rule ids_dueTraces [OF ok])
    from arg_cong [OF this, of set] arg_cong [OF this, of distinct] due_key
    show "pID ` set ready = {tid. ?due tid}" "distinct (map pID ready)" by (simp_all add: Collect_conj_eq set_eq_iff)
  qed
  have d: "decideAll E (sortFunc byFirst ready) s0 w = Some (errs, s', w')"
    using j t by (simp add: judge_def)
  have "distinct (map pID (sortFunc byFirst ready))"
    using ids(2) by (metis mset_eq_imp_distinct_iff mset_map mset_sortFunc)
  moreover have "?due (pID p)" if "p \<in> set ready" for p
    using that ids(1) by blast
  then have "\<forall>p \<in> set (sortFunc byFirst ready). fmlookup (smJudging s0) (pID p) = Some []"
    using judging by simp
  ultimately obtain rs where rs: "map fst rs = sortFunc byFirst ready" "errs = errorsOf rs" "judgedAs E rs s0 w s' w'"
    using decideAll_rulings [OF d] by blast
  have "(pID \<circ> fst) ` set rs = {tid. ?due tid}"
    using arg_cong [OF rs(1), of "\<lambda>ps. pID ` set ps"] ids(1) by (simp add: image_image)
  then have "fmlookup (smJudging s') tid = (if ?due tid then None else fmlookup (smJudging s0) tid)" for tid
    using rs(3) by (simp add: judgedAs_def)
  moreover have "fmlookup (smJudging s) tid = None" if "?due tid" for tid
    using that ok by (auto simp: dueIn_def places_ok_def split: option.splits)
  ultimately have "smJudging s' = smJudging s"
    by (intro fmap_ext) (simp add: judging)
  moreover have "tallied rs (smStats s) (smStats s')" "stLost (smStats s') = stLost (smStats s) + lostIn (writesOf rs)"
    using rs(3) s0(3) by (simp_all add: judgedAs_def tallied_def sameTally_def reasonCount_def)
  moreover have "\<forall>r \<in> set rs. ruledBy (smConfig s) r" "env_calls E w (writesOf rs) w'" "smLate s' = smLate s"
    using rs(3) s0 by (simp_all add: judgedAs_def)
  moreover have "fmlookup (smPending s') tid = (if ?due tid then None else fmlookup (smPending s) tid)" for tid
    using rs(3) td due_key by (simp add: judgedAs_def)
  ultimately show ?thesis using rs(1,2) ready by blast
qed

lemma forgetLocked_fields:
  "smStats (forgetLocked now s) = smStats s" "smPending (forgetLocked now s) = smPending s"
  "smJudging (forgetLocked now s) = smJudging s" "smLate (forgetLocked now s) = smLate s"
  using forgetExpired_forgot [of s now] by (simp_all add: forgetLocked_def Let_def forgot_def)

lemma takeLate_fields:
  "fst (takeLate s) = smLate s" "smLate (snd (takeLate s)) = fmempty" "smPending (snd (takeLate s)) = smPending s"
  "smJudging (snd (takeLate s)) = smJudging s" "sameTally (smStats s) (smStats (snd (takeLate s)))"
  by (simp_all add: takeLate_def Let_def sameTally_def)

lemma Sweep_rulings:
  assumes ok: "places_ok s" and now: "eNow E w = (now, w0)" and sw: "Sweep E s w = Some (errs, s', w')"
  shows "\<exists>rs answers. map fst rs = sortFunc byFirst (dueTraces now s) \<and> (\<forall>r \<in> set rs. ruledBy (smConfig s) r)
    \<and> length answers = length (lateOrder s) \<and> env_calls E w (writesOf rs @ lateCalls s answers) w'
    \<and> errs = errorsOf rs @ lateErrors (lateOrder s) answers
    \<and> tallied rs (smStats s) (smStats s') \<and> stLost (smStats s') = stLost (smStats s) + lostIn (writesOf rs @ lateCalls s answers)
    \<and> smLate s' = fmempty \<and> smJudging s' = smJudging s
    \<and> (\<forall>tid. fmlookup (smPending s') tid = (if dueIn (smConfig s) now s tid \<noteq> None then None else fmlookup (smPending s) tid))"
proof -
  obtain errs1 s1 w1 errs2 where j: "judge E (sweepDue (smConfig s) now) s w0 = Some (errs1, s1, w1)"
    and l: "writeLate E (forgetLocked now s1) w1 = (errs2, s', w')" "errs = errs1 @ errs2"
    using sw now by (auto simp: Sweep_def split: option.splits prod.splits)
  obtain rs where rs: "map fst rs = sortFunc byFirst (dueTraces now s)" "errs1 = errorsOf rs" "\<forall>r \<in> set rs. ruledBy (smConfig s) r"
    "env_calls E w0 (writesOf rs) w1" "tallied rs (smStats s) (smStats s1)"
    "stLost (smStats s1) = stLost (smStats s) + lostIn (writesOf rs)" "smLate s1 = smLate s" "smJudging s1 = smJudging s"
    "\<forall>tid. fmlookup (smPending s1) tid = (if dueIn (smConfig s) now s tid \<noteq> None then None else fmlookup (smPending s) tid)"
    using judge_rulings [OF ok j] by blast
  let ?f = "forgetLocked now s1"
  have late: "writeLateLoop E (smLate s) (lateOrder s) (snd (takeLate ?f)) w1 = (errs2, s', w')"
    using l(1) takeLate_fields(1) [of ?f] by (simp add: writeLate_def split_beta forgetLocked_fields rs(7))
  obtain answers where a: "length answers = length (lateOrder s)" "errs2 = lateErrors (lateOrder s) answers"
    "env_calls E w1 (lateCalls s answers) w'"
    "s' = (snd (takeLate ?f))\<lparr>smStats := (smStats (snd (takeLate ?f)))\<lparr>stLost := stLost (smStats (snd (takeLate ?f))) + lostIn (lateCalls s answers)\<rparr>\<rparr>"
    using writeLateLoop_calls [OF late] by blast
  have "env_calls E w (writesOf rs @ lateCalls s answers) w'"
    using env_calls_trans [OF a(3) env_calls_trans [OF rs(4) env_calls_clock [OF now]]] by simp
  moreover have "tallied rs (smStats s) (smStats s')" "stLost (smStats s') = stLost (smStats s) + lostIn (writesOf rs @ lateCalls s answers)"
    using rs(5,6) takeLate_fields(5) [of ?f]
    by (simp_all add: a(4) forgetLocked_fields tallied_def sameTally_def reasonCount_def)
  moreover have "smLate s' = fmempty" "smJudging s' = smJudging s" "smPending s' = smPending s1"
    by (simp_all add: a(4) takeLate_fields forgetLocked_fields rs(8))
  ultimately show ?thesis using rs(1-3,9) a(1,2) l(2) by auto
qed

end
