(* ===== verification/Sampler_Props.thy ===== *)
theory Sampler_Props
  imports Sampler_Judging
begin

section \<open>Properties of the sampler\<close>

text \<open>What the sampler promises, over every interleaving of its operations.\<close>

subsection \<open>A configuration and a state for the examples\<close>

definition exampleConfig :: Config where
  "exampleConfig = \<lparr>cQuiet = 5, cMaxAge = 60, cMaxSpans = 10, cPolicies = [KeepErrors_Evaluate], cRemember = 100,
     cMaxDecisions = 2, cServiceRate = FFin 1, cServiceBurst = 2\<rparr>"

definition exampleSampler :: Sampler where
  "exampleSampler = \<lparr>smConfig = exampleConfig, smPending = fmempty, smStats = zeroStats, smJudging = fmempty, smDecided = fmempty,
     smOrder = [], smLate = fmempty, smBuckets = fmempty\<rparr>"

lemma exampleSampler_new: "New exampleConfig False = Inr exampleSampler"
  by (simp add: New_def exampleConfig_def exampleSampler_def)

lemma exampleSystem:
  "\<exists>y p. sys_reach exampleConfig y \<and> syAccepted y = {#exampleSpan 1 2 0 5 9#} \<and> inFlight y = [] \<and> syLate y = []
    \<and> fmlookup (smPending (sySampler y)) (exampleID 16 1) = Some p \<and> pLast p = 100
    \<and> stBuffered (smStats (sySampler y)) = 1"
proof -
  let ?y = "initSystem exampleSampler"
  obtain err s' where a: "acceptLocked 100 [exampleSpan 1 2 0 5 9] (sySampler ?y) = (err, s')" by fastforce
  have "verdict exampleSampler tid now = (False, False)" for tid now by (simp add: verdict_def exampleSampler_def)
  then have "err = None" and "\<exists>p. fmlookup (smPending s') (exampleID 16 1) = Some p \<and> pLast p = 100" and n: "stBuffered (smStats s') = 1"
    using a by (auto simp: acceptLocked_def acceptSpan_def initSystem_def exampleSampler_def zeroStats_def exampleConfig_def
        Let_def verdict_def exampleSpan_def)
  then obtain p where p: "fmlookup (smPending s') (exampleID 16 1) = Some p" "pLast p = 100" by blast
  from \<open>err = None\<close> a sys_step.accepted [of 100 "[exampleSpan 1 2 0 5 9]" ?y s'] sys_reach.start [OF exampleSampler_new]
  have "sys_reach exampleConfig (?y\<lparr>sySampler := s', syAccepted := syAccepted ?y + mset [exampleSpan 1 2 0 5 9],
      syDropped := syDropped ?y + lateDropped (sySampler ?y) 100 [exampleSpan 1 2 0 5 9]\<rparr>)"
    by (blast intro: sys_reach.next_step)
  then show ?thesis using p n by (intro exI [of _ p] exI) (auto simp: initSystem_def inFlight_def)
qed

lemma exampleConfig_policies: "\<forall>q \<in> set (cPolicies exampleConfig). policy q"
  by (simp add: exampleConfig_def keepErrors.policy_axioms)

subsection \<open>The newest verdict is not forgotten\<close>

lemma trimDecisions_nonempty:
  assumes "remembered_ok s" "1 \<le> cMaxDecisions (smConfig s)" "smOrder s \<noteq> []" "trimDecisions s = Some s'"
  shows "smOrder s' \<noteq> []"
  using assms
proof (induction s rule: trimDecisions.induct)
  case (1 s)
  show ?case
  proof (cases "cMaxDecisions (smConfig s) < int (mapLen (smDecided s))")
    case True
    with 1(5) obtain s1 where s1: "forgetOldest s = Some s1" "trimDecisions s1 = Some s'"
      by (subst (asm) trimDecisions.simps) (auto split: option.splits)
    have "smOrder s1 \<noteq> []"
    proof
      assume "smOrder s1 = []"
      with s1(1) obtain r where "smOrder s = [r]" by (auto simp: forgetOldest_def split: list.splits)
      then have "fset (fmdom (smDecided s)) \<subseteq> {rID r}" using 1(2) by (force simp: remembered_ok_def fmlookup_dom_iff)
      then have "mapLen (smDecided s) \<le> 1" unfolding mapLen_def fcard.rep_eq by (metis card_mono finite.emptyI finite.insertI is_singletonI is_singleton_altdef)
      with True 1(3) show False by simp
    qed
    moreover have "smConfig s1 = smConfig s" using forgetOldest_forgot [OF s1(1)] by (simp add: forgot_def)
    ultimately show ?thesis using 1(1) [OF True s1(1) forgetOldest_remembered [OF 1(2) s1(1)]] 1(3) s1(2) by simp
  next
    case False
    then have "trimDecisions s = Some s" by (simp add: trimDecisions.simps [of s])
    with 1(4,5) show ?thesis by simp
  qed
qed

lemma settle_remembers:
  assumes "sampler_inv s" "0 < cRemember (smConfig s)" "settle now tid keep s = Some s'"
    "\<lparr>rID = tid, rAt = now\<rparr> \<notin> set (smOrder s)"
  shows "fmlookup (smDecided s') tid = Some \<lparr>dKeep = keep, dAt = now\<rparr>"
proof -
  let ?r = "rememberVerdict now tid keep (unjudge tid keep s)"
  have t: "trimDecisions ?r = Some s'" using assms(2,3) by (simp add: settle_split)
  have ok: "remembered_ok ?r" using assms(1) unjudge_effect(7,8) [of tid keep s]
    by (auto simp: remembered_ok_def sampler_inv_def verdicts_ok_def rememberVerdict_def)
  have max: "1 \<le> cMaxDecisions (smConfig ?r)" using assms(1,2) unjudge_effect(4) [of tid keep s]
    by (simp add: sampler_inv_def config_ok_def rememberVerdict_def)
  have ord: "smOrder ?r = smOrder s @ [\<lparr>rID = tid, rAt = now\<rparr>]" "fmlookup (smDecided ?r) tid = Some \<lparr>dKeep = keep, dAt = now\<rparr>"
    using unjudge_effect(8) [of tid keep s] by (simp_all add: rememberVerdict_def)
  have ne: "smOrder s' \<noteq> []" using trimDecisions_nonempty [OF ok max _ t] ord by simp
  have "forgot ?r s'" using trimDecisions_total [OF ok] max t by auto
  then obtain rs where rs: "smOrder ?r = rs @ smOrder s'" "fmlookup (smDecided s') tid = fmlookup (smDecided ?r) tid
      \<or> (\<exists>d. fmlookup (smDecided ?r) tid = Some d \<and> \<lparr>rID = tid, rAt = dAt d\<rparr> \<in> set rs)"
    unfolding forgot_def by blast
  have "set rs \<subseteq> set (smOrder s)"
  proof -
    have "rs @ smOrder s' = smOrder s @ [\<lparr>rID = tid, rAt = now\<rparr>]" using rs(1) ord(1) by simp
    then have "rs @ butlast (smOrder s') = smOrder s" using ne by (metis append_is_Nil_conv butlast_append butlast_snoc)
    then show ?thesis by (metis Un_upper1 set_append)
  qed
  with rs(2) ord(2) assms(4) show ?thesis by auto
qed

subsection \<open>A burst\<close>

fun allowMany :: "Time \<Rightarrow> string \<Rightarrow> nat \<Rightarrow> Sampler \<Rightarrow> bool list \<times> Sampler" where
  "allowMany now service 0 s = ([], s)"
| "allowMany now service (Suc n) s =
     (let (ok, s) = allowLocked now service s; (oks, s) = allowMany now service n s in (ok # oks, s))"

lemma round64_small: "round64 (of_int n) = FFin (of_int n)" if "\<bar>n\<bar> \<le> 2 ^ 53" for n
  using f_of_int_exact [OF that] by (simp add: f_of_int_def)

lemma allowMany_tokens:
  assumes "fmlookup (smBuckets s) service = Some \<lparr>bTokens = FFin (of_nat k), bAt = now\<rparr>" "k \<le> 2 ^ 53"
  shows "fst (allowMany now service n s) = replicate (min k n) True @ replicate (n - k) False"
  using assms
proof (induction n arbitrary: k s)
  case (Suc n)
  show ?case
  proof (cases k)
    case 0
    then have "allowLocked now service s = (False, s\<lparr>smBuckets := fmupd service \<lparr>bTokens = FFin (of_nat k), bAt = now\<rparr> (smBuckets s)\<rparr>)"
      using Suc.prems by (simp add: allowLocked_def refill_def)
    moreover have "fst (allowMany now service n (s\<lparr>smBuckets := fmupd service \<lparr>bTokens = FFin (of_nat k), bAt = now\<rparr> (smBuckets s)\<rparr>))
        = replicate n False" using Suc.IH [of "s\<lparr>smBuckets := fmupd service \<lparr>bTokens = FFin (of_nat k), bAt = now\<rparr> (smBuckets s)\<rparr>" k] Suc.prems(2) 0 by simp
    ultimately show ?thesis using 0 by (simp add: split_beta)
  next
    case (Suc j)
    let ?s = "s\<lparr>smBuckets := fmupd service \<lparr>bTokens = FFin (of_nat j), bAt = now\<rparr> (smBuckets s)\<rparr>"
    have "int j \<le> 2 ^ 53" using Suc.prems(2) \<open>k = Suc j\<close> by simp
    then have "round64 (of_nat j) = FFin (of_nat j)" using round64_small [of "int j"] by simp
    then have "allowLocked now service s = (True, ?s)"
      using Suc.prems(1) \<open>k = Suc j\<close> by (simp add: allowLocked_def refill_def f_sub_def)
    moreover have "fst (allowMany now service n ?s) = replicate (min j n) True @ replicate (n - j) False"
      using Suc.prems(2) \<open>k = Suc j\<close> by (intro Suc.IH) simp_all
    ultimately show ?thesis using \<open>k = Suc j\<close> by (simp add: split_beta)
  qed
qed simp

subsection \<open>Properties\<close>

text \<open>No span is lost silently and the buffer stays within its bound. Under every interleaving
  of \<open>Accept\<close>, \<open>Sweep\<close> and \<open>Flush\<close>, each accepted span is at every moment in exactly one place:
  buffered, in the hands of an operation, written, refused by the writer or dropped by a verdict;
  the counters say how many; and \<open>Buffered\<close> is the number of spans held, never above \<open>MaxSpans\<close>.\<close>

lemma sampler_conserves_spans:
  assumes "sys_reach cfg y"
  shows "syAccepted y = heldBag (sySampler y) + spansOf (inFlight y) + mset (concat (syLate y)) + syKept y + syLateKept y + syLost y + syDropped y
    \<and> stAccepted (smStats (sySampler y)) = int (size (syAccepted y)) \<and> stKeptSpans (smStats (sySampler y)) = int (size (syKept y))
    \<and> stLost (smStats (sySampler y)) = int (size (syLost y))
    \<and> stDroppedSpans (smStats (sySampler y)) + stLateDropped (smStats (sySampler y)) = int (size (syDropped y))
    \<and> stBuffered (smStats (sySampler y)) = int (size (heldBag (sySampler y))) \<and> stBuffered (smStats (sySampler y)) \<le> cMaxSpans cfg"
  using sys_reach_inv [OF assms] sys_reach_config [OF assms]
  by (simp add: sys_inv_def accounted_def counted_def Let_def sampler_inv_def holds_ok_def)

text \<open>C32: what the sampler remembers is bounded: at most \<open>MaxDecisions\<close> verdicts, each with its
  entry in the forgetting order, and every service's allowance lies between zero and the burst,
  in floating point too.\<close>

theorem sampler_bounds:
  assumes "sys_reach cfg y"
  shows "stDecisions (Sampler_Stats (sySampler y)) \<le> max 0 (cMaxDecisions cfg)
    \<and> (\<forall>tid d. fmlookup (smDecided (sySampler y)) tid = Some d \<longrightarrow> (\<exists>r \<in> set (smOrder (sySampler y)). rID r = tid \<and> rAt r = dAt d))
    \<and> (\<forall>service b. fmlookup (smBuckets (sySampler y)) service = Some b \<longrightarrow> f_le (FFin 0) (bTokens b) \<and> f_le (bTokens b) (f_of_int (cServiceBurst cfg)))"
  using sys_reach_inv [OF assms] sys_reach_config [OF assms]
  by (simp add: sys_inv_def sampler_inv_def verdicts_ok_def buckets_ok_def bucket_ok_def Sampler_Stats_def)

theorem sampler_bounds_witness:
  "\<exists>y. sys_reach exampleConfig y \<and> syAccepted y \<noteq> {#} \<and> stDecisions (Sampler_Stats (sySampler y)) \<le> 2"
proof -
  obtain y where y: "sys_reach exampleConfig y" "syAccepted y = {#exampleSpan 1 2 0 5 9#}" using exampleSystem by blast
  from sampler_bounds [OF y(1)] y show ?thesis by (auto simp: exampleConfig_def)
qed

text \<open>C10: \<open>Run\<close> returns and drains. After any number of sweeps and the final flush, started with no
  other operation in progress, nothing is buffered and every span accepted before was written,
  refused by the writer or dropped by a verdict, whatever the clock and the writer do; and the
  spans that count as kept since are exactly those the writer took.\<close>

theorem Run_drains:
  assumes "sys_reach cfg y" "inFlight y = []" "syLate y = []" "\<forall>q \<in> set (cPolicies cfg). policy q"
  shows "\<exists>errs s' w' y'. Run E n (sySampler y) w = Some (errs, s', w') \<and> sys_reach cfg y' \<and> sySampler y' = s'
    \<and> stBuffered (Sampler_Stats s') = 0 \<and> stTraces (Sampler_Stats s') = 0
    \<and> syAccepted y = syKept y' + syLateKept y' + syLost y' + syDropped y'
    \<and> (\<exists>written. env_run E (set_mset (syAccepted y)) w written w' \<and> syKept y' + syLateKept y' = syKept y + syLateKept y + written)"
proof -
  have inv: "sys_inv y" "smConfig (sySampler y) = cfg" using sys_reach_inv [OF assms(1)] sys_reach_config [OF assms(1)] by blast+
  obtain errs s' w' y' where r: "Run E n (sySampler y) w = Some (errs, s', w')" "moves E y w y' w'" "sySampler y' = s'"
    "mset (syReady y') = mset (syReady y)" "syRuled y' = syRuled y" "mset (syLate y') = mset (syLate y)" "smPending s' = fmempty" "smLate s' = fmempty"
    using Run_runs [OF inv(1), where E = E and n = n and w = w] assms(4) inv(2) by blast
  have inv': "sys_inv y'" "sys_reach cfg y'" using runs_to_inv [OF moves_runs [OF r(2)] inv(1)] runs_to_reach [OF moves_runs [OF r(2)] assms(1)] by blast+
  have idle: "inFlight y' = []" "syLate y' = []" using r(4-6) assms(2,3) by (simp_all add: inFlight_def)
  note d = drained [OF inv'(1) idle, unfolded r(3), OF r(7,8)]
  show ?thesis using r(1,3,7) inv'(2) d r(2) [unfolded moves_def] by (auto simp: Sampler_Stats_def)
qed

theorem Run_drains_witness:
  "\<exists>y errs s' w' y'. syAccepted y = {#exampleSpan 1 2 0 5 9#} \<and> stBuffered (smStats (sySampler y)) = 1
    \<and> Run \<lparr>eNow = \<lambda>w :: unit. (100, w), eWrite = \<lambda>spans w. (None :: unit option, w)\<rparr> 3 (sySampler y) () = Some (errs, s', w')
    \<and> stBuffered (Sampler_Stats s') = 0 \<and> syAccepted (y :: System) = syKept (y' :: System) + syLateKept y' + syLost y' + syDropped y'"
proof -
  obtain y p where y: "sys_reach exampleConfig y" "syAccepted y = {#exampleSpan 1 2 0 5 9#}" "inFlight y = []" "syLate y = []"
    "stBuffered (smStats (sySampler y)) = 1"
    using exampleSystem by blast
  let ?E = "\<lparr>eNow = \<lambda>w :: unit. (100, w), eWrite = \<lambda>spans w. (None :: unit option, w)\<rparr>"
  obtain errs s' w' and y' :: System where "Run ?E 3 (sySampler y) () = Some (errs, s', w')" "stBuffered (Sampler_Stats s') = 0"
    "syAccepted y = syKept y' + syLateKept y' + syLost y' + syDropped y'"
    using Run_drains [OF y(1,3,4) exampleConfig_policies, of ?E 3 "()"] by blast
  with y(2,5) show ?thesis by blast
qed

text \<open>C33: a sweep returns and judges exactly the traces that are due: those without a span within
  the quiet period and those that reached their maximum age. Each gets one ruling, the oldest
  trace first: the verdict of the policies on its tree, or a refusal by the rate limit where the
  verdict was to keep. The writer is given the spans of each trace to keep, in that order, then
  the late spans of each trace, and nothing else; every counter moves by what was ruled and by
  what the writer answered, every failed write is reported. Afterwards the due traces are gone
  from the buffer, every other trace is as it was, no judged trace is left under judgement and
  no late span is held.\<close>

theorem Sweep_judges_due:
  assumes "sys_reach cfg y" "\<forall>q \<in> set (cPolicies cfg). policy q"
  shows "\<exists>errs s' w' rs answers. Sweep E (sySampler y) w = Some (errs, s', w')
    \<and> (\<forall>tid. fmlookup (smPending s') tid = (case fmlookup (smPending (sySampler y)) tid of
          None \<Rightarrow> None
        | Some p \<Rightarrow> if cQuiet cfg \<le> time_Sub (fst (eNow E w)) (pLast p) \<or> cMaxAge cfg \<le> time_Sub (fst (eNow E w)) (pFirst p) then None else Some p))
    \<and> fst ` set rs = {p. \<exists>tid. fmlookup (smPending (sySampler y)) tid = Some p
          \<and> (cQuiet cfg \<le> time_Sub (fst (eNow E w)) (pLast p) \<or> cMaxAge cfg \<le> time_Sub (fst (eNow E w)) (pFirst p))}
    \<and> distinct (map (pID \<circ> fst) rs) \<and> sorted_wrt (\<lambda>a b. byFirst a b \<le> 0) (map fst rs)
    \<and> (\<forall>r \<in> set rs. ruledBy cfg r)
    \<and> length answers = length (lateOrder (sySampler y)) \<and> env_calls E w (writesOf rs @ lateCalls (sySampler y) answers) w'
    \<and> errs = errorsOf rs @ lateErrors (lateOrder (sySampler y)) answers
    \<and> tallied rs (smStats (sySampler y)) (smStats s')
    \<and> stLost (smStats s') = stLost (smStats (sySampler y)) + lostIn (writesOf rs @ lateCalls (sySampler y) answers)
    \<and> smJudging s' = smJudging (sySampler y) \<and> smLate s' = fmempty"
proof -
  let ?s = "sySampler y" and ?now = "fst (eNow E w)"
  have inv: "sys_inv y" and cfg: "smConfig ?s = cfg"
    using sys_reach_inv [OF assms(1)] sys_reach_config [OF assms(1)] by blast+
  then have ok: "places_ok ?s" by (simp add: sys_inv_def sampler_inv_def holds_ok_def)
  obtain errs s' w' where sw: "Sweep E ?s w = Some (errs, s', w')"
    using Sweep_runs [OF inv, where E = E and w = w] assms(2) cfg by blast
  obtain rs answers where r: "map fst rs = sortFunc byFirst (dueTraces ?now ?s)" "\<forall>r \<in> set rs. ruledBy cfg r"
    "length answers = length (lateOrder ?s)" "env_calls E w (writesOf rs @ lateCalls ?s answers) w'"
    "errs = errorsOf rs @ lateErrors (lateOrder ?s) answers" "tallied rs (smStats ?s) (smStats s')"
    "stLost (smStats s') = stLost (smStats ?s) + lostIn (writesOf rs @ lateCalls ?s answers)"
    "smLate s' = fmempty" "smJudging s' = smJudging ?s"
    "\<forall>tid. fmlookup (smPending s') tid = (if dueIn cfg ?now ?s tid \<noteq> None then None else fmlookup (smPending ?s) tid)"
    using Sweep_rulings [OF ok _ sw, where now = ?now and ?w0.0 = "snd (eNow E w)"] unfolding cfg by auto
  have "fst ` set rs = {p. \<exists>tid. fmlookup (smPending ?s) tid = Some p \<and> isDue cfg ?now p}"
    using arg_cong [OF r(1), of set] set_dueTraces [where now = ?now and s = ?s] cfg by simp
  moreover have "distinct (map (pID \<circ> fst) rs)"
    using distinct_rulings [OF ok r(1)] .
  moreover have "sorted_wrt (\<lambda>a b. byFirst a b \<le> 0) (map fst rs)"
    unfolding r(1) by (rule byFirst.sorted_sortFunc)
  moreover have "fmlookup (smPending s') tid = (case fmlookup (smPending ?s) tid of None \<Rightarrow> None | Some p \<Rightarrow> if isDue cfg ?now p then None else Some p)" for tid
    using r(10) by (simp add: dueIn_def split: option.split)
  ultimately show ?thesis
    using sw r(2-9) unfolding isDue_def by blast
qed

theorem Sweep_judges_due_witness:
  "\<exists>y p v err errs s' w'. sys_reach exampleConfig y \<and> fmlookup (smPending (sySampler y)) (exampleID 16 1) = Some p
    \<and> Sweep \<lparr>eNow = \<lambda>w :: unit. (200, w), eWrite = \<lambda>spans w. (None :: unit option, w)\<rparr> (sySampler y) () = Some (errs, s', w')
    \<and> ruledBy exampleConfig (p, v, err :: unit option) \<and> fmlookup (smPending s') (exampleID 16 1) = None"
proof -
  let ?E = "\<lparr>eNow = \<lambda>w :: unit. (200, w), eWrite = \<lambda>spans w. (None :: unit option, w)\<rparr>"
  obtain y p where y: "sys_reach exampleConfig y" "fmlookup (smPending (sySampler y)) (exampleID 16 1) = Some p" "pLast p = 100"
    using exampleSystem by blast
  obtain errs s' w' and rs :: "unit ruling list" and answers where sw: "Sweep ?E (sySampler y) () = Some (errs, s', w')"
    "\<forall>tid. fmlookup (smPending s') tid = (case fmlookup (smPending (sySampler y)) tid of None \<Rightarrow> None
      | Some p \<Rightarrow> if cQuiet exampleConfig \<le> time_Sub (fst (eNow ?E ())) (pLast p) \<or> cMaxAge exampleConfig \<le> time_Sub (fst (eNow ?E ())) (pFirst p) then None else Some p)"
    "fst ` set rs = {p. \<exists>tid. fmlookup (smPending (sySampler y)) tid = Some p
      \<and> (cQuiet exampleConfig \<le> time_Sub (fst (eNow ?E ())) (pLast p) \<or> cMaxAge exampleConfig \<le> time_Sub (fst (eNow ?E ())) (pFirst p))}"
    "\<forall>r \<in> set rs. ruledBy exampleConfig r"
    using Sweep_judges_due [OF y(1) exampleConfig_policies, of ?E "()"] by blast
  have due: "cQuiet exampleConfig \<le> time_Sub (fst (eNow ?E ())) (pLast p)"
    using y(3) by (simp add: exampleConfig_def time_Sub_def minDuration_def maxDuration_def)
  then have "p \<in> fst ` set rs" using sw(3) y(2) by blast
  then obtain v err where "(p, v, err) \<in> set rs" by auto
  moreover have "fmlookup (smPending s') (exampleID 16 1) = None" using sw(2) due y(2) by simp
  ultimately show ?thesis using y(1,2) sw(1,4) by blast
qed

text \<open>C35: \<open>Accept\<close> takes a batch whole or refuses it whole. A batch larger than the buffer is refused
  without a trace; one that does not fit now changes nothing but the count of refused spans; any
  other is taken, and what is held grows by all of its spans but those of traces already dropped.\<close>

theorem Accept_all_or_nothing:
  assumes "eNow E w = (now, w0)" "Accept E spans s w = (err, s', w')"
  shows "if cMaxSpans (smConfig s) < int (length spans)
      then err = Some (ErrBatchTooLarge (int (length spans)) (cMaxSpans (smConfig s))) \<and> s' = s \<and> w' = w
      else if cMaxSpans (smConfig s) < stBuffered (smStats s) + int (length spans) - int (size (lateDropped s now spans))
      then err = Some (ErrSinkFull (stBuffered (smStats s)) (cMaxSpans (smConfig s)))
        \<and> s' = s\<lparr>smStats := (smStats s)\<lparr>stRefused := stRefused (smStats s) + int (length spans)\<rparr>\<rparr>
      else err = None \<and> heldBag s' + lateDropped s now spans = heldBag s + mset spans
        \<and> stBuffered (smStats s') = stBuffered (smStats s) + int (length spans) - int (size (lateDropped s now spans))"
proof (cases "cMaxSpans (smConfig s) < int (length spans)")
  case False
  obtain e s1 where a: "acceptLocked now spans s = (e, s1)" by fastforce
  then have eq: "err = e" "s' = s1" using assms False by (auto simp: Accept_def)
  have full: "e = None \<longleftrightarrow> \<not> cMaxSpans (smConfig s) < stBuffered (smStats s) + int (length spans) - int (size (lateDropped s now spans))"
    using a by (auto simp: acceptLocked_def countHeld_lateDropped Let_def split: if_splits)
  show ?thesis
  proof (cases e)
    case None
    with acceptLocked_accepted(1,3) [OF a [unfolded None]] eq full False show ?thesis by auto
  next
    case (Some e')
    with acceptLocked_refused(1,2) [OF a [unfolded Some]] eq full False show ?thesis by auto
  qed
qed (use assms in \<open>auto simp: Accept_def\<close>)

theorem Accept_all_or_nothing_witness:
  "fst (Accept \<lparr>eNow = \<lambda>w :: unit. (100, w), eWrite = \<lambda>spans w. (None :: unit option, w)\<rparr> (replicate 11 (exampleSpan 1 2 0 5 9)) exampleSampler ())
    = Some (ErrBatchTooLarge 11 10)"
proof -
  let ?E = "\<lparr>eNow = \<lambda>w :: unit. (100, w), eWrite = \<lambda>spans w. (None :: unit option, w)\<rparr>"
  obtain err s' w' where a: "Accept ?E (replicate 11 (exampleSpan 1 2 0 5 9)) exampleSampler () = (err, s', w')" by (metis surj_pair)
  from Accept_all_or_nothing [OF _ this, of 100 "()"] a show ?thesis by (simp add: exampleSampler_def exampleConfig_def)
qed

text \<open>C34: a span that arrives after its trace was judged follows the verdict for as long as it is
  remembered: it joins the late spans to write if the trace was kept, is dropped if not, and
  never opens the trace again.\<close>

theorem late_span_follows_verdict:
  assumes "sampler_inv s" "0 < cRemember (smConfig s)" "settle now tid keep s = Some s'" "\<lparr>rID = tid, rAt = now\<rparr> \<notin> set (smOrder s)"
    and "sTraceID sp = tid" "time_Sub now' now < cRemember (smConfig s)"
  shows "verdict s' tid now' = (keep, True) \<and> smPending (acceptSpan now' s' sp) = smPending s'
    \<and> getSlice (smLate (acceptSpan now' s' sp)) tid = getSlice (smLate s') tid @ (if keep then [sp] else [])"
proof -
  have d: "fmlookup (smDecided s') tid = Some \<lparr>dKeep = keep, dAt = now\<rparr>" by (rule settle_remembers [OF assms(1-4)])
  have "smConfig s' = smConfig s" "smJudging s' = fmdrop tid (smJudging s)"
    using settle_effect [OF assms(1), of now tid keep] assms(3) by auto
  then have v: "verdict s' tid now' = (keep, True)" "fmlookup (smJudging s') tid = None"
    using d assms(6) by (simp_all add: verdict_def)
  then show ?thesis using assms(5) by (simp add: acceptSpan_def Let_def)
qed

theorem late_span_follows_verdict_witness:
  "\<exists>s'. settle 100 (exampleID 16 1) True exampleSampler = Some s' \<and> verdict s' (exampleID 16 1) 150 = (True, True)
    \<and> getSlice (smLate (acceptSpan 150 s' (exampleSpan 1 2 0 5 9))) (exampleID 16 1) = getSlice (smLate s') (exampleID 16 1) @ [exampleSpan 1 2 0 5 9]"
proof -
  have inv: "sampler_inv exampleSampler" by (rule New_inv [OF exampleSampler_new])
  obtain s' where s': "settle 100 (exampleID 16 1) True exampleSampler = Some s'" using settle_effect [OF inv] by blast
  have "0 < cRemember (smConfig exampleSampler)" "\<lparr>rID = exampleID 16 1, rAt = 100\<rparr> \<notin> set (smOrder exampleSampler)"
    "sTraceID (exampleSpan 1 2 0 5 9) = exampleID 16 1" "time_Sub 150 100 < cRemember (smConfig exampleSampler)"
    by (simp_all add: exampleSampler_def exampleConfig_def exampleSpan_def go_time)
  from late_span_follows_verdict [OF inv this(1) s' this(2-4)] s' show ?thesis by auto
qed

text \<open>Rate limiting, to the token: of any number of requests a new service makes at one instant,
  exactly the first \<open>ServiceBurst\<close> are allowed.\<close>

lemma allow_exactly_burst:
  assumes "fmlookup (smBuckets s) service = None" "0 \<le> cServiceBurst (smConfig s)" "cServiceBurst (smConfig s) \<le> 2 ^ 53"
  shows "fst (allowMany now service n s) = replicate (min (nat (cServiceBurst (smConfig s))) n) True @ replicate (n - nat (cServiceBurst (smConfig s))) False"
proof -
  let ?k = "nat (cServiceBurst (smConfig s))"
  let ?s = "s\<lparr>smBuckets := fmupd service \<lparr>bTokens = FFin (of_nat ?k), bAt = now\<rparr> (smBuckets s)\<rparr>"
  have "f_of_int (cServiceBurst (smConfig s)) = FFin (of_nat ?k)" using f_of_int_exact [of "cServiceBurst (smConfig s)"] assms(2,3) by simp
  then have same: "allowLocked now service s = allowLocked now service ?s" using assms(1) by (simp add: allowLocked_def refill_def Let_def)
  have "fst (allowMany now service n s) = fst (allowMany now service n ?s)" by (cases n) (simp_all add: same)
  moreover have "?k \<le> 2 ^ 53" using assms(2,3) by (simp add: nat_le_iff)
  ultimately show ?thesis using allowMany_tokens [of ?s service ?k now n] by simp
qed

end
