(* ===== verification/Otlp.thy ===== *)
theory Otlp
  imports Trace_Span
begin

section \<open>Translating OpenTelemetry payloads: internal/otlp/translate.go\<close>

text \<open>
  The protobuf messages are generated code outside the repository. They are values of an
  abstract type \<open>'m\<close>, and what the source reads of them is the record \<open>Proto\<close>: one accessor per
  generated getter (the getters of a nil message return zero values, so they are total), the
  constants of the two enumerations, the cases of the attribute value as the type switch
  distinguishes them, and \<open>protojson.Marshal\<close>.
\<close>

subsection \<open>Model\<close>

datatype AnyValue =
    AnyValue_StringValue string
  | AnyValue_BoolValue bool
  | AnyValue_IntValue int
  | AnyValue_DoubleValue uint64
  | AnyValue_BytesValue "byte list"
  | AnyValue_ArrayValue
  | AnyValue_KvlistValue
  | AnyValue_Unset

record ('m, 'n) Proto =
  GetResource :: "'m \<Rightarrow> 'm"
  GetResourceAttributes :: "'m \<Rightarrow> 'm list"
  GetScopeSpans :: "'m \<Rightarrow> 'm list"
  GetSpans :: "'m \<Rightarrow> 'm list"
  GetTraceId :: "'m \<Rightarrow> byte list"
  GetSpanId :: "'m \<Rightarrow> byte list"
  GetParentSpanId :: "'m \<Rightarrow> byte list"
  GetName :: "'m \<Rightarrow> string"
  GetKind :: "'m \<Rightarrow> 'n"
  GetStartTimeUnixNano :: "'m \<Rightarrow> uint64"
  GetEndTimeUnixNano :: "'m \<Rightarrow> uint64"
  GetStatus :: "'m \<Rightarrow> 'm"
  GetCode :: "'m \<Rightarrow> 'n"
  GetMessage :: "'m \<Rightarrow> string"
  GetAttributes :: "'m \<Rightarrow> 'm list"
  GetKey :: "'m \<Rightarrow> string"
  GetKeyValue :: "'m \<Rightarrow> 'm"
  GetAnyValue :: "'m \<Rightarrow> AnyValue"
  protojson_Marshal :: "'m \<Rightarrow> string option"
  SPAN_KIND_INTERNAL :: 'n
  SPAN_KIND_SERVER :: 'n
  SPAN_KIND_CLIENT :: 'n
  SPAN_KIND_PRODUCER :: 'n
  SPAN_KIND_CONSUMER :: 'n
  STATUS_CODE_OK :: 'n
  STATUS_CODE_ERROR :: 'n

definition unknownService :: string where "unknownService = ''unknown_service''"
definition serviceNameKey :: string where "serviceNameKey = ''service.name''"

datatype TranslateError = ErrBadIDLength string nat nat | Invalid SpanError

record Rejection =
  rjIndex :: nat
  rjErr :: TranslateError

definition copyID :: "byte list \<Rightarrow> byte list \<Rightarrow> string \<Rightarrow> TranslateError + byte list" where
  "copyID dst src what = (if length src \<noteq> length dst then Inl (ErrBadIDLength what (length src) (length dst)) else Inr src)"

definition unixNano :: "uint64 \<Rightarrow> Time" where
  "unixNano n = (if n = 0 then zeroTime else sint n)"

fun serviceName :: "KeyValue list \<Rightarrow> string" where
  "serviceName [] = unknownService"
| "serviceName (kv # resource) =
     (if kvKey kv \<noteq> serviceNameKey then serviceName resource
      else let (s, ok) = AsString (kvValue kv) in if ok \<and> s \<noteq> [] then s else serviceName resource)"

definition value_of :: "('m, 'n) Proto \<Rightarrow> 'm \<Rightarrow> Value" where
  "value_of P v =
     (case GetAnyValue P v of
        AnyValue_StringValue x \<Rightarrow> StringValue x
      | AnyValue_BoolValue x \<Rightarrow> BoolValue x
      | AnyValue_IntValue x \<Rightarrow> IntValue x
      | AnyValue_DoubleValue x \<Rightarrow> FloatValue x
      | AnyValue_BytesValue x \<Rightarrow> StringValue (hex_EncodeToString x)
      | AnyValue_ArrayValue \<Rightarrow> (case protojson_Marshal P v of None \<Rightarrow> zeroValue | Some b \<Rightarrow> StringValue b)
      | AnyValue_KvlistValue \<Rightarrow> (case protojson_Marshal P v of None \<Rightarrow> zeroValue | Some b \<Rightarrow> StringValue b)
      | AnyValue_Unset \<Rightarrow> zeroValue)"

definition keyValues :: "('m, 'n) Proto \<Rightarrow> 'm list \<Rightarrow> KeyValue list" where
  "keyValues P kvs = map (\<lambda>kv. \<lparr>kvKey = GetKey P kv, kvValue = value_of P (GetKeyValue P kv)\<rparr>) kvs"

definition spanKind :: "('m, 'n) Proto \<Rightarrow> 'n \<Rightarrow> SpanKind" where
  "spanKind P k =
     (if k = SPAN_KIND_INTERNAL P then SpanInternal
      else if k = SPAN_KIND_SERVER P then SpanServer
      else if k = SPAN_KIND_CLIENT P then SpanClient
      else if k = SPAN_KIND_PRODUCER P then SpanProducer
      else if k = SPAN_KIND_CONSUMER P then SpanConsumer
      else SpanUnspecified)"

definition statusCode :: "('m, 'n) Proto \<Rightarrow> 'n \<Rightarrow> StatusCode" where
  "statusCode P c = (if c = STATUS_CODE_OK P then StatusOK else if c = STATUS_CODE_ERROR P then StatusError else StatusUnset)"

definition translateSpan :: "('m, 'n) Proto \<Rightarrow> 'm \<Rightarrow> string \<Rightarrow> KeyValue list \<Rightarrow> TranslateError + Span" where
  "translateSpan P ps service resource =
     (case copyID zeroTraceID (GetTraceId P ps) ''trace'' of
        Inl err \<Rightarrow> Inl err
      | Inr tid \<Rightarrow>
          (case copyID zeroSpanID (GetSpanId P ps) ''span'' of
             Inl err \<Rightarrow> Inl err
           | Inr sid \<Rightarrow>
               (case (if 0 < length (GetParentSpanId P ps) then copyID zeroSpanID (GetParentSpanId P ps) ''parent span'' else Inr zeroSpanID) of
                  Inl err \<Rightarrow> Inl err
                | Inr parent \<Rightarrow>
                    Inr \<lparr>sTraceID = tid, sSpanID = sid, sParentSpanID = parent, sName = GetName P ps, sKind = spanKind P (GetKind P ps),
                      sService = service, sStart = unixNano (GetStartTimeUnixNano P ps), sEnd = unixNano (GetEndTimeUnixNano P ps),
                      sStatus = \<lparr>stCode = statusCode P (GetCode P (GetStatus P ps)), stMessage = GetMessage P (GetStatus P ps)\<rparr>,
                      sAttributes = keyValues P (GetAttributes P ps), sResource = resource\<rparr>)))"

text \<open>The state of the three nested loops: the spans, the rejections and the index.\<close>

type_synonym translation = "Span list \<times> Rejection list \<times> nat"

definition translateOne :: "('m, 'n) Proto \<Rightarrow> string \<Rightarrow> KeyValue list \<Rightarrow> translation \<Rightarrow> 'm \<Rightarrow> translation" where
  "translateOne P service resource st ps =
     (let (spans, rejections, index) = st
      in case translateSpan P ps service resource of
           Inl err \<Rightarrow> (spans, rejections @ [\<lparr>rjIndex = index, rjErr = err\<rparr>], index + 1)
         | Inr span \<Rightarrow>
             (case Validate span of
                Some err \<Rightarrow> (spans, rejections @ [\<lparr>rjIndex = index, rjErr = Invalid err\<rparr>], index + 1)
              | None \<Rightarrow> (spans @ [span], rejections, index + 1)))"

definition translateScope :: "('m, 'n) Proto \<Rightarrow> string \<Rightarrow> KeyValue list \<Rightarrow> translation \<Rightarrow> 'm \<Rightarrow> translation" where
  "translateScope P service resource st ss = foldl (translateOne P service resource) st (GetSpans P ss)"

definition translateResource :: "('m, 'n) Proto \<Rightarrow> translation \<Rightarrow> 'm \<Rightarrow> translation" where
  "translateResource P st rs =
     (let resource = keyValues P (GetResourceAttributes P (GetResource P rs)); service = serviceName resource
      in foldl (translateScope P service resource) st (GetScopeSpans P rs))"

definition Translate :: "('m, 'n) Proto \<Rightarrow> 'm list \<Rightarrow> Span list \<times> Rejection list" where
  "Translate P resourceSpans =
     (let (spans, rejections, index) = foldl (translateResource P) ([], [], 0) resourceSpans in (spans, rejections))"

subsection \<open>The request as a list of spans\<close>

text \<open>What becomes of every span of a request, in the order of the request.\<close>

definition outcome :: "('m, 'n) Proto \<Rightarrow> KeyValue list \<Rightarrow> 'm \<Rightarrow> TranslateError + Span" where
  "outcome P resource ps =
     (case translateSpan P ps (serviceName resource) resource of
        Inl err \<Rightarrow> Inl err
      | Inr span \<Rightarrow> (case Validate span of Some err \<Rightarrow> Inl (Invalid err) | None \<Rightarrow> Inr span))"

definition outcomes :: "('m, 'n) Proto \<Rightarrow> 'm list \<Rightarrow> (TranslateError + Span) list" where
  "outcomes P resourceSpans =
     concat (map (\<lambda>rs. map (outcome P (keyValues P (GetResourceAttributes P (GetResource P rs))))
       (concat (map (GetSpans P) (GetScopeSpans P rs)))) resourceSpans)"

definition accepted :: "(TranslateError + Span) list \<Rightarrow> Span list" where
  "accepted rs = concat (map (\<lambda>r. case r of Inl _ \<Rightarrow> [] | Inr span \<Rightarrow> [span]) rs)"

definition rejected :: "nat \<Rightarrow> (TranslateError + Span) list \<Rightarrow> Rejection list" where
  "rejected n rs = concat (map (\<lambda>(i, r). case r of Inl err \<Rightarrow> [\<lparr>rjIndex = i, rjErr = err\<rparr>] | Inr _ \<Rightarrow> []) (enumerate n rs))"

definition extend :: "translation \<Rightarrow> (TranslateError + Span) list \<Rightarrow> translation" where
  "extend st rs = (let (spans, rejections, index) = st in (spans @ accepted rs, rejections @ rejected index rs, index + length rs))"

lemma extend_Nil [simp]: "extend st [] = st"
  by (cases st) (simp add: extend_def accepted_def rejected_def)

lemma extend_append: "extend (extend st rs) qs = extend st (rs @ qs)"
  by (cases st) (simp add: extend_def accepted_def rejected_def enumerate_append_eq ac_simps)

lemma translateOne_extend: "translateOne P (serviceName resource) resource st ps = extend st [outcome P resource ps]"
  by (cases st) (auto simp: translateOne_def extend_def outcome_def accepted_def rejected_def split: sum.splits option.splits)

lemma foldl_extend:
  assumes "\<And>st x. f st x = extend st (g x)"
  shows "foldl f st xs = extend st (concat (map g xs))"
  by (induction xs arbitrary: st) (simp_all add: assms extend_append)

lemma Translate_outcomes: "Translate P resourceSpans = (accepted (outcomes P resourceSpans), rejected 0 (outcomes P resourceSpans))"
proof -
  have scope: "translateScope P (serviceName resource) resource st ss = extend st (map (outcome P resource) (GetSpans P ss))" for resource st ss
    unfolding translateScope_def by (subst foldl_extend [of _ "\<lambda>ps. [outcome P resource ps]"]) (simp_all add: translateOne_extend concat_map_singleton)
  have res: "translateResource P st rs = extend st (map (outcome P (keyValues P (GetResourceAttributes P (GetResource P rs))))
      (concat (map (GetSpans P) (GetScopeSpans P rs))))" for st rs
    unfolding translateResource_def Let_def by (subst foldl_extend [OF scope]) (simp add: map_concat comp_def)
  have "foldl (translateResource P) ([], [], 0) resourceSpans = extend ([], [], 0) (outcomes P resourceSpans)"
    unfolding outcomes_def by (rule foldl_extend [OF res])
  then show ?thesis by (simp add: Translate_def extend_def)
qed

lemma length_outcomes: "length (accepted rs) + length (rejected n rs) = length rs"
  by (induction rs arbitrary: n) (auto simp: accepted_def rejected_def split: sum.splits)

lemma set_accepted: "s \<in> set (accepted rs) \<longleftrightarrow> Inr s \<in> set rs"
  by (induction rs) (auto simp: accepted_def split: sum.splits)

lemma set_rejected: "\<lparr>rjIndex = i, rjErr = err\<rparr> \<in> set (rejected 0 rs) \<longleftrightarrow> i < length rs \<and> rs ! i = Inl err"
proof -
  have "\<lparr>rjIndex = i, rjErr = err\<rparr> \<in> set (rejected 0 rs) \<longleftrightarrow> (i, Inl err) \<in> set (enumerate 0 rs)"
    by (auto simp: rejected_def split: sum.splits)
  also have "\<dots> \<longleftrightarrow> i < length rs \<and> rs ! i = Inl err" by (auto simp: in_set_enumerate_eq)
  finally show ?thesis .
qed

subsection \<open>Translated spans are well formed\<close>

lemma wf_value_of: "wf_Value (value_of P v)"
  by (simp add: value_of_def split: AnyValue.splits option.splits)

lemma keyValues_wf: "kv \<in> set (keyValues P kvs) \<Longrightarrow> wf_Value (kvValue kv)"
  by (auto simp: keyValues_def wf_value_of)

lemma copyID_Inr: "copyID dst src what = Inr b \<longleftrightarrow> b = src \<and> length src = length dst"
  by (auto simp: copyID_def)

lemma translateSpan_wf:
  assumes "translateSpan P ps service resource = Inr span" "\<forall>kv \<in> set resource. wf_Value (kvValue kv)"
  shows "wf_Span span"
proof -
  have "length (sTraceID span) = 16 \<and> length (sSpanID span) = 8 \<and> length (sParentSpanID span) = 8
      \<and> sAttributes span = keyValues P (GetAttributes P ps) \<and> sResource span = resource"
    using assms(1) by (auto simp: translateSpan_def copyID_Inr split: sum.splits if_splits)
  then show ?thesis using assms(2) keyValues_wf [of _ P "GetAttributes P ps"] by (auto simp: wf_Span_def)
qed

lemma outcomes_valid: "Inr span \<in> set (outcomes P resourceSpans) \<Longrightarrow> wf_Span span \<and> Validate span = None"
proof -
  assume "Inr span \<in> set (outcomes P resourceSpans)"
  then obtain rs ps where "outcome P (keyValues P (GetResourceAttributes P (GetResource P rs))) ps = Inr span"
    by (auto simp: outcomes_def)
  then show ?thesis
    using translateSpan_wf [of P ps _ "keyValues P (GetResourceAttributes P (GetResource P rs))" span] keyValues_wf [of _ P]
    by (auto simp: outcome_def split: sum.splits option.splits)
qed

lemma outcomes_int64:
  assumes "Inr span \<in> set (outcomes P resourceSpans)"
  shows "in_int64 (sStart span) \<and> in_int64 (sEnd span)"
proof -
  obtain rs ps where o: "outcome P (keyValues P (GetResourceAttributes P (GetResource P rs))) ps = Inr span"
    using assms by (auto simp: outcomes_def)
  then obtain m n where t: "sStart span = unixNano m" "sEnd span = unixNano n"
    by (auto simp: outcome_def translateSpan_def split: sum.splits option.splits if_splits)
  have "\<not> time_IsZero (sStart span)" "\<not> time_IsZero (sEnd span)"
    using outcomes_valid [OF assms] by (auto simp: Validate_def split: if_splits)
  moreover have "in_int64 (sint k)" for k :: uint64
    using sint_range_size [of k] by (simp add: in_int64_def word_size)
  ultimately show ?thesis by (auto simp: t unixNano_def time_IsZero_def split: if_splits)
qed

text \<open>Timestamps from \<open>2 ^ 63\<close> nanoseconds on wrap: they become instants before 1970, not missing ones.\<close>

lemma unixNano_wraps: "2 ^ 63 \<le> n \<Longrightarrow> unixNano n < 0 \<and> \<not> time_IsZero (unixNano n)"
proof -
  assume "2 ^ 63 \<le> n"
  then have n: "2 ^ 63 \<le> uint n" by (simp add: word_le_def)
  have lt: "uint n < 2 ^ 64" using uint_lt2p [of n] by simp
  have "sint n = uint n - 2 ^ 64"
  proof -
    have "sint n = signed_take_bit 63 (uint n)" by (simp add: sint_uint)
    also have "\<dots> = (uint n + 2 ^ 63) mod 2 ^ 64 - 2 ^ 63" by (simp add: signed_take_bit_eq_take_bit_shift take_bit_eq_mod)
    also have "(uint n + 2 ^ 63) mod 2 ^ 64 = (uint n - 2 ^ 63) mod 2 ^ 64"
      using mod_add_self2 [of "uint n - 2 ^ 63" "2 ^ 64 :: int"] by (simp add: ac_simps)
    also have "\<dots> = uint n - 2 ^ 63" using n lt by (intro mod_pos_pos_trivial) simp_all
    finally show ?thesis by simp
  qed
  moreover have "n \<noteq> 0" using n by auto
  ultimately show ?thesis using n lt by (simp add: unixNano_def time_IsZero_def zeroTime_def)
qed

subsection \<open>A request for the examples\<close>

text \<open>One resource with one scope of two spans: message 1 is a valid span, message 2 lacks its trace
  identifier.\<close>

definition exampleProto :: "(nat, nat) Proto" where
  "exampleProto = \<lparr>GetResource = \<lambda>m. m, GetResourceAttributes = \<lambda>m. [], GetScopeSpans = \<lambda>m. [0], GetSpans = \<lambda>m. [1, 2],
     GetTraceId = \<lambda>m. if m = 1 then exampleID 16 1 else [], GetSpanId = \<lambda>m. exampleID 8 2, GetParentSpanId = \<lambda>m. [], GetName = \<lambda>m. ''op'',
     GetKind = \<lambda>m. 2, GetStartTimeUnixNano = \<lambda>m. 5, GetEndTimeUnixNano = \<lambda>m. 9, GetStatus = \<lambda>m. m, GetCode = \<lambda>m. 2, GetMessage = \<lambda>m. [],
     GetAttributes = \<lambda>m. [], GetKey = \<lambda>m. [], GetKeyValue = \<lambda>m. m, GetAnyValue = \<lambda>m. AnyValue_Unset, protojson_Marshal = \<lambda>m. None,
     SPAN_KIND_INTERNAL = 1, SPAN_KIND_SERVER = 2, SPAN_KIND_CLIENT = 3, SPAN_KIND_PRODUCER = 4, SPAN_KIND_CONSUMER = 5,
     STATUS_CODE_OK = 1, STATUS_CODE_ERROR = 2\<rparr>"

lemma exampleProto_outcomes:
  "\<exists>span. outcomes exampleProto [0] = [Inr span, Inl (ErrBadIDLength ''trace'' 0 16)] \<and> Failed span
    \<and> sName span = ''op'' \<and> sService span = unknownService \<and> stMessage (sStatus span) = [] \<and> sAttributes span = [] \<and> sResource span = []"
proof -
  have ne: "exampleID 8 2 \<noteq> zeroSpanID"
    unfolding exampleID_def using replicate_Suc [of 7 "0 :: byte"] by simp
  have "length (exampleID 16 1) = 16" "length (exampleID 8 2) = 8" "ID_IsValid (exampleID 16 1)" "ID_IsValid (exampleID 8 2)"
    by (simp_all add: exampleID_def ID_IsValid_def)
  with ne show ?thesis
    by (simp add: outcomes_def outcome_def exampleProto_def translateSpan_def copyID_def keyValues_def unknownService_def
        Validate_def unixNano_def time_IsZero_def zeroTime_def Failed_def statusCode_def StatusOK_def)
qed

subsection \<open>Property\<close>

text \<open>C38: \<open>Translate\<close> accounts for every span of a request, in order. The spans it returns are exactly
  those that translate and validate, well formed and ready for the store; every other span is
  reported once, under its index in the whole request, with the reason.\<close>

theorem Translate_partial_success:
  "case Translate P resourceSpans of (spans, rejections) \<Rightarrow>
     length spans + length rejections = length (outcomes P resourceSpans)
     \<and> spans = accepted (outcomes P resourceSpans)
     \<and> (\<forall>span \<in> set spans. wf_Span span \<and> Validate span = None)
     \<and> (\<forall>i err. \<lparr>rjIndex = i, rjErr = err\<rparr> \<in> set rejections \<longleftrightarrow> i < length (outcomes P resourceSpans) \<and> outcomes P resourceSpans ! i = Inl err)"
  unfolding Translate_outcomes using length_outcomes [of "outcomes P resourceSpans" 0] outcomes_valid [of _ P resourceSpans]
  by (simp add: set_accepted set_rejected)

theorem Translate_partial_success_witness:
  "\<exists>span rejections. Translate exampleProto [0] = ([span], rejections) \<and> wf_Span span \<and> Failed span
    \<and> \<lparr>rjIndex = 1, rjErr = ErrBadIDLength ''trace'' 0 16\<rparr> \<in> set rejections"
proof -
  obtain span where o: "outcomes exampleProto [0] = [Inr span, Inl (ErrBadIDLength ''trace'' 0 16)]" "Failed span"
    using exampleProto_outcomes by blast
  obtain spans rejections where t: "Translate exampleProto [0] = (spans, rejections)" by fastforce
  from Translate_partial_success [of exampleProto "[0]"] t o show ?thesis by (auto simp: accepted_def)
qed

end
