(* ===== verification/Ingest.thy ===== *)
theory Ingest
  imports Otlp Go_Strconv
begin

section \<open>Accepting exports: internal/ingest\<close>

text \<open>
  The transport-neutral \<open>export\<close>, the gRPC service and the HTTP handler over a sink. A sink is its
  \<open>Accept\<close> method with the state it changes, whether an error of it is \<open>ErrSinkFull\<close> and the text
  of its errors. Outside the repository, and so in the record \<open>Wire\<close>: the protobuf codecs, media
  type parsing, quoting and gzip. A request body is the bytes it delivers and the error it ends with, if
  any. Logging is left out.
\<close>

subsection \<open>Sinks\<close>

record ('s, 'e) Sink =
  snkAccept :: "Span list \<Rightarrow> 's \<Rightarrow> 'e option \<times> 's"
  snkFull :: "'e \<Rightarrow> bool"
  snkText :: "'e \<Rightarrow> string"

record Recorder =
  rcSpans :: "Span list"

definition Recorder_Accept :: "Span list \<Rightarrow> Recorder \<Rightarrow> unit option \<times> Recorder" where
  "Recorder_Accept spans r = (None, r\<lparr>rcSpans := rcSpans r @ spans\<rparr>)"

definition Recorder_Spans :: "Recorder \<Rightarrow> Span list" where
  "Recorder_Spans r = rcSpans r"

definition recorderSink :: "(Recorder, unit) Sink" where
  "recorderSink = \<lparr>snkAccept = Recorder_Accept, snkFull = \<lambda>_. False, snkText = \<lambda>_. []\<rparr>"

subsection \<open>export\<close>

record PartialSuccess =
  psRejectedSpans :: int
  psErrorMessage :: string

type_synonym ExportResponse = "PartialSuccess option"

definition maxReportedRejections :: nat where "maxReportedRejections = 3"

fun summariseFrom :: "(TranslateError \<Rightarrow> string) \<Rightarrow> nat \<Rightarrow> nat \<Rightarrow> Rejection list \<Rightarrow> string \<Rightarrow> string" where
  "summariseFrom text n i [] msg = msg"
| "summariseFrom text n i (r # rs) msg =
     (if i = maxReportedRejections then msg @ ''; and '' @ FormatInt (int n - int maxReportedRejections) @ '' more''
      else let msg = (if 0 < i then msg @ ''; '' else msg)
           in summariseFrom text n (i + 1) rs (msg @ ''span '' @ FormatInt (int (rjIndex r)) @ '': '' @ text (rjErr r)))"

definition summariseRejections :: "(TranslateError \<Rightarrow> string) \<Rightarrow> Rejection list \<Rightarrow> string" where
  "summariseRejections text rejections = summariseFrom text (length rejections) 0 rejections []"

record ('m, 'n, 'q) Wire =
  wProto :: "('m, 'n) Proto"
  wText :: "TranslateError \<Rightarrow> string"
  wGetResourceSpans :: "'q \<Rightarrow> 'm list"
  wParseMediaType :: "string \<Rightarrow> string option"
  wProtoUnmarshal :: "byte list \<Rightarrow> string + 'q"
  wJSONUnmarshal :: "byte list \<Rightarrow> string + 'q"
  wProtoMarshal :: "ExportResponse \<Rightarrow> string + byte list"
  wJSONMarshal :: "ExportResponse \<Rightarrow> string + byte list"
  wQuote :: "string \<Rightarrow> string"
  wGunzip :: "byte list \<times> string option \<Rightarrow> string + byte list \<times> string option"

definition export_spans :: "('m, 'n, 'q) Wire \<Rightarrow> ('s, 'e) Sink \<Rightarrow> 'q \<Rightarrow> 's \<Rightarrow> ('e + ExportResponse) \<times> 's" where
  "export_spans W sink req s =
     (let (spans, rejections) = Translate (wProto W) (wGetResourceSpans W req);
          (err, s) = (if 0 < length spans then snkAccept sink spans s else (None, s))
      in case err of
           Some e \<Rightarrow> (Inl e, s)
         | None \<Rightarrow>
             (Inr (if 0 < length rejections
                   then Some \<lparr>psRejectedSpans = int (length rejections), psErrorMessage = summariseRejections (wText W) rejections\<rparr>
                   else None), s))"

subsection \<open>gRPC\<close>

datatype GrpcStatus = Unavailable string | Internal string

definition Export :: "('m, 'n, 'q) Wire \<Rightarrow> ('s, 'e) Sink \<Rightarrow> 'q \<Rightarrow> 's \<Rightarrow> (GrpcStatus + ExportResponse) \<times> 's" where
  "Export W sink req s =
     (case export_spans W sink req s of
        (Inl err, s) \<Rightarrow> (Inl (if snkFull sink err then Unavailable (snkText sink err) else Internal ''could not accept spans''), s)
      | (Inr resp, s) \<Rightarrow> (Inr resp, s))"

subsection \<open>HTTP\<close>

definition TracesPath :: string where "TracesPath = ''/v1/traces''"
definition contentTypeProtobuf :: string where "contentTypeProtobuf = ''application/x-protobuf''"
definition contentTypeJSON :: string where "contentTypeJSON = ''application/json''"
definition maxBodyBytes :: nat where "maxBodyBytes = 16 * 2 ^ 20"
definition retryAfterSeconds :: string where "retryAfterSeconds = ''2''"

record Request =
  rqMethod :: string
  rqContentType :: string
  rqContentEncoding :: string
  rqBody :: "byte list \<times> string option"

record Response =
  rsStatus :: int
  rsHeader :: "(string \<times> string) list"
  rsBody :: "byte list"

datatype BodyError = ErrBodyTooLarge | BadBody string

text \<open>\<open>io.ReadAll(io.LimitReader(r, n))\<close>: an error that would come after the limit is not seen.\<close>

definition readLimited :: "nat \<Rightarrow> byte list \<times> string option \<Rightarrow> string + byte list" where
  "readLimited n r =
     (if n \<le> length (fst r) then Inr (take n (fst r))
      else case snd r of Some err \<Rightarrow> Inl err | None \<Rightarrow> Inr (fst r))"

definition readBody :: "('m, 'n, 'q) Wire \<Rightarrow> Request \<Rightarrow> BodyError + byte list" where
  "readBody W r =
     (let reader =
        (if rqContentEncoding r = [] \<or> rqContentEncoding r = ''identity'' then Inr (rqBody r)
         else if rqContentEncoding r = ''gzip''
         then (case wGunzip W (rqBody r) of Inl err \<Rightarrow> Inl (''body is not valid gzip: '' @ err) | Inr gz \<Rightarrow> Inr gz)
         else Inl (''unsupported Content-Encoding '' @ wQuote W (rqContentEncoding r)))
      in case reader of
           Inl err \<Rightarrow> Inl (BadBody err)
         | Inr rd \<Rightarrow>
             (case readLimited (maxBodyBytes + 1) rd of
                Inl err \<Rightarrow> Inl (BadBody (''reading body: '' @ err))
              | Inr body \<Rightarrow> if maxBodyBytes < length body then Inl ErrBodyTooLarge else Inr body))"

definition unmarshal :: "('m, 'n, 'q) Wire \<Rightarrow> string \<Rightarrow> byte list \<Rightarrow> string + 'q" where
  "unmarshal W mediaType body = (if mediaType = contentTypeJSON then wJSONUnmarshal W body else wProtoUnmarshal W body)"

definition marshal :: "('m, 'n, 'q) Wire \<Rightarrow> string \<Rightarrow> ExportResponse \<Rightarrow> string + byte list" where
  "marshal W mediaType resp = (if mediaType = contentTypeJSON then wJSONMarshal W resp else wProtoMarshal W resp)"

definition http_Error :: "(string \<times> string) list \<Rightarrow> string \<Rightarrow> int \<Rightarrow> Response" where
  "http_Error header msg code =
     \<lparr>rsStatus = code, rsHeader = header @ [(''Content-Type'', ''text/plain; charset=utf-8''), (''X-Content-Type-Options'', ''nosniff'')],
      rsBody = bytes_of_string (msg @ [CHR 0x0A])\<rparr>"

definition bodyStatus :: "BodyError \<Rightarrow> int" where
  "bodyStatus err = (case err of ErrBodyTooLarge \<Rightarrow> 413 | BadBody _ \<Rightarrow> 400)"

definition bodyText :: "BodyError \<Rightarrow> string" where
  "bodyText err = (case err of ErrBodyTooLarge \<Rightarrow> ''request body exceeds '' @ FormatInt (int maxBodyBytes) @ '' bytes'' | BadBody msg \<Rightarrow> msg)"

definition ServeHTTP :: "('m, 'n, 'q) Wire \<Rightarrow> ('s, 'e) Sink \<Rightarrow> Request \<Rightarrow> 's \<Rightarrow> Response \<times> 's" where
  "ServeHTTP W sink r s =
     (if rqMethod r \<noteq> ''POST'' then (http_Error [(''Allow'', ''POST'')] ''export requires POST'' 405, s)
      else case wParseMediaType W (rqContentType r) of
        None \<Rightarrow> (http_Error [] (''Content-Type must be '' @ contentTypeProtobuf @ '' or '' @ contentTypeJSON) 415, s)
      | Some mediaType \<Rightarrow>
          if mediaType \<noteq> contentTypeProtobuf \<and> mediaType \<noteq> contentTypeJSON
          then (http_Error [] (''Content-Type must be '' @ contentTypeProtobuf @ '' or '' @ contentTypeJSON) 415, s)
          else case readBody W r of
            Inl err \<Rightarrow> (http_Error [] (bodyText err) (bodyStatus err), s)
          | Inr body \<Rightarrow>
              (case unmarshal W mediaType body of
                 Inl err \<Rightarrow> (http_Error [] (''could not decode export request: '' @ err) 400, s)
               | Inr req \<Rightarrow>
                   (case export_spans W sink req s of
                      (Inl err, s) \<Rightarrow>
                        if snkFull sink err then (http_Error [(''Retry-After'', retryAfterSeconds)] (snkText sink err) 503, s)
                        else (http_Error [] ''could not accept spans'' 500, s)
                    | (Inr resp, s) \<Rightarrow>
                        (case marshal W mediaType resp of
                           Inl err \<Rightarrow> (http_Error [] ''could not encode response'' 500, s)
                         | Inr out \<Rightarrow> (\<lparr>rsStatus = 200, rsHeader = [(''Content-Type'', mediaType)], rsBody = out\<rparr>, s)))))"

subsection \<open>The contract of a sink\<close>

text \<open>A sink counts what it took: all of an accepted batch, nothing of a refused one.\<close>

locale span_sink =
  fixes sink :: "('s, 'e) Sink" and taken :: "'s \<Rightarrow> int"
  assumes takes: "snkAccept sink spans s = (None, s') \<Longrightarrow> taken s' = taken s + int (length spans)"
    and refuses: "snkAccept sink spans s = (Some e, s') \<Longrightarrow> taken s' = taken s"
begin

lemma export_takes:
  assumes "export_spans W sink req s = (Inr resp, s')"
  shows "taken s' = taken s + int (length (outcomes (wProto W) (wGetResourceSpans W req))) - (case resp of None \<Rightarrow> 0 | Some ps \<Rightarrow> psRejectedSpans ps)"
proof -
  obtain spans rejections where t: "Translate (wProto W) (wGetResourceSpans W req) = (spans, rejections)" by fastforce
  have len: "length spans + length rejections = length (outcomes (wProto W) (wGetResourceSpans W req))"
    using t Translate_outcomes [of "wProto W" "wGetResourceSpans W req"] length_outcomes by auto
  obtain err s1 where a: "(if 0 < length spans then snkAccept sink spans s else (None, s)) = (err, s1)" by fastforce
  have ok: "err = None" "s' = s1" and resp: "resp = (if 0 < length rejections
      then Some \<lparr>psRejectedSpans = int (length rejections), psErrorMessage = summariseRejections (wText W) rejections\<rparr> else None)"
    using assms t a by (auto simp: export_spans_def split: option.splits)
  have "taken s1 = taken s + int (length spans)"
    using a takes [of spans s s1] ok(1) by (auto split: if_splits)
  then show ?thesis using ok(2) resp len by auto
qed

lemma export_refuses: "export_spans W sink req s = (Inl e, s') \<Longrightarrow> taken s' = taken s"
  by (auto simp: export_spans_def Let_def split: prod.splits option.splits if_splits intro: refuses)

end

interpretation recorder: span_sink recorderSink "\<lambda>r. int (length (Recorder_Spans r))"
  by unfold_locales (auto simp: recorderSink_def Recorder_Accept_def Recorder_Spans_def)

subsection \<open>Both transports\<close>

text \<open>The request an HTTP export carries, when it carries one.\<close>

definition decodeRequest :: "('m, 'n, 'q) Wire \<Rightarrow> Request \<Rightarrow> (string \<times> byte list \<times> 'q) option" where
  "decodeRequest W r =
     (if rqMethod r \<noteq> ''POST'' then None
      else case wParseMediaType W (rqContentType r) of
        None \<Rightarrow> None
      | Some mediaType \<Rightarrow>
          if mediaType \<noteq> contentTypeProtobuf \<and> mediaType \<noteq> contentTypeJSON then None
          else case readBody W r of
            Inl _ \<Rightarrow> None
          | Inr body \<Rightarrow> (case unmarshal W mediaType body of Inl _ \<Rightarrow> None | Inr req \<Rightarrow> Some (mediaType, body, req)))"

lemma readBody_bounded: "readBody W r = Inr body \<Longrightarrow> length body \<le> maxBodyBytes"
  by (auto simp: readBody_def Let_def split: sum.splits if_splits)

lemma ServeHTTP_undecoded:
  assumes "decodeRequest W r = None"
  shows "rsStatus (fst (ServeHTTP W sink r s)) \<in> {400, 405, 413, 415} \<and> snd (ServeHTTP W sink r s) = s"
  using assms
  by (auto simp: decodeRequest_def ServeHTTP_def http_Error_def bodyStatus_def split: option.splits sum.splits if_splits BodyError.splits)

lemma ServeHTTP_decoded:
  assumes "decodeRequest W r = Some (mediaType, body, req)"
  shows "ServeHTTP W sink r s =
    (case export_spans W sink req s of
       (Inl err, s) \<Rightarrow>
         if snkFull sink err then (http_Error [(''Retry-After'', retryAfterSeconds)] (snkText sink err) 503, s)
         else (http_Error [] ''could not accept spans'' 500, s)
     | (Inr resp, s) \<Rightarrow>
         (case marshal W mediaType resp of
            Inl err \<Rightarrow> (http_Error [] ''could not encode response'' 500, s)
          | Inr out \<Rightarrow> (\<lparr>rsStatus = 200, rsHeader = [(''Content-Type'', mediaType)], rsBody = out\<rparr>, s)))"
    "length body \<le> maxBodyBytes"
proof -
  have d: "rqMethod r = ''POST''" "wParseMediaType W (rqContentType r) = Some mediaType" "mediaType = contentTypeProtobuf \<or> mediaType = contentTypeJSON"
    "readBody W r = Inr body" "unmarshal W mediaType body = Inr req"
    using assms by (auto simp: decodeRequest_def split: option.splits sum.splits if_splits)
  show "ServeHTTP W sink r s =
    (case export_spans W sink req s of
       (Inl err, s) \<Rightarrow>
         if snkFull sink err then (http_Error [(''Retry-After'', retryAfterSeconds)] (snkText sink err) 503, s)
         else (http_Error [] ''could not accept spans'' 500, s)
     | (Inr resp, s) \<Rightarrow>
         (case marshal W mediaType resp of
            Inl err \<Rightarrow> (http_Error [] ''could not encode response'' 500, s)
          | Inr out \<Rightarrow> (\<lparr>rsStatus = 200, rsHeader = [(''Content-Type'', mediaType)], rsBody = out\<rparr>, s)))"
    unfolding ServeHTTP_def using d by auto
  show "length body \<le> maxBodyBytes" by (rule readBody_bounded [OF d(4)])
qed

subsection \<open>Property\<close>

text \<open>C40: the HTTP endpoint and the gRPC service agree. A request that does not decode, or whose body
  exceeds 16 MiB once decompressed, is refused with a client error and never reaches the sink. For
  any other the sink ends in the same state over both transports, a full sink is reported as
  retryable by both (Unavailable; 503 with Retry-After), and success carries the same response.\<close>

theorem ServeHTTP_agrees_with_Export:
  "case decodeRequest W r of
     None \<Rightarrow> rsStatus (fst (ServeHTTP W sink r s)) \<in> {400, 405, 413, 415} \<and> snd (ServeHTTP W sink r s) = s
   | Some (mediaType, body, req) \<Rightarrow>
       length body \<le> maxBodyBytes \<and> snd (ServeHTTP W sink r s) = snd (Export W sink req s)
       \<and> (case fst (Export W sink req s) of
            Inl (Unavailable msg) \<Rightarrow> rsStatus (fst (ServeHTTP W sink r s)) = 503
              \<and> (''Retry-After'', retryAfterSeconds) \<in> set (rsHeader (fst (ServeHTTP W sink r s)))
          | Inl (Internal msg) \<Rightarrow> rsStatus (fst (ServeHTTP W sink r s)) = 500
          | Inr resp \<Rightarrow> (case marshal W mediaType resp of
                Inl err \<Rightarrow> rsStatus (fst (ServeHTTP W sink r s)) = 500
              | Inr out \<Rightarrow> fst (ServeHTTP W sink r s) = \<lparr>rsStatus = 200, rsHeader = [(''Content-Type'', mediaType)], rsBody = out\<rparr>))"
proof (cases "decodeRequest W r")
  case None
  then show ?thesis using ServeHTTP_undecoded by simp
next
  case (Some d)
  obtain mediaType body req where d: "d = (mediaType, body, req)" by (metis surj_pair)
  note h = ServeHTTP_decoded(1) [OF Some [unfolded d], of sink s] ServeHTTP_decoded(2) [OF Some [unfolded d]]
  obtain out s1 where e: "export_spans W sink req s = (out, s1)" by fastforce
  show ?thesis
  proof (cases out)
    case (Inl err)
    then show ?thesis using Some d h e by (auto simp: Export_def http_Error_def)
  next
    case (Inr resp)
    then show ?thesis using Some d h e by (auto simp: Export_def http_Error_def split: sum.splits)
  qed
qed

end
