(* ===== verification/Sampler_Clean.thy ===== *)
theory Sampler_Clean
  imports Sampler_Run
begin

section \<open>A sampler whose writer does not fail\<close>

text \<open>
  The contract between the sampler and its writer, as the locale \<open>clean_writer\<close>: the writer
  takes every batch of spans that satisfy \<open>ok\<close> from every state that satisfies \<open>good\<close>, and reading
  the clock keeps \<open>good\<close>. Then no operation of a sampler that holds only such spans reports an
  error or counts a span as lost.
\<close>

definition all_ok :: "(Span \<Rightarrow> bool) \<Rightarrow> Sampler \<Rightarrow> bool" where
  "all_ok ok s \<longleftrightarrow> (\<forall>sp \<in># heldBag s. ok sp)"

locale clean_writer =
  fixes E :: "('w, 'e) Env" and ok :: "Span \<Rightarrow> bool" and good :: "'w \<Rightarrow> bool"
  assumes clock: "good w \<Longrightarrow> good (snd (eNow E w))"
    and writes: "good w \<Longrightarrow> \<forall>sp \<in> set spans. ok sp \<Longrightarrow> fst (eWrite E spans w) = None \<and> good (snd (eWrite E spans w))"
begin

text \<open>The sampler's state and the world, before and after an operation that loses nothing.\<close>

definition clean_state :: "Sampler \<Rightarrow> 'w \<Rightarrow> bool" where
  "clean_state s w \<longleftrightarrow> sampler_inv s \<and> all_ok ok s \<and> good w"

lemma good_limitRate:
  assumes "clean_state s w" "limitRate E t v s w = Some (v', s', w')"
  shows "clean_state s' w' \<and> stLost (smStats s') = stLost (smStats s) \<and> smConfig s' = smConfig s"
proof (cases "limited (smConfig s) v")
  case False
  with assms show ?thesis by (auto simp: limitRate_def)
next
  case True
  obtain service where "rootService t = Some service" using assms(2) True by (auto simp: limitRate_def split: option.splits)
  moreover obtain now w1 where now: "eNow E w = (now, w1)" by fastforce
  moreover obtain okk s1 where a: "allowLocked now service s = (okk, s1)" by fastforce
  ultimately have eq: "s' = s1" "w' = w1" using assms(2) True by (auto simp: limitRate_def allow_def)
  have "sampler_inv s \<and> f_lt (FFin 0) (cServiceRate (smConfig s))" using assms(1) True by (simp add: clean_state_def limited_def)
  then obtain b where "sampler_inv s1" "s1 = s\<lparr>smBuckets := b\<rparr>"
    using allowLocked_inv [OF _ _ a] by blast
  moreover from this have "heldBag s1 = heldBag s" "smStats s1 = smStats s" "smConfig s1 = smConfig s"
    by (simp_all add: heldBag_def)
  moreover have "good w1" using clock [of w] now assms(1) by (simp add: clean_state_def)
  ultimately show ?thesis using assms(1) eq by (simp add: clean_state_def all_ok_def)
qed

lemma decide_clean:
  assumes "clean_state s w" "\<forall>sp \<in> set (pSpans p). ok sp" "decide E p s w = Some (err, s', w')"
  shows "err = None \<and> clean_state s' w' \<and> stLost (smStats s') = stLost (smStats s)"
proof -
  obtain t v v1 s1 w1 where l: "judgeTree (smConfig s) p = Some (t, v)" "limitRate E t v s w = Some (v1, s1, w1)"
    using assms(3) by (auto simp: decide_def split: option.splits prod.splits)
  note c1 = good_limitRate [OF assms(1) l(2)]
  obtain e w2 where wr: "(if vKeep v1 then eWrite E (pSpans p) w1 else (None, w1)) = (e, w2)" by fastforce
  have e: "e = None" "good w2" using wr writes [of w1 "pSpans p"] c1 assms(2) by (auto simp: clean_state_def split: if_splits)
  obtain now w3 where now: "settleTime E (smConfig s1) w2 = (now, w3)" by fastforce
  have w3: "good w3" using now e(2) clock [of w2] by (auto simp: settleTime_def split: if_splits)
  obtain s2 where s2: "settleLocked now p v1 (e \<noteq> None) s1 = Some s2" "sampler_inv s2"
    "heldBag s1 = heldBag s2 + followDrop (vKeep v1) (getSlice (smJudging s1) (pID p))"
    "stLost (smStats s2) = stLost (smStats s1)"
    using settleLocked_effect [of s1 now p v1 "e \<noteq> None"] c1 e(1) by (auto simp: clean_state_def)
  have "err = None" "s' = s2" "w' = w3" using assms(3) l wr now s2(1) e(1) by (auto simp: decide_def)
  moreover have "all_ok ok s2" using c1 s2(3) by (auto simp: clean_state_def all_ok_def)
  ultimately show ?thesis using s2(2,4) c1 w3 by (simp add: clean_state_def)
qed

lemma decideAll_clean:
  assumes "clean_state s w" "\<forall>sp \<in># spansOf ps. ok sp" "decideAll E ps s w = Some (errs, s', w')"
  shows "errs = [] \<and> clean_state s' w' \<and> stLost (smStats s') = stLost (smStats s)"
  using assms
proof (induction ps arbitrary: s w errs)
  case (Cons p ps)
  obtain err s1 w1 where d: "decide E p s w = Some (err, s1, w1)" using Cons.prems(3) by (auto split: option.splits)
  then obtain errs1 where r: "decideAll E ps s1 w1 = Some (errs1, s', w')" "errs = (case err of None \<Rightarrow> errs1 | Some e \<Rightarrow> e # errs1)"
    using Cons.prems(3) by auto
  have c: "err = None" "clean_state s1 w1" "stLost (smStats s1) = stLost (smStats s)"
    using decide_clean [OF Cons.prems(1) _ d] Cons.prems(2) by auto
  with Cons.IH [OF c(2) _ r(1)] Cons.prems(2) r(2) show ?case by auto
qed simp

lemma judge_clean:
  assumes "clean_state s w" "due_ok due" "judge E due s w = Some (errs, s', w')"
  shows "errs = [] \<and> clean_state s' w' \<and> stLost (smStats s') = stLost (smStats s)"
proof -
  obtain ready s1 where t: "takeDue due (mapKeys (smPending s)) [] s = (ready, s1)" by fastforce
  have inv: "sampler_inv s" "places_ok s" using assms(1) by (simp_all add: clean_state_def sampler_inv_def holds_ok_def)
  have took: "took s ready s1" by (rule takeDue_took [OF assms(2) took_nothing [OF inv(2)] t])
  then have held: "heldBag s = heldBag s1 + spansOf ready" and lost: "stLost (smStats s1) = stLost (smStats s)"
    by (auto simp: took_def)
  have "clean_state s1 w" using assms(1) took_inv [OF inv(1) took] held by (simp add: clean_state_def all_ok_def)
  moreover have "spansOf (sortFunc byFirst ready) = spansOf ready" by (rule spansOf_perm) simp
  moreover have "\<forall>sp \<in># spansOf ready. ok sp" using assms(1) held by (simp add: clean_state_def all_ok_def)
  moreover have "decideAll E (sortFunc byFirst ready) s1 w = Some (errs, s', w')" using assms(3) t by (simp add: judge_def)
  ultimately show ?thesis using decideAll_clean [of s1 w "sortFunc byFirst ready" errs s' w'] lost by simp
qed

lemma writeLateLoop_clean:
  assumes "good w" "\<forall>tid \<in> set tids. \<forall>sp \<in> set (getSlice late tid). ok sp" "writeLateLoop E late tids s w = (errs, s', w')"
  shows "errs = [] \<and> s' = s \<and> good w'"
  using assms
proof (induction tids arbitrary: w)
  case (Cons tid tids)
  obtain e w1 where wr: "eWrite E (getSlice late tid) w = (e, w1)" by fastforce
  have "e = None" "good w1" using writes [of w "getSlice late tid"] wr Cons.prems(1,2) by auto
  with Cons.IH [of w1] Cons.prems wr show ?case by simp
qed simp

lemma writeLate_clean:
  assumes "clean_state s w" "writeLate E s w = (errs, s', w')"
  shows "errs = [] \<and> clean_state s' w' \<and> stLost (smStats s') = stLost (smStats s)"
proof -
  obtain late s1 where t: "takeLate s = (late, s1)" by fastforce
  have inv: "sampler_inv s" using assms(1) by (simp add: clean_state_def)
  note e = takeLate_effect [OF inv t]
  have "ok sp" if "tid \<in> set (mapKeys late)" "sp \<in> set (getSlice late tid)" for tid sp
    using assms(1) e(3) that by (auto simp: clean_state_def all_ok_def lateItems_def)
  moreover have "writeLateLoop E late (sortFunc compareBytes (mapKeys late)) s1 w = (errs, s', w')" using assms(2) t by (simp add: writeLate_def)
  ultimately have "errs = [] \<and> s' = s1 \<and> good w'" using assms(1) by (intro writeLateLoop_clean) (auto simp: clean_state_def)
  moreover have "all_ok ok s1" using assms(1) e(3) by (auto simp: clean_state_def all_ok_def)
  ultimately show ?thesis using e(1,4) by (simp add: clean_state_def)
qed

lemma Sweep_clean:
  assumes "clean_state s w" "Sweep E s w = Some (errs, s', w')"
  shows "errs = [] \<and> clean_state s' w' \<and> stLost (smStats s') = stLost (smStats s)"
proof -
  obtain now w0 where now: "eNow E w = (now, w0)" by fastforce
  have c0: "clean_state s w0" using clock [of w] now assms(1) by (simp add: clean_state_def)
  obtain errs1 s1 w1 where j: "judge E (sweepDue (smConfig s) now) s w0 = Some (errs1, s1, w1)"
    using assms(2) now by (auto simp: Sweep_def split: option.splits)
  note c1 = judge_clean [OF c0 due_ok_sweep j]
  let ?f = "forgetLocked now s1"
  have f: "clean_state ?f w1" "stLost (smStats ?f) = stLost (smStats s1)"
    using c1 forgetLocked_inv [of s1 now] by (simp_all add: clean_state_def all_ok_def)
  obtain late s2 w2 where l: "writeLate E ?f w1 = (late, s2, w2)" by (metis surj_pair)
  note c2 = writeLate_clean [OF f(1) l]
  have "errs = errs1 @ late" "s' = s2" "w' = w2" using assms(2) now j l by (auto simp: Sweep_def)
  with c1 c2 f(2) show ?thesis by simp
qed

lemma Flush_clean:
  assumes "clean_state s w" "Flush E s w = Some (errs, s', w')"
  shows "errs = [] \<and> clean_state s' w' \<and> stLost (smStats s') = stLost (smStats s)"
proof -
  obtain errs1 s1 w1 where j: "judge E (\<lambda>p st. (True, st)) s w = Some (errs1, s1, w1)"
    using assms(2) by (auto simp: Flush_def split: option.splits)
  note c1 = judge_clean [OF assms(1) due_ok_flush j]
  obtain late s2 w2 where l: "writeLate E s1 w1 = (late, s2, w2)" by (metis surj_pair)
  have "clean_state s1 w1" using c1 by blast
  note c2 = writeLate_clean [OF this l]
  have "errs = errs1 @ late" "s' = s2" "w' = w2" using assms(2) j l by (auto simp: Flush_def)
  with c1 c2 show ?thesis by simp
qed

lemma Accept_clean:
  assumes "clean_state s w" "\<forall>sp \<in> set spans. ok sp" "Accept E spans s w = (err, s', w')"
  shows "clean_state s' w' \<and> stLost (smStats s') = stLost (smStats s)"
proof (cases "cMaxSpans (smConfig s) < int (length spans)")
  case True
  with assms(1,3) show ?thesis by (auto simp: Accept_def)
next
  case False
  obtain now w0 where now: "eNow E w = (now, w0)" by fastforce
  obtain e s1 where a: "acceptLocked now spans s = (e, s1)" by fastforce
  have eq: "s' = s1" "w' = w0" using assms(3) False now a by (auto simp: Accept_def)
  have "sampler_inv s1" using acceptLocked_inv [OF _ a] assms(1) by (simp add: clean_state_def)
  moreover have "all_ok ok s1 \<and> stLost (smStats s1) = stLost (smStats s)"
  proof (cases e)
    case None
    have "heldBag s1 + lateDropped s now spans = heldBag s + mset spans" by (rule acceptLocked_accepted(1) [OF a [unfolded None]])
    then have "\<forall>sp \<in># heldBag s1. ok sp"
      using assms(1,2) by (metis (no_types, lifting) Un_iff all_ok_def clean_state_def set_mset_mset set_mset_union)
    moreover have "stLost (smStats s1) = stLost (smStats s)" by (rule acceptLocked_counts(3) [OF a [unfolded None]])
    ultimately show ?thesis by (simp add: all_ok_def)
  next
    case (Some x)
    then show ?thesis using acceptLocked_refused(1) [OF a [unfolded Some]] assms(1) by (simp add: clean_state_def all_ok_def)
  qed
  moreover have "good w0" using clock [of w] now assms(1) by (simp add: clean_state_def)
  ultimately show ?thesis using eq by (simp add: clean_state_def)
qed

end

end
