(* ===== verification/Store_Contract.thy ===== *)
theory Store_Contract
  imports Disk_Recovery
begin

section \<open>What a store promises\<close>

text \<open>
  The contract behind the interfaces \<open>Store\<close> (internal/storage/storage.go) and \<open>store\<close>
  (cmd/spandreld/main.go), as the locale \<open>span_store\<close>: a span whose write was acknowledged can be read
  back until it expires, a refused write changes nothing of that, and an eviction takes only what is
  expired. Both stores interpret it. The acknowledged spans are listed with the hour of their write,
  as in the log of the segment files: of the disk store the contract also says that the files hold
  them, unless their segment was written before the retention window.
\<close>

subsection \<open>Reading back\<close>

text \<open>The clock readings and directory accesses of one call of \<open>EvictExpired\<close>.\<close>

record EvictTick =
  tkNow :: Time
  tkNow2 :: Time
  tkListed :: bool
  tkRemove :: "string \<Rightarrow> bool"

text \<open>A span with this identifier is among the spans of the trace.\<close>

definition readable :: "(TraceID \<Rightarrow> StoreError + Span list) \<Rightarrow> Span \<Rightarrow> bool" where
  "readable tr sp \<longleftrightarrow> (case tr (sTraceID sp) of Inl err \<Rightarrow> False | Inr spans \<Rightarrow> sSpanID sp \<in> sSpanID ` set spans)"

text \<open>One of the evictions came after the span's retention was over.\<close>

definition expiredBy :: "Duration \<Rightarrow> EvictTick list \<Rightarrow> Span \<Rightarrow> bool" where
  "expiredBy limit tks sp \<longleftrightarrow> 0 < limit \<and> (\<exists>tk \<in> set tks. sEnd sp < tkNow tk - limit)"

lemma expiredBy_more: "expiredBy limit tks sp \<Longrightarrow> expiredBy limit (tks @ tks') sp"
  by (auto simp: expiredBy_def)

lemma expiredBy_now: "0 < limit \<Longrightarrow> sEnd sp < tkNow tk - limit \<Longrightarrow> expiredBy limit (tks @ [tk]) sp"
  by (auto simp: expiredBy_def)

text \<open>One of the evictions found the whole hour before the retention window.\<close>

definition agedOut :: "Duration \<Rightarrow> EvictTick list \<Rightarrow> int \<Rightarrow> bool" where
  "agedOut limit tks hour \<longleftrightarrow> 0 < limit \<and> (\<exists>tk \<in> set tks. wrap64 (hour + 1) \<le> hourOf (tkNow2 tk - limit))"

lemma agedOut_more: "agedOut limit tks hour \<Longrightarrow> agedOut limit (tks @ tks') hour"
  by (auto simp: agedOut_def)

abbreviation hourly :: "Time \<Rightarrow> Span list \<Rightarrow> ackLog" where
  "hourly now spans \<equiv> map (Pair (hourOf now)) spans"

subsection \<open>The contract\<close>

locale span_store =
  fixes put :: "Time \<Rightarrow> writeIO \<Rightarrow> Span list \<Rightarrow> 's \<Rightarrow> DiskError option \<times> 's"
    and readTrace :: "'s \<Rightarrow> TraceID \<Rightarrow> StoreError + Span list"
    and evict :: "EvictTick \<Rightarrow> 's \<Rightarrow> 's"
    and limit :: "'s \<Rightarrow> Duration"
    and holds :: "'s \<Rightarrow> ackLog \<Rightarrow> EvictTick list \<Rightarrow> bool"
  assumes took: "holds s es tks \<Longrightarrow> in_int64 (time_Unix now) \<Longrightarrow> \<forall>sp \<in> set spans. codec_ok sp \<Longrightarrow>
      put now io spans s = (None, s') \<Longrightarrow> holds s' (es @ hourly now spans) tks"
    and refused: "holds s es tks \<Longrightarrow> in_int64 (time_Unix now) \<Longrightarrow> \<forall>sp \<in> set spans. codec_ok sp \<Longrightarrow>
      put now io spans s = (Some e, s') \<Longrightarrow> holds s' es tks"
    and evicts: "holds s es tks \<Longrightarrow> holds (evict tk s) es (tks @ [tk])"
    and same_limit: "limit (snd (put now io spans s)) = limit s" "limit (evict tk s) = limit s"
    and reads: "holds s es tks \<Longrightarrow> sp \<in> snd ` set es \<Longrightarrow> readable (readTrace s) sp \<or> expiredBy (limit s) tks sp"
begin

lemma evict_all: "holds s es tks \<Longrightarrow> holds (foldl (\<lambda>s tk. evict tk s) s tks') es (tks @ tks')"
proof (induction tks' arbitrary: s tks)
  case (Cons tk tks')
  from Cons.IH [OF evicts [OF Cons.prems, of tk]] show ?case by simp
qed simp

lemma evict_all_limit: "limit (foldl (\<lambda>s tk. evict tk s) s tks) = limit s"
  by (induction tks arbitrary: s) (simp_all add: same_limit)

lemma reads_unlimited: "holds s es tks \<Longrightarrow> limit s \<le> 0 \<Longrightarrow> sp \<in> snd ` set es \<Longrightarrow> readable (readTrace s) sp"
  using reads by (force simp: expiredBy_def)

end

subsection \<open>The in-memory store\<close>

text \<open>The span or a newer version of it, in a trace that did not end before it.\<close>

definition inMemory :: "Memory \<Rightarrow> Span \<Rightarrow> bool" where
  "inMemory m sp \<longleftrightarrow> (case fmlookup (mTraces m) (sTraceID sp) of
     None \<Rightarrow> False | Some e \<Rightarrow> sSpanID sp \<in> sSpanID ` set (eSpans e) \<and> sEnd sp \<le> eEnd e)"

definition memHolds :: "Memory \<Rightarrow> ackLog \<Rightarrow> EvictTick list \<Rightarrow> bool" where
  "memHolds m es tks \<longleftrightarrow> mem_inv m \<and> \<not> mClosed m \<and> (\<forall>sp \<in> snd ` set es. inMemory m sp \<or> expiredBy (mRetention m) tks sp)"

definition memoryWrite :: "Time \<Rightarrow> writeIO \<Rightarrow> Span list \<Rightarrow> Memory \<Rightarrow> DiskError option \<times> Memory" where
  "memoryWrite now io spans m = (let (err, m) = Memory_Write m spans in (map_option StoreErr err, m))"

lemma inMemory_insert:
  assumes "mem_inv m" "\<not> mClosed m" "sp = s \<or> inMemory m sp"
  shows "inMemory (Memory_insert m s) sp"
proof (cases "sTraceID sp = sTraceID s")
  case False
  with assms(3) show ?thesis by (auto simp: inMemory_def Memory_insert_eq)
next
  case True
  define e where "e = (case fmlookup (mTraces m) (sTraceID s) of Some e \<Rightarrow> e | None \<Rightarrow> newEntry s)"
  have pos: "positions e" using assms(1,2) by (auto simp: e_def mem_inv_def entry_ok_def split: option.splits)
  have u: "updatedEntry m s = (widen (storeSpan e s) s)\<lparr>eKeys := addKeys (eKeys e) s\<rparr>"
    by (simp add: updatedEntry_def e_def Let_def)
  have "eSpans (updatedEntry m s) = upsert (eSpans e) s" "eEnd (updatedEntry m s) = max (eEnd e) (sEnd s)"
    using eSpans_storeSpan [OF pos, of s] by (simp_all add: u)
  moreover have "sSpanID ` set (upsert (eSpans e) s) = insert (sSpanID s) (sSpanID ` set (eSpans e))"
    using ids_foldl_upsert [of "eSpans e" "[s]"] by simp
  moreover have "sp = s \<or> (sSpanID sp \<in> sSpanID ` set (eSpans e) \<and> sEnd sp \<le> eEnd e)"
    using assms(3) True by (auto simp: inMemory_def e_def split: option.splits)
  ultimately show ?thesis using True by (auto simp: inMemory_def Memory_insert_eq)
qed

lemma inMemory_inserts:
  assumes "mem_inv m" "\<not> mClosed m" "\<forall>s \<in> set ss. Validate s = None" "sp \<in> set ss \<or> inMemory m sp"
  shows "inMemory (foldl Memory_insert m ss) sp"
  using assms
proof (induction ss arbitrary: m)
  case (Cons s ss)
  have "mem_inv (Memory_insert m s)" "\<not> mClosed (Memory_insert m s)" using Cons.prems by (simp_all add: mem_inv_insert)
  moreover have "sp \<in> set ss \<or> inMemory (Memory_insert m s) sp" using Cons.prems inMemory_insert [of m sp s] by auto
  ultimately show ?case using Cons.IH [of "Memory_insert m s"] Cons.prems(3) by simp
qed simp

lemma memHolds_inserts:
  assumes "memHolds m es tks" "\<forall>s \<in> set ss. Validate s = None" "snd ` set es' \<subseteq> set ss"
  shows "memHolds (foldl Memory_insert m ss) (es @ es') tks"
proof -
  have m: "mem_inv m" "\<not> mClosed m" using assms(1) by (simp_all add: memHolds_def)
  then show ?thesis
    using assms mem_inv_insert_all [OF m assms(2)] inMemory_inserts [OF m assms(2)] by (auto simp: memHolds_def image_Un)
qed

lemma lookup_EvictExpired:
  "fmlookup (mTraces (snd (Memory_EvictExpired now m))) t = (case fmlookup (mTraces m) t of
     None \<Rightarrow> None | Some e \<Rightarrow> if 0 < mRetention m \<and> eEnd e < now - mRetention m then None else Some e)"
  by (auto simp: Memory_EvictExpired_def Let_def lookup_remove_all expiredIn_def split: option.splits)

lemma EvictExpired_retention [simp]: "mRetention (snd (Memory_EvictExpired now m)) = mRetention m"
  by (simp add: Memory_EvictExpired_def Let_def foldl_remove_retention)

lemma memHolds_evict:
  assumes "memHolds m es tks"
  shows "memHolds (snd (Memory_EvictExpired (tkNow tk) m)) es (tks @ [tk])"
proof -
  let ?m = "snd (Memory_EvictExpired (tkNow tk) m)"
  have "inMemory ?m sp \<or> expiredBy (mRetention m) (tks @ [tk]) sp" if "sp \<in> snd ` set es" for sp
  proof (cases "inMemory m sp")
    case False
    with assms that show ?thesis using expiredBy_more by (auto simp: memHolds_def)
  next
    case True
    then show ?thesis
      using expiredBy_now [of "mRetention m" sp tk tks] by (auto simp: inMemory_def lookup_EvictExpired split: option.splits)
  qed
  moreover have "mem_inv ?m" "\<not> mClosed ?m"
    using assms mem_inv_EvictExpired [of m "tkNow tk"] Memory_EvictExpired_closed [of "tkNow tk" m] by (simp_all add: memHolds_def)
  ultimately show ?thesis by (simp add: memHolds_def)
qed

lemma readable_inMemory: "\<not> mClosed m \<Longrightarrow> inMemory m sp \<Longrightarrow> readable (Memory_Trace m) sp"
  by (auto simp: readable_def inMemory_def Memory_Trace_def split: option.splits)

lemma Memory_Write_cases:
  assumes "memHolds m es tks" "Memory_Write m spans = (err, m')"
  shows "if err = None then memHolds m' (es @ hourly now spans) tks else m' = m"
  using assms memHolds_inserts [OF assms(1), of spans "hourly now spans"] firstInvalid_None_iff [of 0 spans]
  by (auto simp: Memory_Write_def image_image split: option.splits if_splits)

interpretation memoryStore: span_store memoryWrite Memory_Trace "\<lambda>tk m. snd (Memory_EvictExpired (tkNow tk) m)" mRetention memHolds
proof unfold_locales
  fix m m' :: Memory and es tks now spans io
  assume h: "memHolds m es tks"
  show "memHolds m' (es @ hourly now spans) tks" if "memoryWrite now io spans m = (None, m')"
    using that Memory_Write_cases [OF h, of spans None m' now] by (auto simp: memoryWrite_def split: prod.splits)
  show "memHolds m' es tks" if "memoryWrite now io spans m = (Some e, m')" for e
    using that h Memory_Write_cases [OF h, of spans _ m'] by (auto simp: memoryWrite_def split: prod.splits)
  show "memHolds (snd (Memory_EvictExpired (tkNow tk) m)) es (tks @ [tk])" for tk
    by (rule memHolds_evict [OF h])
  show "readable (Memory_Trace m) sp \<or> expiredBy (mRetention m) tks sp" if "sp \<in> snd ` set es" for sp
    using h that readable_inMemory by (auto simp: memHolds_def)
next
  fix now io spans m
  show "mRetention (snd (memoryWrite now io spans m)) = mRetention m"
    by (simp add: memoryWrite_def Memory_Write_def split: option.split)
qed simp

subsection \<open>The disk store\<close>

definition diskWrite :: "Time \<Rightarrow> writeIO \<Rightarrow> Span list \<Rightarrow> Disk \<Rightarrow> DiskError option \<times> Disk" where
  "diskWrite now io spans d = Disk_Write now io d spans"

definition diskEvict :: "EvictTick \<Rightarrow> Disk \<Rightarrow> Disk" where
  "diskEvict tk d = snd (Disk_EvictExpired (tkNow tk) (tkNow2 tk) (tkListed tk) (tkRemove tk) d)"

text \<open>The files hold every acknowledged span whose segment did not age out.\<close>

definition diskHolds :: "Disk \<Rightarrow> ackLog \<Rightarrow> EvictTick list \<Rightarrow> bool" where
  "diskHolds d es tks \<longleftrightarrow> \<not> dClosed d \<and> memHolds (dMem d) es tks
     \<and> (\<exists>log. disk_reach d log \<and> (\<forall>(h, sp) \<in> set es. (h, sp) \<in> set log \<or> agedOut (dRetention d) tks h))"

lemma reach_evicted:
  assumes "disk_reach d log"
  shows "\<exists>log'. disk_reach (diskEvict tk d) log' \<and> (\<forall>(h, sp) \<in> set log. (h, sp) \<in> set log' \<or> agedOut (dRetention d) (tks @ [tk]) h)"
proof -
  let ?d = "snd (evictMem (tkNow tk) d)"
  let ?gone = "segmentGone (tkNow2 tk) (tkListed tk) (tkRemove tk) ?d"
  have "disk_reach (diskEvict tk d) (kept ?gone log)"
    using disk_reach.deleted [OF disk_reach.evicted [OF assms]] by (simp add: diskEvict_def Disk_EvictExpired_def split_beta)
  moreover have "agedOut (dRetention d) (tks @ [tk]) h" if "?gone h" for h
    using that by (auto simp: agedOut_def segmentGone_def segmentExpired_def evictMem_def split_beta)
  ultimately show ?thesis by (intro exI [of _ "kept ?gone log"]) (auto simp: kept_def)
qed

lemma diskEvict_fields:
  "dMem (diskEvict tk d) = snd (Memory_EvictExpired (tkNow tk) (dMem d))" "dClosed (diskEvict tk d) = dClosed d"
  "dRetention (diskEvict tk d) = dRetention d" "dSeg (diskEvict tk d) = dSeg d" "dDirty (diskEvict tk d) = dDirty d"
  by (simp_all add: diskEvict_def Disk_EvictExpired_def evictMem_def split_beta evictSegments_def Let_def)

lemma diskWrite_holds:
  assumes "diskHolds d es tks" "in_int64 (time_Unix now)" "\<forall>sp \<in> set spans. codec_ok sp" "Disk_Write now io d spans = (err, d')"
  shows "diskHolds d' (if err = None then es @ hourly now spans else es) tks"
proof -
  obtain log where log: "disk_reach d log" "\<forall>(h, sp) \<in> set es. (h, sp) \<in> set log \<or> agedOut (dRetention d) tks h"
    using assms(1) by (auto simp: diskHolds_def)
  note inv = Disk_Write_inv [OF reach_disk_inv [OF log(1)] hourOf_int64 [OF assms(2)] assms(3,4)] and keep = Disk_Write_keeps [OF assms(4)]
  show ?thesis
  proof (cases err)
    case None
    have "disk_reach d' (log @ hourly now spans)" by (rule disk_reach.wrote [OF log(1) assms(2,3) assms(4) [unfolded None]])
    moreover have "memHolds (dMem d') (es @ hourly now spans) tks"
      using inv None assms(1) memHolds_inserts [of "dMem d" es tks spans "hourly now spans"] by (simp add: diskHolds_def writable_def image_image)
    moreover have "\<forall>(h, sp) \<in> set (es @ hourly now spans). (h, sp) \<in> set (log @ hourly now spans) \<or> agedOut (dRetention d') tks h"
      using keep log(2) by auto
    moreover have "\<not> dClosed d'" using keep assms(1) by (simp add: diskHolds_def)
    ultimately have "diskHolds d' (es @ hourly now spans) tks" unfolding diskHolds_def by blast
    with None show ?thesis by simp
  next
    case (Some e)
    have "disk_reach d' log" by (rule disk_reach.failed [OF log(1) assms(2,3) assms(4) [unfolded Some]])
    then show ?thesis using Some inv keep assms(1) log(2) by (auto simp: diskHolds_def)
  qed
qed

lemma diskEvict_holds:
  assumes "diskHolds d es tks"
  shows "diskHolds (diskEvict tk d) es (tks @ [tk])"
proof -
  obtain log where log: "disk_reach d log" "\<forall>(h, sp) \<in> set es. (h, sp) \<in> set log \<or> agedOut (dRetention d) tks h"
    using assms by (auto simp: diskHolds_def)
  obtain log' where log': "disk_reach (diskEvict tk d) log'"
    "\<forall>(h, sp) \<in> set log. (h, sp) \<in> set log' \<or> agedOut (dRetention d) (tks @ [tk]) h"
    using reach_evicted [OF log(1)] by blast
  have "\<forall>(h, sp) \<in> set es. (h, sp) \<in> set log' \<or> agedOut (dRetention d) (tks @ [tk]) h"
    using log(2) log'(2) agedOut_more by fast
  then show ?thesis using log'(1) assms memHolds_evict [of "dMem d" es tks tk] by (auto simp: diskHolds_def diskEvict_fields)
qed

interpretation diskStore: span_store diskWrite Disk_Trace diskEvict dRetention diskHolds
proof unfold_locales
  fix d d' :: Disk and es tks now spans io
  assume h: "diskHolds d es tks"
  show "diskHolds d' (es @ hourly now spans) tks" if "in_int64 (time_Unix now)" "\<forall>sp \<in> set spans. codec_ok sp" "diskWrite now io spans d = (None, d')"
    using diskWrite_holds [OF h that(1,2), of io None d'] that(3) by (simp add: diskWrite_def)
  show "diskHolds d' es tks" if "in_int64 (time_Unix now)" "\<forall>sp \<in> set spans. codec_ok sp" "diskWrite now io spans d = (Some e, d')" for e
    using diskWrite_holds [OF h that(1,2), of io "Some e" d'] that(3) by (simp add: diskWrite_def)
  show "diskHolds (diskEvict tk d) es (tks @ [tk])" for tk by (rule diskEvict_holds [OF h])
  show "readable (Disk_Trace d) sp \<or> expiredBy (dRetention d) tks sp" if "sp \<in> snd ` set es" for sp
  proof -
    obtain log where "disk_reach d log" using h by (auto simp: diskHolds_def)
    from reach_memory [OF this] have "mRetention (dMem d) = dRetention d" by blast
    with memoryStore.reads [of "dMem d" es tks sp] h that show ?thesis by (simp add: diskHolds_def Disk_Trace_def [abs_def])
  qed
next
  fix now io spans d
  obtain err d' where "Disk_Write now io d spans = (err, d')" by fastforce
  with Disk_Write_keeps [OF this] show "dRetention (snd (diskWrite now io spans d)) = dRetention d" by (simp add: diskWrite_def)
qed (simp add: diskEvict_fields)

end
