(* ===== verification/Store_Restart.thy ===== *)
theory Store_Restart
  imports Store_Contract
begin

section \<open>Stopping and opening the disk store\<close>

text \<open>
  What a directory has to be for the store to open on it without losing an acknowledged span, that
  this is what every stop of a session leaves behind, and what the opened store holds. A session may
  stop by closing the store, with a failed append that could not be undone, or in the middle of an
  append.
\<close>

subsection \<open>Directories\<close>

text \<open>The records of the log, and at most the beginning of another batch behind the newest segment.\<close>

definition restorable :: "Dir \<Rightarrow> ackLog \<Rightarrow> bool" where
  "restorable files log \<longleftrightarrow> (\<exists>h ts k. in_int64 h \<and> writable ts \<and> dir_holds files log (noTail(h := take k (recordsOf ts)))
     \<and> (take k (recordsOf ts) \<noteq> [] \<longrightarrow> last (segments files) = h))"

lemma restorable_clean: "dir_holds files log noTail \<Longrightarrow> restorable files log"
  unfolding restorable_def by (intro exI [of _ 0] exI [of _ "[]"]) (simp add: in_int64_def writable_def fun_upd_idem)

text \<open>The directory after the process stopped: as it was, or with the first bytes of an append.\<close>

definition leftBy :: "Disk \<Rightarrow> Dir \<Rightarrow> bool" where
  "leftBy d files \<longleftrightarrow> files = dFiles d \<or> (\<exists>k ts. dSeg d \<noteq> None \<and> writable ts \<and> files = crashed d k ts)"

text \<open>The segment being written, or the one left dirty, is the newest: the clock did not go back over
  an hour.\<close>

definition newestOpen :: "Disk \<Rightarrow> bool" where
  "newestOpen d \<longleftrightarrow> (dSeg d \<noteq> None \<longrightarrow> dSegHour d = last (segments (dFiles d))) \<and> (dDirty d \<longrightarrow> dDirtyHour d = last (segments (dFiles d)))"

lemma files_restorable:
  assumes "disk_reach d log" "dDirty d \<longrightarrow> dDirtyHour d = last (segments (dFiles d))"
  shows "restorable (dFiles d) log"
proof -
  obtain ts k where ts: "writable ts" "dir_holds (dFiles d) log (tail_of d (take k (recordsOf ts)))" "dirty_ok d log"
    using reach_disk_inv [OF assms(1)] by (auto simp: disk_inv_def files_inv_def)
  show ?thesis
  proof (cases "dDirty d")
    case False
    then show ?thesis using ts(2) by (simp add: restorable_clean tail_of_def)
  next
    case True
    then have "in_int64 (dDirtyHour d)" "dDirtyHour d = last (segments (dFiles d))"
      using ts(3) assms(2) by (simp_all add: dirty_ok_def)
    then show ?thesis using ts True unfolding restorable_def by (auto simp: tail_of_def)
  qed
qed

lemma left_restorable:
  assumes "disk_reach d log" "newestOpen d" "leftBy d files"
  shows "restorable files log"
proof (cases "files = dFiles d")
  case True
  then show ?thesis using files_restorable [OF assms(1)] assms(2) by (simp add: newestOpen_def)
next
  case False
  then obtain k ts f where c: "dSeg d = Some f" "writable ts" "files = crashed d k ts" using assms(3) by (auto simp: leftBy_def)
  then show ?thesis
    using crashed_holds [OF reach_disk_inv [OF assms(1)] c(1), of k ts] assms(2) unfolding restorable_def by (auto simp: newestOpen_def)
qed

text \<open>Every span the store took is in what a stop leaves, unless its segment aged out.\<close>

lemma held_log:
  assumes "diskHolds d es tks" "\<And>log. disk_reach d log \<Longrightarrow> restorable files log"
  obtains log where "restorable files log" "\<forall>(h, sp) \<in> set es. (h, sp) \<in> set log \<or> agedOut (dRetention d) tks h"
  using assms by (auto simp: diskHolds_def)

subsection \<open>Replaying\<close>

text \<open>A replay that went through would also have gone through with no failing system call.\<close>

abbreviation flawless :: "openIO \<Rightarrow> openIO" where
  "flawless io \<equiv> io\<lparr>oRead := \<lambda>_. True, oTruncate := \<lambda>_. True\<rparr>"

lemma replay_flawless: "replay io h newest d = (None, d') \<Longrightarrow> replay (flawless io) h newest d = (None, d')"
  by (auto simp: replay_def Let_def split: if_splits option.splits prod.splits)

lemma replayAll_flawless: "replayAll io hs d = (None, d') \<Longrightarrow> replayAll (flawless io) hs d = (None, d')"
  by (induction hs arbitrary: d) (auto dest: replay_flawless split: option.splits prod.splits)

text \<open>After the replay the store has what the directory holds, and the records that were whole in the
  beginning of a batch.\<close>

lemma replay_holds:
  fixes log :: ackLog
  assumes "canonical files" "replayAll io (segments files) (newDisk r files) = (None, d)" "dir_holds fs log noTail"
    and "d = (newDisk r files)\<lparr>dFiles := fs, dMem := foldl Memory_insert (NewMemory r) (map snd (sort_key fst log))\<rparr>"
  shows "diskHolds d log [] \<and> dRetention d = r \<and> dSeg d = None \<and> \<not> dDirty d"
proof -
  have f: "dFiles d = fs" "\<not> dClosed d" "dSeg d = None" "\<not> dDirty d" "dRetention d = r"
    "dMem d = foldl Memory_insert (NewMemory r) (map snd (sort_key fst log))"
    unfolding assms(4) by (simp_all add: newDisk_def)
  have reach: "disk_reach d (sort_key fst log)" using disk_reach.opened [OF assms(1,2)] assms(3) f(1) by simp
  have valid: "\<forall>s \<in> set (map snd (sort_key fst log)). Validate s = None"
    using assms(3) by (auto simp: dir_holds_def log_ok_def writable_def)
  have "memHolds (NewMemory r) [] []" using mem_inv_New [of r] by (simp add: memHolds_def NewMemory_def)
  from memHolds_inserts [OF this valid, of log] have "memHolds (dMem d) log []" by (simp add: f(6))
  then show ?thesis using reach f unfolding diskHolds_def by (auto intro!: exI [of _ "sort_key fst log"])
qed

lemma torn_segment:
  assumes "dir_holds files log (noTail(h := b))" "b \<noteq> []" "in_int64 h" "last (segments files) = h"
  shows "\<exists>hs. segments files = hs @ [h]"
proof -
  have "canonical files" using assms(1) by (simp add: dir_holds_def)
  moreover have "fmlookup files (pathOf h) \<noteq> None" using assms(1-3) by (auto simp: dir_holds_def split: option.splits)
  ultimately have "h \<in> set (segments files)" using assms(3) by (auto simp: set_segments)
  then show ?thesis using assms(4) by (metis append_butlast_last_id empty_iff list.set(1))
qed

lemma replayed_holds:
  fixes log :: ackLog
  assumes "restorable files log" "replayAll io (segments files) (newDisk r files) = (None, d)"
  shows "\<exists>tail. diskHolds d (log @ tail) [] \<and> dRetention d = r \<and> dSeg d = None \<and> \<not> dDirty d"
proof -
  obtain h ts k where h: "in_int64 h" "writable ts" "dir_holds files log (noTail(h := take k (recordsOf ts)))"
    "take k (recordsOf ts) \<noteq> [] \<longrightarrow> last (segments files) = h" using assms(1) by (auto simp: restorable_def)
  have can: "canonical files" using h(3) by (simp add: dir_holds_def)
  show ?thesis
  proof (cases "take k (recordsOf ts) = []")
    case True
    then have dir: "dir_holds files log noTail" using h(3) by (simp add: fun_upd_idem)
    have "d = (newDisk r files)\<lparr>dFiles := files, dMem := foldl Memory_insert (NewMemory r) (map snd (sort_key fst log))\<rparr>"
      using replayed_eq [OF dir assms(2)] by (simp add: newDisk_def)
    from replay_holds [OF can assms(2) dir this] show ?thesis by (intro exI [of _ "[]"]) simp
  next
    case False
    then obtain hs where hs: "segments files = hs @ [h]" using torn_segment [OF h(3) _ h(1)] h(4) by blast
    note ok = replayAll_flawless [OF assms(2)]
    obtain j where "let log' = log @ map (Pair h) (take j ts) in
      replayAll (flawless io) (segments files) (newDisk r files) =
        (None, (newDisk r files)\<lparr>dFiles := fmupd (pathOf h) (recordsOf (ackedIn log' h)) files,
           dMem := foldl Memory_insert (NewMemory r) (map snd (sort_key fst log'))\<rparr>)
      \<and> dir_holds (fmupd (pathOf h) (recordsOf (ackedIn log' h)) files) log' noTail"
      using replayAll_recovers [OF h(3,2,1) hs, of "flawless io" r] by auto
    then have "d = (newDisk r files)\<lparr>dFiles := fmupd (pathOf h) (recordsOf (ackedIn (log @ map (Pair h) (take j ts)) h)) files,
        dMem := foldl Memory_insert (NewMemory r) (map snd (sort_key fst (log @ map (Pair h) (take j ts))))\<rparr>"
      and dir: "dir_holds (fmupd (pathOf h) (recordsOf (ackedIn (log @ map (Pair h) (take j ts)) h)) files) (log @ map (Pair h) (take j ts)) noTail"
      unfolding Let_def ok by simp_all
    from replay_holds [OF can assms(2) dir this(1)] show ?thesis by blast
  qed
qed

lemma replayAll_restores:
  assumes "restorable files log" "openOk io"
  shows "\<exists>d. replayAll io (segments files) (newDisk r files) = (None, d)"
proof -
  obtain h ts k where h: "in_int64 h" "writable ts" "dir_holds files log (noTail(h := take k (recordsOf ts)))"
    "take k (recordsOf ts) \<noteq> [] \<longrightarrow> last (segments files) = h" using assms(1) by (auto simp: restorable_def)
  show ?thesis
  proof (cases "take k (recordsOf ts) = []")
    case True
    then have "dir_holds files log noTail" using h(3) by (simp add: fun_upd_idem)
    then show ?thesis by (rule replayAll_clean [OF _ assms(2)])
  next
    case False
    then obtain hs where hs: "segments files = hs @ [h]" using torn_segment [OF h(3) _ h(1)] h(4) by blast
    from replayAll_recovers [OF h(3,2,1) hs, of io r] assms(2) show ?thesis by (auto simp: openOk_def Let_def)
  qed
qed

subsection \<open>Opening\<close>

text \<open>Opening ends with an eviction.\<close>

definition openTick :: "Time \<Rightarrow> Time \<Rightarrow> openIO \<Rightarrow> EvictTick" where
  "openTick now now' io = \<lparr>tkNow = now, tkNow2 = now', tkListed = oEvictList io, tkRemove = oRemove io\<rparr>"

lemma OpenDisk_holds:
  fixes log :: ackLog
  assumes "restorable files log" "OpenDisk now now' io r files = Inr d"
  shows "\<exists>tail. diskHolds d (log @ tail) [openTick now now' io] \<and> dRetention d = r \<and> dSeg d = None \<and> \<not> dDirty d"
proof -
  obtain d1 where d1: "replayAll io (segments files) (newDisk r files) = (None, d1)"
    "d = snd (Disk_EvictExpired now now' (oEvictList io) (oRemove io) d1)"
    using assms(2) by (auto simp: OpenDisk_def split: if_splits option.splits prod.splits)
  have d: "d = diskEvict (openTick now now' io) d1" using d1(2) by (simp add: diskEvict_def openTick_def)
  obtain tail where h: "diskHolds d1 (log @ tail) []" "dRetention d1 = r" "dSeg d1 = None" "\<not> dDirty d1"
    using replayed_holds [OF assms(1) d1(1)] by blast
  have "diskHolds d (log @ tail) [openTick now now' io]" unfolding d using diskStore.evicts [OF h(1)] by simp
  then show ?thesis using h by (auto simp: d diskEvict_fields)
qed

lemma diskHolds_empty: "diskHolds d es tks \<Longrightarrow> diskHolds d [] []"
  by (auto simp: diskHolds_def memHolds_def)

lemma OpenDisk_restores:
  assumes "restorable files log" "openOk io"
  shows "\<exists>d. OpenDisk now now' io r files = Inr d
    \<and> (\<forall>sp \<in> snd ` set log. readable (Disk_Trace d) sp \<or> expiredBy r [openTick now now' io] sp)"
proof -
  obtain d1 where "replayAll io (segments files) (newDisk r files) = (None, d1)"
    using replayAll_restores [OF assms] by blast
  then obtain d where d: "OpenDisk now now' io r files = Inr d" using assms(2) by (simp add: OpenDisk_def openOk_def)
  obtain tail where "diskHolds d (log @ tail) [openTick now now' io]" "dRetention d = r" using OpenDisk_holds [OF assms(1) d] by blast
  then show ?thesis using d diskStore.reads [of d "log @ tail" "[openTick now now' io]"] by (auto simp: image_Un)
qed

text \<open>What the store took in a session is there after a restart, until it expires, unless its segment
  aged out.\<close>

lemma reopened_reads:
  assumes "diskHolds d es tks" "\<And>log. disk_reach d log \<Longrightarrow> restorable files log" "openOk io"
  shows "\<exists>log d'. restorable files log \<and> OpenDisk now now' io r files = Inr d'
    \<and> (\<forall>(h, sp) \<in> set es. readable (Disk_Trace d') sp \<or> expiredBy r [openTick now now' io] sp \<or> agedOut (dRetention d) tks h)"
proof -
  obtain log where log: "restorable files log" "\<forall>(h, sp) \<in> set es. (h, sp) \<in> set log \<or> agedOut (dRetention d) tks h"
    using held_log [OF assms(1,2)] by blast
  obtain d' where "OpenDisk now now' io r files = Inr d'"
    "\<forall>sp \<in> snd ` set log. readable (Disk_Trace d') sp \<or> expiredBy r [openTick now now' io] sp"
    using OpenDisk_restores [OF log(1) assms(3)] by blast
  with log show ?thesis by (intro exI [of _ log] exI [of _ d']) fastforce
qed

end
