(* ===== verification/Daemon.thy ===== *)
theory Daemon
  imports Ingest Sampler_Clean Store_Restart
begin

section \<open>The daemon: cmd/spandreld/main.go\<close>

text \<open>
  Flags, the sampler's settings made from them, the store, and the pipeline: exports arrive over
  either transport, the sampler buffers and judges them, the store takes what is kept. Parsing
  the command line, parsing the log level and binding an address are left to parameters; the two
  servers, signals and logging are not modelled. What the servers do to the sampler is the sequence
  of exports that arrive while \<open>Run\<close> sweeps; \<open>serve\<close> is the way it ends, and \<open>serveSampled\<close>
  flushes after the last of them. The evictions of \<open>evictLoop\<close>, the clock and the outcomes of the
  system calls are those of a machine, the parameter \<open>Machine\<close>; \<open>run\<close> is the whole life of the process.
\<close>

subsection \<open>Configuration\<close>

record config =
  grpcAddr :: string
  httpAddr :: string
  logLevel :: int
  drainTimeout :: Duration
  dataDir :: string
  retention :: Duration
  sampleQuiet :: Duration
  sampleMaxAge :: Duration
  sampleBuffer :: int
  keepSlowerThan :: Duration
  keepShare :: float64
  serviceRate :: float64
  serviceBurst :: int
  rememberFor :: Duration
  maxDecisions :: int

definition defaultFlags :: config where
  "defaultFlags = \<lparr>grpcAddr = '':4317'', httpAddr = '':4318'', logLevel = 0, drainTimeout = 10 * Second, dataDir = [],
     retention = 72 * 3600 * Second, sampleQuiet = 5 * Second, sampleMaxAge = 60 * Second, sampleBuffer = 200000,
     keepSlowerThan = Second, keepShare = round64 (1 / 10), serviceRate = FFin 50, serviceBurst = 100,
     rememberFor = 5 * 60 * Second, maxDecisions = 100000\<rparr>"

datatype FlagError = FlagParse string | BadLogLevel string | BadRetention Duration | BadKeepSlower Duration

record FlagLib =
  fsParse :: "string list \<Rightarrow> config \<times> string \<Rightarrow> string + config \<times> string"
  levelUnmarshal :: "string \<Rightarrow> int option"

definition parseFlags :: "FlagLib \<Rightarrow> string list \<Rightarrow> FlagError + config" where
  "parseFlags L args =
     (case fsParse L args (defaultFlags, ''info'') of
        Inl err \<Rightarrow> Inl (FlagParse err)
      | Inr (cfg, level) \<Rightarrow>
          (case levelUnmarshal L level of
             None \<Rightarrow> Inl (BadLogLevel level)
           | Some l \<Rightarrow>
               let cfg = cfg\<lparr>logLevel := l\<rparr>
               in if retention cfg < 0 then Inl (BadRetention (retention cfg))
                  else if keepSlowerThan cfg < 0 then Inl (BadKeepSlower (keepSlowerThan cfg))
                  else Inr cfg))"

definition samplerConfig :: "config \<Rightarrow> (ShareError + Config) option" where
  "samplerConfig cfg =
     (case NewKeepFraction (keepShare cfg) of
        None \<Rightarrow> None
      | Some (Inl err) \<Rightarrow> Some (Inl err)
      | Some (Inr share) \<Rightarrow>
          let policies = [KeepErrors_Evaluate];
              policies = (if 0 < keepSlowerThan cfg then policies @ [KeepSlow_Evaluate \<lparr>slThreshold = keepSlowerThan cfg\<rparr>] else policies)
          in Some (Inr \<lparr>cQuiet = sampleQuiet cfg, cMaxAge = sampleMaxAge cfg, cMaxSpans = sampleBuffer cfg,
               cPolicies = policies @ [KeepFraction_Evaluate share], cRemember = rememberFor cfg, cMaxDecisions = maxDecisions cfg,
               cServiceRate = serviceRate cfg, cServiceBurst = serviceBurst cfg\<rparr>))"

subsection \<open>The store\<close>

datatype store = MemoryStore Memory | DiskStore Disk

definition openStore :: "Time \<Rightarrow> Time \<Rightarrow> openIO \<Rightarrow> Dir \<Rightarrow> config \<Rightarrow> DiskError + store" where
  "openStore now now' io files cfg =
     (if dataDir cfg = [] then Inr (MemoryStore (NewMemory (retention cfg)))
      else case OpenDisk now now' io (retention cfg) files of
             Inl err \<Rightarrow> Inl err
           | Inr d \<Rightarrow> Inr (DiskStore d))"

text \<open>\<open>run\<close> up to the call of \<open>serveSampled\<close>. \<open>listen\<close> is the outcome of binding an address: \<open>None\<close>, or
  the error.\<close>

datatype StartError = StartFlags FlagError | StartShare ShareError | StartStore DiskError | StartSampler ConfigError
  | ListenGRPC string string | ListenHTTP string string

definition startup :: "FlagLib \<Rightarrow> (string \<Rightarrow> string option) \<Rightarrow> string list \<Rightarrow> Time \<Rightarrow> Time \<Rightarrow> openIO \<Rightarrow> Dir
    \<Rightarrow> (StartError + config \<times> store \<times> Sampler) option" where
  "startup L listen args now now' io files =
     (case parseFlags L args of
        Inl err \<Rightarrow> Some (Inl (StartFlags err))
      | Inr cfg \<Rightarrow>
          (case samplerConfig cfg of
             None \<Rightarrow> None
           | Some (Inl err) \<Rightarrow> Some (Inl (StartShare err))
           | Some (Inr sampling) \<Rightarrow>
               (case openStore now now' io files cfg of
                  Inl err \<Rightarrow> Some (Inl (StartStore err))
                | Inr st \<Rightarrow>
                    (case New sampling False of
                       Inl err \<Rightarrow> Some (Inl (StartSampler err))
                     | Inr smp \<Rightarrow>
                         (case listen (grpcAddr cfg) of
                            Some err \<Rightarrow> Some (Inl (ListenGRPC (grpcAddr cfg) err))
                          | None \<Rightarrow>
                              (case listen (httpAddr cfg) of
                                 Some err \<Rightarrow> Some (Inl (ListenHTTP (httpAddr cfg) err))
                               | None \<Rightarrow> Some (Inr (cfg, st, smp))))))))"

text \<open>The methods of the interface, for whichever store was opened.\<close>

definition store_Write :: "Time \<Rightarrow> writeIO \<Rightarrow> Span list \<Rightarrow> store \<Rightarrow> DiskError option \<times> store" where
  "store_Write now io spans st =
     (case st of
        MemoryStore m \<Rightarrow> (let (err, m) = Memory_Write m spans in (map_option StoreErr err, MemoryStore m))
      | DiskStore d \<Rightarrow> (let (err, d) = Disk_Write now io d spans in (err, DiskStore d)))"

definition store_Trace :: "store \<Rightarrow> TraceID \<Rightarrow> StoreError + Span list" where
  "store_Trace st tid = (case st of MemoryStore m \<Rightarrow> Memory_Trace m tid | DiskStore d \<Rightarrow> Disk_Trace d tid)"

definition store_Find :: "store \<Rightarrow> Query \<Rightarrow> (StoreError + Summary list) option" where
  "store_Find st q = (case st of MemoryStore m \<Rightarrow> Memory_Find m q | DiskStore d \<Rightarrow> Disk_Find d q)"

definition store_Close :: "bool \<Rightarrow> bool \<Rightarrow> store \<Rightarrow> DiskError list \<times> store" where
  "store_Close syncOk closeOk st =
     (case st of
        MemoryStore m \<Rightarrow> ([], MemoryStore (Memory_Close m))
      | DiskStore d \<Rightarrow> (let (errs, d) = Disk_Close syncOk closeOk d in (errs, DiskStore d)))"

text \<open>\<open>evictLoop\<close>, given the clock readings and directory accesses of its ticks.\<close>

definition store_EvictExpired :: "EvictTick \<Rightarrow> store \<Rightarrow> nat \<times> store" where
  "store_EvictExpired tk st =
     (case st of
        MemoryStore m \<Rightarrow> map_prod (\<lambda>n. n) MemoryStore (Memory_EvictExpired (tkNow tk) m)
      | DiskStore d \<Rightarrow> map_prod (\<lambda>n. n) DiskStore (Disk_EvictExpired (tkNow tk) (tkNow2 tk) (tkListed tk) (tkRemove tk) d))"

fun evictLoop :: "EvictTick list \<Rightarrow> store \<Rightarrow> store" where
  "evictLoop [] st = st"
| "evictLoop (tk # tks) st = evictLoop tks (snd (store_EvictExpired tk st))"

subsection \<open>The pipeline\<close>

definition samplerFull :: "SamplerError \<Rightarrow> bool" where
  "samplerFull err = (case err of ErrSinkFull _ _ \<Rightarrow> True | ErrBatchTooLarge _ _ \<Rightarrow> False)"

definition samplerText :: "SamplerError \<Rightarrow> string" where
  "samplerText err =
     (case err of
        ErrSinkFull n m \<Rightarrow> ''ingest: sink is full: '' @ FormatInt n @ '' of '' @ FormatInt m @ '' spans buffered''
      | ErrBatchTooLarge n m \<Rightarrow> ''sampler: batch is larger than the whole buffer: '' @ FormatInt n @ '' spans, buffer holds '' @ FormatInt m)"

definition samplerSink :: "('w, 'e) Env \<Rightarrow> (Sampler \<times> 'w, SamplerError) Sink" where
  "samplerSink E = \<lparr>snkAccept = \<lambda>spans sw. Accept E spans (fst sw) (snd sw), snkFull = samplerFull, snkText = samplerText\<rparr>"

text \<open>The handlers that \<open>serve\<close> registers. How \<open>http.ServeMux\<close> matches a path against the registered
  patterns is a parameter: it answers itself, or picks a pattern.\<close>

type_synonym Mux = "string list \<Rightarrow> string \<Rightarrow> Response + string"

definition healthPath :: string where "healthPath = ''/healthz''"

definition serveMux :: "('m, 'n, 'q) Wire \<Rightarrow> Mux \<Rightarrow> ('s, 'e) Sink \<Rightarrow> string \<Rightarrow> Request \<Rightarrow> 's \<Rightarrow> Response \<times> 's" where
  "serveMux W mux sink path r s =
     (case mux [TracesPath, healthPath] path of
        Inl resp \<Rightarrow> (resp, s)
      | Inr pattern \<Rightarrow>
          if pattern = TracesPath then ServeHTTP W sink r s
          else (\<lparr>rsStatus = 200, rsHeader = [], rsBody = []\<rparr>, s))"

datatype 'q Call = GRPCCall 'q | HTTPCall string Request

datatype Answer = GRPCAnswer "GrpcStatus + ExportResponse" | HTTPAnswer Response

definition serveCall :: "('m, 'n, 'q) Wire \<Rightarrow> Mux \<Rightarrow> ('s, 'e) Sink \<Rightarrow> 'q Call \<Rightarrow> 's \<Rightarrow> Answer \<times> 's" where
  "serveCall W mux sink call s =
     (case call of
        GRPCCall req \<Rightarrow> (let (a, s) = Export W sink req s in (GRPCAnswer a, s))
      | HTTPCall path r \<Rightarrow> (let (a, s) = serveMux W mux sink path r s in (HTTPAnswer a, s)))"

text \<open>The calls that arrive, and the ticks of \<open>Run\<close>.\<close>

datatype 'q Event = Tick | Incoming 'q

fun serveCalls :: "('m, 'n, 'q) Wire \<Rightarrow> Mux \<Rightarrow> ('w, 'e) Env \<Rightarrow> 'q Call Event list \<Rightarrow> Sampler \<Rightarrow> 'w \<Rightarrow> (Sampler \<times> 'w) option" where
  "serveCalls W mux E [] s w = Some (s, w)"
| "serveCalls W mux E (Tick # evs) s w = (case Sweep E s w of None \<Rightarrow> None | Some (errs, s, w) \<Rightarrow> serveCalls W mux E evs s w)"
| "serveCalls W mux E (Incoming call # evs) s w =
     (let (answer, s, w) = serveCall W mux (samplerSink E) call (s, w) in serveCalls W mux E evs s w)"

text \<open>\<open>serve\<close>: what wakes it (its context, or the first server to end), and the calls it makes on the
  servers on its way out. \<open>svGRPCDone\<close>: whether
  the gRPC server stopped gracefully before the drain timeout; when the HTTP server does not drain
  in time this is only logged.\<close>

datatype ServerEnd = GRPCEnd "string option" | HTTPServerClosed | HTTPEnd string

definition serverErr :: "ServerEnd \<Rightarrow> string option" where
  "serverErr e = (case e of GRPCEnd err \<Rightarrow> err | HTTPServerClosed \<Rightarrow> None | HTTPEnd err \<Rightarrow> Some err)"

datatype Wake = CtxDone | ServerStopped ServerEnd

record ServeIO =
  svWake :: Wake
  svGRPCDone :: bool

datatype ServeCall = HealthShutdown | GRPCGracefulStop | HTTPShutdown | GRPCStop

definition serve :: "ServeIO \<Rightarrow> string option \<times> ServeCall list" where
  "serve io =
     (let serveErr = (case svWake io of CtxDone \<Rightarrow> None | ServerStopped e \<Rightarrow> serverErr e);
          calls = [HealthShutdown, GRPCGracefulStop, HTTPShutdown]
      in (serveErr, if svGRPCDone io then calls else calls @ [GRPCStop]))"

text \<open>The joined errors of \<open>serveSampled\<close>: that of \<open>serve\<close>, and those of the flush.\<close>

definition serveSampled :: "('m, 'n, 'q) Wire \<Rightarrow> Mux \<Rightarrow> ('w, 'e) Env \<Rightarrow> ServeIO \<Rightarrow> 'q Call Event list \<Rightarrow> Sampler \<Rightarrow> 'w
    \<Rightarrow> ((string option \<times> 'e WriteError list) \<times> Sampler \<times> 'w) option" where
  "serveSampled W mux E io calls s w =
     (case serveCalls W mux E calls s w of
        None \<Rightarrow> None
      | Some (s, w) \<Rightarrow> map_option (\<lambda>(flushErr, r). ((fst (serve io), flushErr), r)) (Flush E s w))"

text \<open>The environment of the sampler in the daemon. The machine supplies the readings of the clock, the
  outcomes of system calls, and what the goroutine of \<open>evictLoop\<close> did since the last write; the
  world also remembers its ticks, and the spans the store took with the hour they were written.\<close>

record 'c Machine =
  mcClock :: "'c \<Rightarrow> Time \<times> 'c"
  mcSys :: "'c \<Rightarrow> writeIO \<times> 'c"
  mcTicks :: "'c \<Rightarrow> EvictTick list \<times> 'c"

record 'c World =
  wdMachine :: 'c
  wdTicks :: "EvictTick list"
  wdLog :: ackLog
  wdStore :: store

definition evicting :: "'c Machine \<Rightarrow> 'c World \<Rightarrow> 'c World" where
  "evicting M w =
     (let (tks, c) = mcTicks M (wdMachine w)
      in w\<lparr>wdMachine := c, wdTicks := wdTicks w @ tks, wdStore := evictLoop tks (wdStore w)\<rparr>)"

definition storeEnv :: "'c Machine \<Rightarrow> ('c World, DiskError) Env" where
  "storeEnv M =
     \<lparr>eNow = \<lambda>w. let (t, c) = mcClock M (wdMachine w) in (t, w\<lparr>wdMachine := c\<rparr>),
      eWrite = \<lambda>spans w.
        let w = evicting M w; (now, c) = mcClock M (wdMachine w); (io, c) = mcSys M c;
            (err, st) = store_Write now io spans (wdStore w)
        in (err, w\<lparr>wdMachine := c, wdStore := st, wdLog := if err = None then wdLog w @ hourly now spans else wdLog w\<rparr>)\<rparr>"

definition startWorld :: "'c \<Rightarrow> store \<Rightarrow> 'c World" where
  "startWorld c st = \<lparr>wdMachine = c, wdTicks = [], wdLog = [], wdStore = st\<rparr>"

text \<open>\<open>run\<close>: start, serve and flush, and close the store on the way out.\<close>

definition run :: "FlagLib \<Rightarrow> (string \<Rightarrow> string option) \<Rightarrow> string list \<Rightarrow> Time \<Rightarrow> Time \<Rightarrow> openIO \<Rightarrow> Dir
    \<Rightarrow> ('m, 'n, 'q) Wire \<Rightarrow> Mux \<Rightarrow> 'c Machine \<Rightarrow> 'c \<Rightarrow> ServeIO \<Rightarrow> 'q Call Event list \<Rightarrow> bool \<Rightarrow> bool
    \<Rightarrow> (StartError + (string option \<times> DiskError WriteError list) \<times> Sampler \<times> 'c World) option" where
  "run L listen args now now' oio files W mux M c sio calls syncOk closeOk =
     (case startup L listen args now now' oio files of
        None \<Rightarrow> None
      | Some (Inl err) \<Rightarrow> Some (Inl err)
      | Some (Inr (cfg, st, smp)) \<Rightarrow>
          map_option (\<lambda>(errs, smp, w). let w = evicting M w in Inr (errs, smp, w\<lparr>wdStore := snd (store_Close syncOk closeOk (wdStore w))\<rparr>))
            (serveSampled W mux (storeEnv M) sio calls smp (startWorld c st)))"

text \<open>\<open>main\<close>: the exit status.\<close>

definition exitStatus :: "StartError + (string option \<times> 'e WriteError list) \<times> 's \<Rightarrow> int" where
  "exitStatus r =
     (case r of
        Inl err \<Rightarrow> 1
      | Inr ((serveErr, flushErrs), s) \<Rightarrow> if serveErr = None \<and> flushErrs = [] then 0 else 1)"

subsection \<open>Interpretations\<close>

interpretation samplerSink: span_sink "samplerSink E" "\<lambda>sw. stAccepted (smStats (fst sw))" for E
proof unfold_locales
  fix spans sw sw' assume a: "snkAccept (samplerSink E) spans sw = (None, sw')"
  obtain now w0 where now: "eNow E (snd sw) = (now, w0)" by fastforce
  obtain s1 where "acceptLocked now spans (fst sw) = (None, s1)" "fst sw' = s1"
    using a now by (auto simp: samplerSink_def Accept_def split: if_splits prod.splits)
  moreover from this have "stAccepted (smStats s1) = stAccepted (smStats (fst sw)) + int (length spans)" by (intro acceptLocked_counts(1))
  ultimately show "stAccepted (smStats (fst sw')) = stAccepted (smStats (fst sw)) + int (length spans)" by simp
next
  fix spans sw e sw' assume a: "snkAccept (samplerSink E) spans sw = (Some e, sw')"
  obtain now w0 where now: "eNow E (snd sw) = (now, w0)" by fastforce
  obtain err s1 where l: "acceptLocked now spans (fst sw) = (err, s1)" by fastforce
  show "stAccepted (smStats (fst sw')) = stAccepted (smStats (fst sw))"
    using a now l acceptLocked_refused(1) [of now spans "fst sw" e s1] by (auto simp: samplerSink_def Accept_def split: if_splits)
qed

text \<open>The store of the daemon keeps the contract because both kinds do.\<close>

definition store_limit :: "store \<Rightarrow> Duration" where
  "store_limit st = (case st of MemoryStore m \<Rightarrow> mRetention m | DiskStore d \<Rightarrow> dRetention d)"

definition store_holds :: "store \<Rightarrow> ackLog \<Rightarrow> EvictTick list \<Rightarrow> bool" where
  "store_holds st = (case st of MemoryStore m \<Rightarrow> memHolds m | DiskStore d \<Rightarrow> diskHolds d)"

lemma store_Write_kinds:
  "store_Write now io spans (MemoryStore m) = map_prod (\<lambda>e. e) MemoryStore (memoryWrite now io spans m)"
  "store_Write now io spans (DiskStore d) = map_prod (\<lambda>e. e) DiskStore (diskWrite now io spans d)"
  by (simp_all add: store_Write_def memoryWrite_def diskWrite_def split_beta map_prod_def)

lemma store_Write_iff:
  "store_Write now io spans (MemoryStore m) = (err, st) \<longleftrightarrow> (\<exists>m'. memoryWrite now io spans m = (err, m') \<and> st = MemoryStore m')"
  "store_Write now io spans (DiskStore d) = (err, st) \<longleftrightarrow> (\<exists>d'. diskWrite now io spans d = (err, d') \<and> st = DiskStore d')"
  by (auto simp: store_Write_kinds map_prod_def split_beta prod_eq_iff)

lemma store_EvictExpired_kinds:
  "snd (store_EvictExpired tk (MemoryStore m)) = MemoryStore (snd (Memory_EvictExpired (tkNow tk) m))"
  "snd (store_EvictExpired tk (DiskStore d)) = DiskStore (diskEvict tk d)"
  by (simp_all add: store_EvictExpired_def diskEvict_def)

interpretation daemonStore: span_store store_Write store_Trace "\<lambda>tk st. snd (store_EvictExpired tk st)" store_limit store_holds
proof unfold_locales
  fix s s' :: store and es tks now spans io
  assume h: "store_holds s es tks" and now: "in_int64 (time_Unix now)" and ok: "\<forall>sp \<in> set spans. codec_ok sp"
  show "store_holds s' (es @ hourly now spans) tks" if "store_Write now io spans s = (None, s')"
    using that h memoryStore.took [OF _ now ok, of _ es tks io] diskStore.took [OF _ now ok, of _ es tks io]
    by (cases s) (auto simp: store_holds_def store_Write_iff)
  show "store_holds s' es tks" if "store_Write now io spans s = (Some e, s')" for e
    using that h memoryStore.refused [OF _ now ok, of _ es tks io] diskStore.refused [OF _ now ok, of _ es tks io]
    by (cases s) (auto simp: store_holds_def store_Write_iff)
next
  fix s es tks
  assume h: "store_holds s es tks"
  show "store_holds (snd (store_EvictExpired tk s)) es (tks @ [tk])" for tk
    using h memoryStore.evicts diskStore.evicts by (cases s) (simp_all add: store_holds_def store_EvictExpired_kinds)
  show "readable (store_Trace s) sp \<or> expiredBy (store_limit s) tks sp" if "sp \<in> snd ` set es" for sp
    using h that memoryStore.reads diskStore.reads
    by (cases s) (simp_all add: store_holds_def store_limit_def store_Trace_def [abs_def])
next
  fix s tk now io spans
  show "store_limit (snd (store_EvictExpired tk s)) = store_limit s"
    by (cases s) (simp_all add: store_limit_def store_EvictExpired_kinds diskEvict_fields)
  show "store_limit (snd (store_Write now io spans s)) = store_limit s"
    using memoryStore.same_limit(1) diskStore.same_limit(1)
    by (cases s) (simp_all add: store_limit_def store_Write_kinds)
qed

lemma evictLoop_foldl: "evictLoop tks st = foldl (\<lambda>st tk. snd (store_EvictExpired tk st)) st tks"
  by (induction tks arbitrary: st) simp_all

subsection \<open>The policy chain\<close>

lemma samplerConfig_policies:
  assumes "samplerConfig cfg = Some (Inr sc)"
  shows "\<forall>q \<in> set (cPolicies sc). policy q"
  using assms
  by (auto simp: samplerConfig_def Let_def keepErrors.policy_axioms keepSlow.policy_axioms keepFraction.policy_axioms
      split: option.splits sum.splits if_splits)

definition traceFailed :: "Span list \<Rightarrow> bool" where
  "traceFailed spans \<longleftrightarrow> (\<exists>n s. lastSpan spans n = Some s \<and> Failed s)"

definition traceLasts :: "Tree \<Rightarrow> Duration" where
  "traceLasts t = time_Sub (Max (ends (tHeap t) (tRoots t))) (Min (starts (tHeap t) (tRoots t)))"

lemma samplerConfig_decides:
  assumes "samplerConfig cfg = Some (Inr sc)" "Build spans Sealed = Some (Inr t)"
  shows "\<exists>share. NewKeepFraction (keepShare cfg) = Some (Inr share) \<and> Decide t (cPolicies sc) =
    Some (if traceFailed spans then \<lparr>vKeep = True, vReason = ''error''\<rparr>
          else if 0 < keepSlowerThan cfg \<and> keepSlowerThan cfg < traceLasts t then \<lparr>vKeep = True, vReason = ''slow''\<rparr>
          else if randomBits (tTraceID t) < frThreshold share then \<lparr>vKeep = True, vReason = ''sampled''\<rparr>
          else \<lparr>vKeep = False, vReason = ''sampled out''\<rparr>)"
proof -
  obtain share where share: "NewKeepFraction (keepShare cfg) = Some (Inr share)"
    using assms(1) by (auto simp: samplerConfig_def split: option.splits sum.splits)
  have errors: "KeepErrors_Evaluate t = Some (if traceFailed spans then (\<lparr>vKeep = True, vReason = ''error''\<rparr>, True) else (zeroVerdict, False))"
    using KeepErrors_built [OF assms(2)] by (simp add: traceFailed_def)
  have slow: "Trace_Duration t = Some (traceLasts t)"
    using Trace_Duration_roots [OF built_roots [OF assms(2)]] by (simp add: traceLasts_def)
  have "cPolicies sc = (if 0 < keepSlowerThan cfg
      then [KeepErrors_Evaluate, KeepSlow_Evaluate \<lparr>slThreshold = keepSlowerThan cfg\<rparr>, KeepFraction_Evaluate share]
      else [KeepErrors_Evaluate, KeepFraction_Evaluate share])"
    using assms(1) share by (auto simp: samplerConfig_def Let_def)
  with share show ?thesis
    by (simp add: errors KeepSlow_Evaluate_def slow KeepFraction_Evaluate_def)
qed

subsection \<open>An instance for the examples\<close>

definition exampleWire :: "(nat, nat, unit) Wire" where
  "exampleWire = \<lparr>wProto = exampleProto, wText = \<lambda>_. [], wGetResourceSpans = \<lambda>_. [0], wParseMediaType = \<lambda>s. Some s,
     wProtoUnmarshal = \<lambda>_. Inr (), wJSONUnmarshal = \<lambda>_. Inr (), wProtoMarshal = \<lambda>_. Inr [], wJSONMarshal = \<lambda>_. Inr [],
     wQuote = \<lambda>s. s, wGunzip = \<lambda>r. Inr r\<rparr>"

lemma defaultFlags_config: "\<exists>sc s. samplerConfig defaultFlags = Some (Inr sc) \<and> New sc False = Inr s"
proof -
  obtain x where x: "round64 (1 / 10) = FFin x" "0 \<le> x" "x \<le> 1" using round64_between [of "1 / 10" 0] by auto
  have "\<exists>sc. samplerConfig defaultFlags = Some (Inr sc) \<and> config_ok sc"
    using NewKeepFraction_unit(1) [OF x(2,3)] x(1) by (simp add: samplerConfig_def defaultFlags_def config_ok_def Let_def)
  then show ?thesis by (auto simp: New_ok)
qed

subsection \<open>Properties\<close>

text \<open>C39: the policy chain the flags set up. Every trace with an error is kept, then every trace slower
  than the threshold, then the share of the rest its identifier falls into; and the reason says
  which rule decided.\<close>

theorem samplerConfig_keeps:
  assumes "samplerConfig cfg = Some (Inr sc)" "Build spans Sealed = Some (Inr t)"
  shows "\<exists>share. NewKeepFraction (keepShare cfg) = Some (Inr share) \<and> Decide t (cPolicies sc) =
    Some (if traceFailed spans then \<lparr>vKeep = True, vReason = ''error''\<rparr>
          else if 0 < keepSlowerThan cfg \<and> keepSlowerThan cfg < traceLasts t then \<lparr>vKeep = True, vReason = ''slow''\<rparr>
          else if randomBits (tTraceID t) < frThreshold share then \<lparr>vKeep = True, vReason = ''sampled''\<rparr>
          else \<lparr>vKeep = False, vReason = ''sampled out''\<rparr>)"
  by (rule samplerConfig_decides [OF assms])

theorem samplerConfig_keeps_witness:
  "\<exists>sc t. samplerConfig defaultFlags = Some (Inr sc) \<and> Build exampleTrace Sealed = Some (Inr t) \<and> (\<exists>v. Decide t (cPolicies sc) = Some v)"
proof -
  obtain sc where sc: "samplerConfig defaultFlags = Some (Inr sc)" using defaultFlags_config by blast
  obtain t where t: "Build exampleTrace Sealed = Some (Inr t)" using exampleTrace_built by blast
  from samplerConfig_keeps [OF sc t] sc t show ?thesis by blast
qed

end
