(* ===== verification/Daemon_Serve.thy ===== *)
theory Daemon_Serve
  imports Daemon
begin

section \<open>Serving, from the wire to the store\<close>

text \<open>
  What the daemon does with the spans it acknowledged. \<open>serving\<close> is the state between two events:
  no operation of the sampler is in progress, the spans acknowledged so far are the accepted ones,
  and the store has taken the ones that count as kept, in the sense of the contract \<open>span_store\<close>.
\<close>

subsection \<open>Calls and requests\<close>

text \<open>The request that a call brings to \<open>export\<close>, if it brings one.\<close>

definition callRequest :: "('m, 'n, 'q) Wire \<Rightarrow> Mux \<Rightarrow> 'q Call \<Rightarrow> 'q option" where
  "callRequest W mux call =
     (case call of
        GRPCCall req \<Rightarrow> Some req
      | HTTPCall path r \<Rightarrow>
          if mux [TracesPath, healthPath] path = Inr TracesPath then map_option (\<lambda>(mediaType, body, req). req) (decodeRequest W r) else None)"

definition succeeded :: "Answer \<Rightarrow> bool" where
  "succeeded a \<longleftrightarrow> (case a of GRPCAnswer r \<Rightarrow> (\<exists>resp. r = Inr resp) | HTTPAnswer resp \<Rightarrow> rsStatus resp = 200)"

lemma snd_Export: "snd (Export W sink req s) = snd (export_spans W sink req s)"
  by (simp add: Export_def split: prod.split sum.split)

lemma snd_ServeHTTP:
  "snd (ServeHTTP W sink r s) = (case decodeRequest W r of None \<Rightarrow> s | Some (mediaType, body, req) \<Rightarrow> snd (export_spans W sink req s))"
  using ServeHTTP_undecoded [of W r sink s] ServeHTTP_decoded(1) [of W r _ _ _ sink s]
  by (auto split: option.split prod.splits sum.split)

lemma snd_serveCall:
  "snd (serveCall W mux sink call s) = (case callRequest W mux call of None \<Rightarrow> s | Some req \<Rightarrow> snd (export_spans W sink req s))"
  by (cases call) (auto simp: serveCall_def serveMux_def callRequest_def snd_Export snd_ServeHTTP split_beta split: sum.splits option.splits)

text \<open>A call answered with success had its spans accepted.\<close>

lemma serveCall_succeeded:
  assumes "succeeded (fst (serveCall W mux sink call s))" "callRequest W mux call = Some req"
  shows "\<exists>resp. fst (export_spans W sink req s) = Inr resp"
proof (cases call)
  case (GRPCCall req')
  with assms show ?thesis
    by (auto simp: serveCall_def callRequest_def succeeded_def Export_def split_beta split: prod.splits sum.splits)
next
  case (HTTPCall path r)
  then obtain mediaType body where d: "mux [TracesPath, healthPath] path = Inr TracesPath" "decodeRequest W r = Some (mediaType, body, req)"
    using assms(2) by (auto simp: callRequest_def split: if_splits)
  with assms(1) HTTPCall ServeHTTP_decoded(1) [OF d(2), of sink s] show ?thesis
    by (auto simp: serveCall_def serveMux_def succeeded_def http_Error_def split_beta split: prod.splits sum.splits if_splits)
qed

text \<open>Serving calls is serving the requests they bring.\<close>

fun serveEvents :: "('m, 'n, 'q) Wire \<Rightarrow> ('w, 'e) Env \<Rightarrow> 'q Event list \<Rightarrow> Sampler \<Rightarrow> 'w \<Rightarrow> (Sampler \<times> 'w) option" where
  "serveEvents W E [] s w = Some (s, w)"
| "serveEvents W E (Tick # evs) s w = (case Sweep E s w of None \<Rightarrow> None | Some (errs, s, w) \<Rightarrow> serveEvents W E evs s w)"
| "serveEvents W E (Incoming req # evs) s w =
     (let (resp, s, w) = export_spans W (samplerSink E) req (s, w) in serveEvents W E evs s w)"

fun requestsOf :: "('m, 'n, 'q) Wire \<Rightarrow> Mux \<Rightarrow> 'q Call Event list \<Rightarrow> 'q Event list" where
  "requestsOf W mux [] = []"
| "requestsOf W mux (Tick # evs) = Tick # requestsOf W mux evs"
| "requestsOf W mux (Incoming call # evs) = (case callRequest W mux call of None \<Rightarrow> [] | Some req \<Rightarrow> [Incoming req]) @ requestsOf W mux evs"

lemma serveCalls_requests: "serveCalls W mux E calls s w = serveEvents W E (requestsOf W mux calls) s w"
proof (induction W mux E calls s w rule: serveCalls.induct)
  case (3 W mux E call evs s w)
  obtain answer s1 w1 where c: "serveCall W mux (samplerSink E) call (s, w) = (answer, s1, w1)" by (metis surj_pair)
  have IH: "serveCalls W mux E evs s1 w1 = serveEvents W E (requestsOf W mux evs) s1 w1" using 3 c by simp
  from snd_serveCall [of W mux "samplerSink E" call "(s, w)"] c IH show ?case
    by (cases "callRequest W mux call") (auto simp: split_beta dest!: sym [of "(s1, w1)"])
qed (auto split: option.split)

subsection \<open>Acknowledged spans\<close>

text \<open>The spans of the requests that the sampler accepted; the calls answered with success brought those.\<close>

fun ackedSpans :: "('m, 'n, 'q) Wire \<Rightarrow> ('w, 'e) Env \<Rightarrow> 'q Event list \<Rightarrow> Sampler \<Rightarrow> 'w \<Rightarrow> Span multiset" where
  "ackedSpans W E [] s w = {#}"
| "ackedSpans W E (Tick # evs) s w = (case Sweep E s w of None \<Rightarrow> {#} | Some (errs, s, w) \<Rightarrow> ackedSpans W E evs s w)"
| "ackedSpans W E (Incoming req # evs) s w =
     (let (resp, s, w) = export_spans W (samplerSink E) req (s, w)
      in (case resp of Inl err \<Rightarrow> {#} | Inr r \<Rightarrow> mset (fst (Translate (wProto W) (wGetResourceSpans W req)))) + ackedSpans W E evs s w)"

text \<open>The lengths of Go's strings and slices are ints.\<close>

definition sizedAttrs :: "KeyValue list \<Rightarrow> bool" where
  "sizedAttrs kvs \<longleftrightarrow> fits kvs \<and> (\<forall>kv \<in> set kvs. fits (kvKey kv) \<and> fits (vStr (kvValue kv)))"

definition sized :: "Span \<Rightarrow> bool" where
  "sized sp \<longleftrightarrow> fits (sName sp) \<and> fits (sService sp) \<and> fits (stMessage (sStatus sp)) \<and> sizedAttrs (sAttributes sp) \<and> sizedAttrs (sResource sp)"

definition requestSpans :: "('m, 'n, 'q) Wire \<Rightarrow> 'q Event list \<Rightarrow> Span set" where
  "requestSpans W events = (\<Union>req \<in> {req. Incoming req \<in> set events}. set (fst (Translate (wProto W) (wGetResourceSpans W req))))"

lemma requestSpans_Cons:
  "requestSpans W (Tick # events) = requestSpans W events"
  "requestSpans W (Incoming req # events) = set (fst (Translate (wProto W) (wGetResourceSpans W req))) \<union> requestSpans W events"
  by (auto simp: requestSpans_def)

lemma requestSpans_valid: "sp \<in> requestSpans W events \<Longrightarrow> wf_Span sp \<and> Validate sp = None"
  using outcomes_valid by (fastforce simp: requestSpans_def Translate_outcomes set_accepted)

lemma requestSpans_codec_ok:
  assumes "sp \<in> requestSpans W events" "sized sp"
  shows "codec_ok sp"
proof -
  have "in_int64 (sStart sp)" "in_int64 (sEnd sp)"
    using assms(1) outcomes_int64 by (fastforce simp: requestSpans_def Translate_outcomes set_accepted)+
  then show ?thesis
    using requestSpans_valid [OF assms(1)] assms(2) by (auto simp: codec_ok_def sized_def sizedAttrs_def attrs_ok_def kv_ok_def wf_Span_def)
qed

subsection \<open>The store in the world\<close>

definition clockOk :: "'c Machine \<Rightarrow> bool" where
  "clockOk M \<longleftrightarrow> (\<forall>c. in_int64 (time_Unix (fst (mcClock M c))))"

definition on_disk :: "store \<Rightarrow> bool" where
  "on_disk st \<longleftrightarrow> (case st of MemoryStore m \<Rightarrow> False | DiskStore d \<Rightarrow> True)"

text \<open>The store opened for these flags has taken the spans \<open>xs\<close> in this session, on top of what it had
  at its start, given as a log and the evictions before it.\<close>

type_synonym before = "ackLog \<times> EvictTick list"

definition worldHolds :: "'c World \<Rightarrow> before \<Rightarrow> Span multiset \<Rightarrow> config \<Rightarrow> bool" where
  "worldHolds w base xs flags \<longleftrightarrow> store_holds (wdStore w) (fst base @ wdLog w) (snd base @ wdTicks w)
     \<and> mset (map snd (wdLog w)) = xs \<and> store_limit (wdStore w) = retention flags \<and> (on_disk (wdStore w) \<longleftrightarrow> dataDir flags \<noteq> [])"

lemma on_disk_ops: "on_disk (snd (store_Write now io spans st)) = on_disk st" "on_disk (evictLoop tks st) = on_disk st"
proof -
  show "on_disk (snd (store_Write now io spans st)) = on_disk st"
    by (cases st) (simp_all add: on_disk_def store_Write_kinds)
  show "on_disk (evictLoop tks st) = on_disk st"
    by (induction tks arbitrary: st) (simp_all add: on_disk_def store_EvictExpired_def split: store.split)
qed

lemma worldHolds_evicting: "worldHolds w base xs flags \<Longrightarrow> worldHolds (evicting M w) base xs flags"
  using daemonStore.evict_all [of "wdStore w" "fst base @ wdLog w" "snd base @ wdTicks w"] daemonStore.evict_all_limit on_disk_ops(2)
  by (simp add: worldHolds_def evicting_def evictLoop_foldl split_beta)

lemma worldHolds_put:
  assumes "worldHolds w base xs flags" "in_int64 (time_Unix now)" "\<forall>sp \<in> set spans. codec_ok sp"
    and "store_Write now io spans (wdStore w) = (err, st)" "wdStore w' = st" "wdTicks w' = wdTicks w"
    and "wdLog w' = (if err = None then wdLog w @ hourly now spans else wdLog w)"
  shows "worldHolds w' base (if err = None then xs + mset spans else xs) flags"
proof -
  have h: "store_holds (wdStore w) (fst base @ wdLog w) (snd base @ wdTicks w)" "mset (map snd (wdLog w)) = xs"
    "store_limit (wdStore w) = retention flags" "on_disk (wdStore w) \<longleftrightarrow> dataDir flags \<noteq> []"
    using assms(1) by (simp_all add: worldHolds_def)
  have "store_limit st = retention flags" "on_disk st \<longleftrightarrow> dataDir flags \<noteq> []"
    using daemonStore.same_limit(1) [of now io spans "wdStore w"] on_disk_ops(1) [of now io spans "wdStore w"] assms(4) h(3,4) by simp_all
  then show ?thesis
    using daemonStore.took [OF h(1) assms(2,3)] daemonStore.refused [OF h(1) assms(2,3)] assms(4-7) h(2)
    by (cases err) (auto simp: worldHolds_def comp_def)
qed

lemma worldHolds_write:
  assumes "worldHolds w base xs flags" "clockOk M" "\<forall>sp \<in> set spans. codec_ok sp" "eWrite (storeEnv M) spans w = (err, w')"
  shows "worldHolds w' base (if err = None then xs + mset spans else xs) flags"
proof -
  let ?w = "evicting M w"
  define now where "now = fst (mcClock M (wdMachine ?w))"
  define io where "io = fst (mcSys M (snd (mcClock M (wdMachine ?w))))"
  obtain st where st: "store_Write now io spans (wdStore ?w) = (err, st)" "wdStore w' = st" "wdTicks w' = wdTicks ?w"
    "wdLog w' = (if err = None then wdLog ?w @ hourly now spans else wdLog ?w)"
    using assms(4) by (auto simp: storeEnv_def Let_def now_def io_def split: prod.splits)
  have now: "in_int64 (time_Unix now)" using assms(2) by (simp add: clockOk_def now_def)
  show ?thesis by (rule worldHolds_put [OF worldHolds_evicting [OF assms(1)] now assms(3) st])
qed

lemma worldHolds_run:
  assumes "env_run (storeEnv M) S w xs w'" "clockOk M" "\<forall>sp \<in> S. codec_ok sp" "worldHolds w base ys flags"
  shows "worldHolds w' base (ys + xs) flags"
  using assms
proof (induction rule: env_run.induct)
  case (clock w xs w1 t w')
  then show ?case by (auto simp: storeEnv_def worldHolds_def split: prod.splits)
next
  case (took w xs w1 spans w')
  with worldHolds_write [of w1 base "ys + xs" flags M spans None w'] show ?case by (auto simp: add.assoc)
next
  case (failed w xs w1 spans e w')
  with worldHolds_write [of w1 base "ys + xs" flags M spans "Some e" w'] show ?case by auto
qed simp

subsection \<open>Between two events\<close>

definition serving :: "'c Machine \<Rightarrow> config \<Rightarrow> before \<Rightarrow> Config \<Rightarrow> Span multiset \<Rightarrow> Sampler \<Rightarrow> 'c World \<Rightarrow> bool" where
  "serving M flags base cfg acked s w \<longleftrightarrow> clockOk M \<and> (\<forall>sp \<in># acked. codec_ok sp)
     \<and> (\<exists>y. sys_reach cfg y \<and> sySampler y = s \<and> inFlight y = [] \<and> syLate y = []
          \<and> syAccepted y = acked \<and> worldHolds w base (syKept y + syLateKept y) flags)"

lemma serving_new: "New cfg False = Inr s \<Longrightarrow> clockOk M \<Longrightarrow> worldHolds w base {#} flags \<Longrightarrow> serving M flags base cfg {#} s w"
  unfolding serving_def using sys_reach.start [of cfg s]
  by (intro conjI exI [of _ "initSystem s"]) (simp_all add: initSystem_def inFlight_def)

lemma serving_Accept:
  assumes "serving M flags base cfg acked s w" "Accept (storeEnv M) spans s w = (err, s', w')" "\<forall>sp \<in> set spans. codec_ok sp"
  shows "serving M flags base cfg (if err = None then acked + mset spans else acked) s' w'"
proof (cases "cMaxSpans (smConfig s) < int (length spans)")
  case True
  then have "s' = s" "w' = w" "err \<noteq> None" using assms(2) by (auto simp: Accept_def)
  with assms(1) show ?thesis by auto
next
  case False
  obtain y where y: "sys_reach cfg y" "sySampler y = s" "inFlight y = []" "syLate y = []" "syAccepted y = acked"
    "worldHolds w base (syKept y + syLateKept y) flags" using assms(1) by (auto simp: serving_def)
  obtain now w1 where now: "eNow (storeEnv M) w = (now, w1)" by fastforce
  have a: "acceptLocked now spans (sySampler y) = (err, s')" "w' = w1"
    using assms(2) False now y(2) by (auto simp: Accept_def split: prod.splits)
  have holds: "worldHolds w' base (syKept y + syLateKept y) flags"
    using y(6) now a(2) by (auto simp: storeEnv_def worldHolds_def split: prod.splits)
  have "\<exists>y'. sys_step y y' \<and> sySampler y' = s' \<and> inFlight y' = [] \<and> syLate y' = []
    \<and> syAccepted y' = (if err = None then acked + mset spans else acked) \<and> syKept y' = syKept y \<and> syLateKept y' = syLateKept y"
  proof (cases err)
    case None
    show ?thesis using y(3-5) None by (intro exI conjI) (rule sys_step.accepted [OF a(1) [unfolded None]], simp_all add: inFlight_def)
  next
    case (Some x)
    show ?thesis using y(3-5) Some by (intro exI conjI) (rule sys_step.refused [OF a(1) [unfolded Some]], simp_all add: inFlight_def)
  qed
  then obtain y' where "sys_step y y'" "sySampler y' = s'" "inFlight y' = []" "syLate y' = []"
    "syAccepted y' = (if err = None then acked + mset spans else acked)" "syKept y' = syKept y" "syLateKept y' = syLateKept y" by blast
  moreover have "clockOk M" "\<forall>sp \<in># (if err = None then acked + mset spans else acked). codec_ok sp"
    using assms(1,3) by (auto simp: serving_def)
  ultimately show ?thesis unfolding serving_def using sys_reach.next_step [OF y(1)] holds by metis
qed

lemma serving_moves:
  assumes "moves (storeEnv M) y w y' w'" "sys_reach cfg y" "mset (syReady y') = mset (syReady y)" "syRuled y' = syRuled y"
    "mset (syLate y') = mset (syLate y)" "inFlight y = []" "syLate y = []" "clockOk M" "\<forall>sp \<in># syAccepted y. codec_ok sp"
    "worldHolds w base (syKept y + syLateKept y) flags"
  shows "sys_reach cfg y'" "inFlight y' = []" "syLate y' = []" "syAccepted y' = syAccepted y" "worldHolds w' base (syKept y' + syLateKept y') flags"
proof -
  obtain xs where xs: "env_run (storeEnv M) (set_mset (syAccepted y)) w xs w'" "syKept y' + syLateKept y' = syKept y + syLateKept y + xs"
    "syAccepted y' = syAccepted y"
    using assms(1) by (auto simp: moves_def)
  show "sys_reach cfg y'" using runs_to_reach [OF moves_runs [OF assms(1)] assms(2)] .
  show "inFlight y' = []" "syLate y' = []" using assms(3-7) by (auto simp: inFlight_def)
  show "syAccepted y' = syAccepted y" by (rule xs(3))
  show "worldHolds w' base (syKept y' + syLateKept y') flags" unfolding xs(2) by (rule worldHolds_run [OF xs(1) assms(8,9,10)])
qed

lemma serving_Sweep:
  assumes "serving M flags base cfg acked s w" "\<forall>q \<in> set (cPolicies cfg). policy q"
  shows "\<exists>errs s' w'. Sweep (storeEnv M) s w = Some (errs, s', w') \<and> serving M flags base cfg acked s' w'"
proof -
  obtain y where y: "sys_reach cfg y" "sySampler y = s" "inFlight y = []" "syLate y = []" "syAccepted y = acked"
    "worldHolds w base (syKept y + syLateKept y) flags" and ok: "clockOk M" "\<forall>sp \<in># syAccepted y. codec_ok sp"
    using assms(1) by (auto simp: serving_def)
  have "sys_inv y" "smConfig (sySampler y) = cfg" using sys_reach_inv [OF y(1)] sys_reach_config [OF y(1)] by blast+
  then obtain errs s' w' y' where r: "Sweep (storeEnv M) s w = Some (errs, s', w')" "moves (storeEnv M) y w y' w'" "sySampler y' = s'"
    "mset (syReady y') = mset (syReady y)" "syRuled y' = syRuled y" "mset (syLate y') = mset (syLate y)"
    using Sweep_runs [of y, where E = "storeEnv M" and w = w] assms(2) y(2) by auto
  from serving_moves [OF r(2) y(1) r(4-6) y(3,4) ok y(6)] r(1,3) y(5) ok show ?thesis by (auto simp: serving_def)
qed

text \<open>After the flush the sampler is empty: what was acknowledged was taken by the store, refused by
  it, or dropped.\<close>

lemma serving_Flush:
  assumes "serving M flags base cfg acked s w" "\<forall>q \<in> set (cPolicies cfg). policy q"
  shows "\<exists>errs s' w' written lost dropped. Flush (storeEnv M) s w = Some (errs, s', w') \<and> heldBag s' = {#} \<and> smConfig s' = cfg
    \<and> acked = written + lost + dropped \<and> worldHolds w' base written flags
    \<and> stBuffered (smStats s') = 0 \<and> stLost (smStats s') = int (size lost)
    \<and> stDroppedSpans (smStats s') + stLateDropped (smStats s') = int (size dropped)"
proof -
  obtain y where y: "sys_reach cfg y" "sySampler y = s" "inFlight y = []" "syLate y = []" "syAccepted y = acked"
    "worldHolds w base (syKept y + syLateKept y) flags" and ok: "clockOk M" "\<forall>sp \<in># syAccepted y. codec_ok sp"
    using assms(1) by (auto simp: serving_def)
  have "sys_inv y" "smConfig (sySampler y) = cfg" using sys_reach_inv [OF y(1)] sys_reach_config [OF y(1)] by blast+
  then obtain errs s' w' y' where r: "Flush (storeEnv M) s w = Some (errs, s', w')" "moves (storeEnv M) y w y' w'" "sySampler y' = s'"
    "mset (syReady y') = mset (syReady y)" "syRuled y' = syRuled y" "mset (syLate y') = mset (syLate y)" "smPending s' = fmempty" "smLate s' = fmempty"
    using Flush_runs [of y, where E = "storeEnv M" and w = w] assms(2) y(2) by auto
  note m = serving_moves [OF r(2) y(1) r(4-6) y(3,4) ok y(6)]
  have inv: "sys_inv y'" by (rule sys_reach_inv [OF m(1)])
  note d = drained [OF inv m(2,3), unfolded r(3), OF r(7,8)]
  have "stDroppedSpans (smStats s') + stLateDropped (smStats s') = int (size (syDropped y'))"
    using inv r(3) by (simp add: sys_inv_def counted_def Let_def)
  moreover have "smConfig s' = cfg" using sys_reach_config [OF m(1)] r(3) by simp
  moreover have "acked = (syKept y' + syLateKept y') + syLost y' + syDropped y'" using d(4) m(4) y(5) by simp
  ultimately show ?thesis using r(1) d(1-3) m(5) by blast
qed

subsection \<open>One export, and the sequence of events\<close>

lemma export_serving:
  assumes "serving M flags base cfg acked s w" "export_spans W (samplerSink (storeEnv M)) req (s, w) = (resp, s', w')"
    "Translate (wProto W) (wGetResourceSpans W req) = (spans, rejections)" "\<forall>sp \<in> set spans. codec_ok sp"
  shows "serving M flags base cfg (acked + (case resp of Inl err \<Rightarrow> {#} | Inr r \<Rightarrow> mset spans)) s' w'"
proof (cases "spans = []")
  case True
  then have "s' = s" "w' = w" using assms(2,3) by (auto simp: export_spans_def)
  with assms(1) True show ?thesis by (auto split: sum.split)
next
  case False
  obtain err s1 w1 where a: "Accept (storeEnv M) spans s w = (err, s1, w1)" by (metis surj_pair)
  then have "s' = s1" "w' = w1" "case resp of Inl e \<Rightarrow> err = Some e | Inr r \<Rightarrow> err = None"
    using assms(2,3) False by (auto simp: export_spans_def samplerSink_def split: option.splits)
  with serving_Accept [OF assms(1) a assms(4)] show ?thesis by (auto split: sum.splits)
qed

lemma serveEvents_serving:
  assumes "serving M flags base cfg acked s w" "\<forall>q \<in> set (cPolicies cfg). policy q" "\<forall>sp \<in> requestSpans W events. sized sp"
  shows "\<exists>s' w'. serveEvents W (storeEnv M) events s w = Some (s', w')
    \<and> serving M flags base cfg (acked + ackedSpans W (storeEnv M) events s w) s' w'"
  using assms(1,3)
proof (induction events arbitrary: s w acked)
  case (Cons ev events)
  show ?case
  proof (cases ev)
    case Tick
    obtain errs s1 w1 where s: "Sweep (storeEnv M) s w = Some (errs, s1, w1)" "serving M flags base cfg acked s1 w1"
      using serving_Sweep [OF Cons.prems(1) assms(2)] by blast
    with Cons.IH [OF s(2)] Cons.prems(2) Tick show ?thesis by (simp add: requestSpans_Cons)
  next
    case (Incoming req)
    obtain resp s1 w1 where e: "export_spans W (samplerSink (storeEnv M)) req (s, w) = (resp, s1, w1)" by (metis surj_pair)
    obtain spans rejections where t: "Translate (wProto W) (wGetResourceSpans W req) = (spans, rejections)" by fastforce
    have "\<forall>sp \<in> set spans. codec_ok sp"
      using requestSpans_codec_ok [of _ W "ev # events"] Cons.prems(2) t by (simp add: requestSpans_Cons Incoming)
    note srv = export_serving [OF Cons.prems(1) e t this]
    have "ackedSpans W (storeEnv M) (ev # events) s w
        = (case resp of Inl err \<Rightarrow> {#} | Inr r \<Rightarrow> mset spans) + ackedSpans W (storeEnv M) events s1 w1"
      using e t Incoming by (simp split: sum.split)
    with Cons.IH [OF srv] Cons.prems(2) e Incoming show ?thesis by (auto simp: add.assoc requestSpans_Cons)
  qed
qed simp

lemma serveSampled_accounts:
  assumes "samplerConfig cfg = Some (Inr sc)" "New sc False = Inr s" "clockOk M" "worldHolds w base {#} flags"
    "\<forall>sp \<in> requestSpans W (requestsOf W mux calls). sized sp"
  shows "\<exists>errs s' w' written lost dropped. serveSampled W mux (storeEnv M) io calls s w = Some ((fst (serve io), errs), s', w')
    \<and> heldBag s' = {#} \<and> smConfig s' = sc \<and> ackedSpans W (storeEnv M) (requestsOf W mux calls) s w = written + lost + dropped \<and> worldHolds w' base written flags
    \<and> stBuffered (smStats s') = 0 \<and> stLost (smStats s') = int (size lost)
    \<and> stDroppedSpans (smStats s') + stLateDropped (smStats s') = int (size dropped)"
proof -
  have pol: "\<forall>q \<in> set (cPolicies sc). policy q" by (rule samplerConfig_policies [OF assms(1)])
  obtain s1 w1 where e: "serveEvents W (storeEnv M) (requestsOf W mux calls) s w = Some (s1, w1)"
    "serving M flags base sc (ackedSpans W (storeEnv M) (requestsOf W mux calls) s w) s1 w1"
    using serveEvents_serving [OF serving_new [OF assms(2,3)] pol assms(5), of w] assms(4) by fastforce
  from serving_Flush [OF e(2) pol] e(1) show ?thesis by (fastforce simp: serveSampled_def serveCalls_requests)
qed

subsection \<open>A store that works\<close>

text \<open>The in-memory store takes every valid span. The disk store takes those whose record is not over
  the limit, as long as its system calls succeed.\<close>

definition storable :: "bool \<Rightarrow> Span \<Rightarrow> bool" where
  "storable onDisk sp \<longleftrightarrow> Validate sp = None \<and> (onDisk \<longrightarrow> recordable sp)"

definition workingStore :: "bool \<Rightarrow> store \<Rightarrow> bool" where
  "workingStore onDisk st \<longleftrightarrow> (case st of MemoryStore m \<Rightarrow> \<not> onDisk \<and> \<not> mClosed m
     | DiskStore d \<Rightarrow> onDisk \<and> \<not> dClosed d \<and> segOpen d \<and> \<not> dDirty d \<and> (\<exists>log. disk_reach d log))"

definition working :: "'c Machine \<Rightarrow> bool \<Rightarrow> 'c World \<Rightarrow> bool" where
  "working M onDisk w \<longleftrightarrow> workingStore onDisk (wdStore w) \<and> clockOk M \<and> (onDisk \<longrightarrow> (\<forall>c. writeOk (fst (mcSys M c))))"

lemma workingStore_evict: "workingStore onDisk st \<Longrightarrow> workingStore onDisk (snd (store_EvictExpired tk st))"
  using Memory_EvictExpired_closed reach_evicted
  by (cases st) (fastforce simp: workingStore_def store_EvictExpired_kinds diskEvict_fields segOpen_def)+

lemma workingStore_evictLoop: "workingStore onDisk st \<Longrightarrow> workingStore onDisk (evictLoop tks st)"
  by (induction tks arbitrary: st) (simp_all add: workingStore_evict)

lemma workingStore_Write:
  assumes "workingStore onDisk st" "\<forall>sp \<in> set spans. storable onDisk sp" "in_int64 (time_Unix now)" "onDisk \<longrightarrow> writeOk io"
  shows "fst (store_Write now io spans st) = None \<and> workingStore onDisk (snd (store_Write now io spans st))"
proof (cases st)
  case (MemoryStore m)
  with assms(1,2) firstInvalid_None_iff [of 0 spans] show ?thesis
    by (simp add: store_Write_def workingStore_def storable_def Memory_Write_def)
next
  case (DiskStore d)
  then have d: "onDisk" "\<not> dClosed d" "segOpen d" "\<not> dDirty d" using assms(1) by (simp_all add: workingStore_def)
  obtain log where log: "disk_reach d log" using assms(1) DiskStore by (auto simp: workingStore_def)
  have wr: "writable spans" "\<forall>sp \<in> set spans. codec_ok sp" using assms(2) d(1) by (auto simp: writable_def storable_def recordable_def)
  have "\<not> mClosed (dMem d)" using reach_disk_inv [OF log] d(2) by (simp add: disk_inv_def)
  then obtain d' where w: "Disk_Write now io d spans = (None, d')" using Disk_Write_ok [OF _ d(3) wr(1) d(2)] assms(4) d(1) by blast
  have "disk_reach d' (log @ map (Pair (hourOf now)) spans)" by (rule disk_reach.wrote [OF log assms(3) wr(2) w])
  then show ?thesis
    using w d Disk_Write_keeps [OF w] Disk_Write_segOpen [OF w] Disk_Write_clean [OF w] by (auto simp: DiskStore store_Write_def workingStore_def)
qed

interpretation workingWriter: clean_writer "storeEnv M" "storable onDisk" "working M onDisk" for M onDisk
proof unfold_locales
  fix w assume "working M onDisk w"
  then show "working M onDisk (snd (eNow (storeEnv M) w))" by (simp add: working_def storeEnv_def split_beta)
next
  fix w spans assume w: "working M onDisk w" and ok: "\<forall>sp \<in> set spans. storable onDisk sp"
  let ?w = "evicting M w"
  have st: "workingStore onDisk (wdStore ?w)"
    using w workingStore_evictLoop by (simp add: working_def evicting_def split_beta)
  have "in_int64 (time_Unix (fst (mcClock M c)))" "onDisk \<longrightarrow> writeOk (fst (mcSys M c))" for c
    using w by (simp_all add: working_def clockOk_def)
  from workingStore_Write [OF st ok this]
  show "fst (eWrite (storeEnv M) spans w) = None \<and> working M onDisk (snd (eWrite (storeEnv M) spans w))"
    using w by (simp add: working_def storeEnv_def Let_def split_beta)
qed

lemma export_clean:
  assumes "workingWriter.clean_state onDisk M s w" "export_spans W (samplerSink (storeEnv M)) req (s, w) = (resp, s', w')"
    "\<forall>sp \<in> set (fst (Translate (wProto W) (wGetResourceSpans W req))). storable onDisk sp"
  shows "workingWriter.clean_state onDisk M s' w' \<and> stLost (smStats s') = stLost (smStats s)"
proof -
  obtain spans rejections where t: "Translate (wProto W) (wGetResourceSpans W req) = (spans, rejections)" by fastforce
  have ok: "\<forall>sp \<in> set spans. storable onDisk sp" using assms(3) t by simp
  show ?thesis
  proof (cases "spans = []")
    case True
    then have "s' = s" "w' = w" using assms(2) t by (auto simp: export_spans_def)
    with assms(1) show ?thesis by simp
  next
    case False
    obtain err s1 w1 where a: "Accept (storeEnv M) spans s w = (err, s1, w1)" by (metis surj_pair)
    then have "s' = s1" "w' = w1" using assms(2) t False by (auto simp: export_spans_def samplerSink_def split: option.splits)
    with workingWriter.Accept_clean [OF assms(1) ok a] show ?thesis by simp
  qed
qed

lemma serveEvents_clean:
  assumes "workingWriter.clean_state onDisk M s w" "\<forall>sp \<in> requestSpans W events. storable onDisk sp"
    "serveEvents W (storeEnv M) events s w = Some (s', w')"
  shows "workingWriter.clean_state onDisk M s' w' \<and> stLost (smStats s') = stLost (smStats s)"
  using assms
proof (induction events arbitrary: s w)
  case (Cons ev events)
  show ?case
  proof (cases ev)
    case Tick
    obtain errs s1 w1 where s: "Sweep (storeEnv M) s w = Some (errs, s1, w1)" "serveEvents W (storeEnv M) events s1 w1 = Some (s', w')"
      using Cons.prems(3) Tick by (auto split: option.splits)
    from workingWriter.Sweep_clean [OF Cons.prems(1) s(1)] Cons.IH [OF _ _ s(2)] Cons.prems(2) Tick show ?thesis by (simp add: requestSpans_Cons)
  next
    case (Incoming req)
    obtain resp s1 w1 where e: "export_spans W (samplerSink (storeEnv M)) req (s, w) = (resp, s1, w1)" by (metis surj_pair)
    from export_clean [OF Cons.prems(1) e] Cons.IH [of s1 w1] Cons.prems(2,3) e Incoming show ?thesis by (simp add: requestSpans_Cons)
  qed
qed simp

lemma serveSampled_clean:
  assumes "New sc False = Inr s" "working M onDisk w" "\<forall>sp \<in> requestSpans W (requestsOf W mux calls). storable onDisk sp"
    "serveSampled W mux (storeEnv M) io calls s w = Some ((serveErr, errs), s', w')"
  shows "errs = [] \<and> stLost (smStats s') = 0 \<and> working M onDisk w'"
proof -
  obtain s1 w1 where e: "serveEvents W (storeEnv M) (requestsOf W mux calls) s w = Some (s1, w1)" "Flush (storeEnv M) s1 w1 = Some (errs, s', w')"
    using assms(4) by (auto simp: serveSampled_def serveCalls_requests split: option.splits)
  have start: "workingWriter.clean_state onDisk M s w" "stLost (smStats s) = 0"
    using New_inv [OF assms(1)] assms(1,2) by (simp_all add: workingWriter.clean_state_def all_ok_def New_ok heldBag_def zeroStats_def)
  note c = serveEvents_clean [OF start(1) assms(3) e(1)]
  from workingWriter.Flush_clean [OF conjunct1 [OF c] e(2)] c start(2) show ?thesis by (simp add: workingWriter.clean_state_def)
qed

subsection \<open>Starting and stopping\<close>

lemma openStore_holds:
  fixes log :: ackLog
  assumes "openStore now now' io files cfg = Inr st" "restorable files log"
  shows "worldHolds (startWorld c st) ([], []) {#} cfg" "workingStore (dataDir cfg \<noteq> []) st"
    "dataDir cfg \<noteq> [] \<Longrightarrow> \<exists>tail. worldHolds (startWorld c st) (log @ tail, [openTick now now' io]) {#} cfg"
proof -
  have "store_holds st [] [] \<and> store_limit st = retention cfg \<and> (on_disk st \<longleftrightarrow> dataDir cfg \<noteq> []) \<and> workingStore (dataDir cfg \<noteq> []) st
    \<and> (dataDir cfg \<noteq> [] \<longrightarrow> (\<exists>tail. store_holds st (log @ tail) [openTick now now' io]))"
  proof (cases "dataDir cfg = []")
    case True
    then have "st = MemoryStore (NewMemory (retention cfg))" using assms(1) by (simp add: openStore_def)
    then show ?thesis
      using True mem_inv_New [of "retention cfg"] by (simp add: store_holds_def memHolds_def store_limit_def on_disk_def workingStore_def NewMemory_def)
  next
    case False
    then obtain d where d: "OpenDisk now now' io (retention cfg) files = Inr d" "st = DiskStore d"
      using assms(1) by (auto simp: openStore_def split: sum.splits)
    obtain tail where h: "diskHolds d (log @ tail) [openTick now now' io]" "dRetention d = retention cfg" "dSeg d = None" "\<not> dDirty d"
      using OpenDisk_holds [OF assms(2) d(1)] by blast
    from h diskHolds_empty [OF h(1)] False show ?thesis
      by (auto simp: d(2) store_holds_def store_limit_def on_disk_def workingStore_def diskHolds_def segOpen_def)
  qed
  then show "worldHolds (startWorld c st) ([], []) {#} cfg" "workingStore (dataDir cfg \<noteq> []) st"
    "dataDir cfg \<noteq> [] \<Longrightarrow> \<exists>tail. worldHolds (startWorld c st) (log @ tail, [openTick now now' io]) {#} cfg"
    by (simp_all add: worldHolds_def startWorld_def)
qed

lemma startup_parts:
  assumes "startup L listen args now now' oio files = Some (Inr (cfg, st, smp))"
  obtains sc where "samplerConfig cfg = Some (Inr sc)" "openStore now now' oio files cfg = Inr st" "New sc False = Inr smp"
  using assms by (auto simp: startup_def split: sum.splits option.splits)

text \<open>Starting again on what a stop left.\<close>

lemma restarted:
  assumes "startup L listen args now now' oio files = Some (Inr (cfg, st, smp))"
    and "worldHolds w base xs cfg" "wdStore w = DiskStore d" "\<And>log. disk_reach d log \<Longrightarrow> restorable left log" "openOk oio2"
  shows "\<exists>d2 smp2 log2. startup L listen args t t' oio2 left = Some (Inr (cfg, DiskStore d2, smp2))
    \<and> restorable left log2
    \<and> (\<forall>(h, sp) \<in> set (fst base @ wdLog w). readable (store_Trace (DiskStore d2)) sp \<or> expiredBy (retention cfg) [openTick t t' oio2] sp
        \<or> agedOut (retention cfg) (snd base @ wdTicks w) h)"
proof -
  have d: "diskHolds d (fst base @ wdLog w) (snd base @ wdTicks w)" "dRetention d = retention cfg" "dataDir cfg \<noteq> []"
    using assms(2,3) by (simp_all add: worldHolds_def store_holds_def store_limit_def on_disk_def)
  obtain log2 d2 where d2: "restorable left log2" "OpenDisk t t' oio2 (retention cfg) left = Inr d2"
    "\<forall>(h, sp) \<in> set (fst base @ wdLog w). readable (Disk_Trace d2) sp \<or> expiredBy (retention cfg) [openTick t t' oio2] sp
        \<or> agedOut (retention cfg) (snd base @ wdTicks w) h"
    using reopened_reads [OF d(1) assms(4,5), of t t' "retention cfg"] unfolding d(2) by blast
  have "openStore t t' oio2 left cfg = Inr (DiskStore d2)" using d2(2) d(3) by (simp add: openStore_def)
  then have "startup L listen args t t' oio2 left = Some (Inr (cfg, DiskStore d2, smp))"
    using assms(1) by (auto simp: startup_def split: sum.splits option.splits)
  moreover have "store_Trace (DiskStore d2) = Disk_Trace d2" by (simp add: store_Trace_def [abs_def])
  ultimately show ?thesis using d2(1,3) by (intro exI [of _ d2] exI [of _ smp] exI [of _ log2]) simp
qed

subsection \<open>An example\<close>

definition exampleMachine :: "nat Machine" where
  "exampleMachine = \<lparr>mcClock = \<lambda>n. (int n mod 2 ^ 32, n + 1), mcSys = \<lambda>n. (okWrite, n), mcTicks = \<lambda>n. ([], n)\<rparr>"

lemma exampleMachine_ok: "clockOk exampleMachine" "writeOk (fst (mcSys exampleMachine c))"
proof -
  have "0 \<le> int n mod 2 ^ 32 div Second" "int n mod 2 ^ 32 div Second \<le> 2 ^ 32" for n
    using zdiv_mono2 [of "int n mod 2 ^ 32" 1 Second] by (simp_all add: pos_imp_zdiv_nonneg_iff)
  then show "clockOk exampleMachine" by (force simp: clockOk_def exampleMachine_def time_Unix_def in_int64_def)
qed (simp add: exampleMachine_def writeOk_def okWrite_def)

lemma serve_done: "fst (serve \<lparr>svWake = CtxDone, svGRPCDone = True\<rparr>) = None"
  by (simp add: serve_def)

lemma samplerConfig_buffer: "samplerConfig cfg = Some (Inr sc) \<Longrightarrow> cMaxSpans sc = sampleBuffer cfg"
  by (auto simp: samplerConfig_def Let_def split: option.splits sum.splits)

lemma length_exampleWire: "length (payloadOf (hd (fst (Translate exampleProto [0])))) = 59"
  by code_simp

lemma exampleWire_spans:
  "\<exists>span rejections. Translate (wProto exampleWire) (wGetResourceSpans exampleWire ()) = ([span], rejections) \<and> sized span \<and> storable True span"
proof -
  obtain span rejections where t: "Translate exampleProto [0] = ([span], rejections)" "sized span"
    using exampleProto_outcomes Translate_outcomes [of exampleProto "[0]"]
    by (auto simp: accepted_def sized_def sizedAttrs_def fits_def unknownService_def)
  have r: "span \<in> requestSpans exampleWire [Incoming ()]" using t(1) by (simp add: requestSpans_def exampleWire_def)
  have "recordable span"
    using length_exampleWire t requestSpans_codec_ok [OF r] by (simp add: recordable_def maxRecord_def)
  then show ?thesis using t requestSpans_valid [OF r] by (simp add: exampleWire_def storable_def)
qed

lemma exampleWire_requests:
  assumes "sp \<in> requestSpans exampleWire events"
  shows "sized sp \<and> storable True sp"
proof -
  obtain span rejections where "Translate (wProto exampleWire) (wGetResourceSpans exampleWire ()) = ([span], rejections)" "sized span" "storable True span"
    using exampleWire_spans by blast
  with assms show ?thesis by (auto simp: requestSpans_def split: if_splits)
qed

text \<open>An export over gRPC, a sweep, a health check over HTTP, and another export.\<close>

definition exampleMux :: Mux where
  "exampleMux patterns path = (if path \<in> set patterns then Inr path else Inl (http_Error [] ''404 page not found'' 404))"

definition exampleCalls :: "unit Call Event list" where
  "exampleCalls = [Incoming (GRPCCall ()), Tick,
     Incoming (HTTPCall ''/healthz'' \<lparr>rqMethod = ''GET'', rqContentType = [], rqContentEncoding = [], rqBody = ([], None)\<rparr>), Incoming (GRPCCall ())]"

lemma exampleCalls_requests: "requestsOf exampleWire exampleMux exampleCalls = [Incoming (), Tick, Incoming ()]"
  by (simp add: exampleCalls_def exampleMux_def callRequest_def healthPath_def TracesPath_def)

definition exampleFlags :: config where
  "exampleFlags = defaultFlags\<lparr>dataDir := ''spans'', retention := 0\<rparr>"

definition exampleLib :: FlagLib where
  "exampleLib = \<lparr>fsParse = \<lambda>args flags. Inr (exampleFlags, ''info''), levelUnmarshal = \<lambda>s. Some 0\<rparr>"

lemma exampleFlags_config: "\<exists>sc s. samplerConfig exampleFlags = Some (Inr sc) \<and> New sc False = Inr s"
proof -
  have "samplerConfig exampleFlags = samplerConfig defaultFlags" by (simp add: samplerConfig_def exampleFlags_def Let_def split: option.split sum.split)
  then show ?thesis using defaultFlags_config by simp
qed

lemma okOpen_ok: "openOk okOpen"
  by (simp add: openOk_def okOpen_def)

lemma restorable_empty: "restorable fmempty []"
  by (rule restorable_clean [OF dir_holds_empty])

lemma exampleFlags_open: "\<exists>d. openStore 0 0 okOpen fmempty exampleFlags = Inr (DiskStore d)"
  using OpenDisk_restores [OF restorable_empty okOpen_ok, of 0 0 0] by (auto simp: openStore_def exampleFlags_def)

lemma example_startup: "\<exists>d smp. startup exampleLib (\<lambda>_. None) [] 0 0 okOpen fmempty = Some (Inr (exampleFlags, DiskStore d, smp))"
proof -
  have "parseFlags exampleLib [] = Inr exampleFlags"
    by (simp add: parseFlags_def exampleLib_def exampleFlags_def defaultFlags_def Let_def)
  then show ?thesis using exampleFlags_config exampleFlags_open by (auto simp: startup_def)
qed

text \<open>The example's store works, so its last append never needs undoing.\<close>

lemma example_run:
  assumes "startup exampleLib (\<lambda>_. None) [] 0 0 okOpen fmempty = Some (Inr (exampleFlags, st, smp))"
    and "run exampleLib (\<lambda>_. None) [] 0 0 okOpen fmempty exampleWire exampleMux exampleMachine c sio calls syncOk closeOk = Some (Inr ((err, errs), smp', w1))"
  shows "\<exists>d. wdStore w1 = DiskStore d \<and> newestOpen d"
proof -
  let ?w = "startWorld c st" and ?M = exampleMachine
  obtain sc where sc: "openStore 0 0 okOpen fmempty exampleFlags = Inr st" "New sc False = Inr smp"
    using startup_parts [OF assms(1)] by blast
  obtain w' where r: "serveSampled exampleWire exampleMux (storeEnv ?M) sio calls smp ?w = Some ((err, errs), smp', w')"
    "wdStore w1 = snd (store_Close syncOk closeOk (wdStore (evicting ?M w')))"
    using assms by (auto simp: run_def Let_def)
  have "working ?M True ?w"
    using openStore_holds(2) [OF sc(1) restorable_empty] exampleMachine_ok by (simp add: working_def exampleFlags_def startWorld_def)
  then have "working ?M True w'"
    using serveSampled_clean [OF sc(2) _ _ r(1), of True] exampleWire_requests by blast
  then have "workingStore True (wdStore (evicting ?M w'))"
    using workingStore_evictLoop by (simp add: working_def evicting_def split_beta)
  then show ?thesis
    by (auto simp: r(2) workingStore_def store_Close_def Disk_Close_def Let_def newestOpen_def split: store.splits option.splits)
qed

subsection \<open>Properties\<close>

text \<open>C7: nothing acknowledged is lost between the wire and the store. Whatever exports arrive, whenever
  the sampler sweeps and whenever the store evicts, with either store and as long as the disk
  store's system calls succeed and no record is over its limit, \<open>serveSampled\<close> returns with no
  error of its own and an empty buffer; every span that an export answered with success can be
  read back from the store, or was evicted after its retention, or was dropped by a verdict, as
  many as the counters say.\<close>

theorem serveSampled_loses_nothing:
  fixes log :: ackLog
  assumes "samplerConfig cfg = Some (Inr sc)" "New sc False = Inr s"
    and "openStore now now' oio files cfg = Inr st" "restorable files log"
    and "clockOk M" "dataDir cfg \<noteq> [] \<longrightarrow> (\<forall>c. writeOk (fst (mcSys M c)))"
    and "\<forall>sp \<in> requestSpans W (requestsOf W mux calls). sized sp \<and> (dataDir cfg \<noteq> [] \<longrightarrow> recordable sp)"
  shows "\<exists>s' w' written dropped.
      serveSampled W mux (storeEnv M) io calls s (startWorld c st) = Some ((fst (serve io), []), s', w')
    \<and> ackedSpans W (storeEnv M) (requestsOf W mux calls) s (startWorld c st) = written + dropped
    \<and> (\<forall>sp \<in># written. readable (store_Trace (wdStore w')) sp \<or> expiredBy (retention cfg) (wdTicks w') sp)
    \<and> stDroppedSpans (smStats s') + stLateDropped (smStats s') = int (size dropped)
    \<and> stLost (smStats s') = 0 \<and> stBuffered (smStats s') = 0"
proof -
  let ?w = "startWorld c st" and ?disk = "dataDir cfg \<noteq> []"
  note open_st = openStore_holds(1) [OF assms(3,4), of c] openStore_holds(2) [OF assms(3,4)]
  have sized: "\<forall>sp \<in> requestSpans W (requestsOf W mux calls). sized sp" using assms(7) by blast
  obtain errs s' w' written lost dropped where r: "serveSampled W mux (storeEnv M) io calls s ?w = Some ((fst (serve io), errs), s', w')"
    "ackedSpans W (storeEnv M) (requestsOf W mux calls) s ?w = written + lost + dropped" "worldHolds w' ([], []) written cfg"
    "stBuffered (smStats s') = 0" "stLost (smStats s') = int (size lost)"
    "stDroppedSpans (smStats s') + stLateDropped (smStats s') = int (size dropped)"
    using serveSampled_accounts [OF assms(1,2,5) open_st(1) sized, of io] by blast
  have "working M ?disk ?w" using open_st(2) assms(5,6) by (simp add: working_def startWorld_def)
  moreover have "\<forall>sp \<in> requestSpans W (requestsOf W mux calls). storable ?disk sp" using assms(7) requestSpans_valid by (auto simp: storable_def)
  ultimately have clean: "errs = []" "stLost (smStats s') = 0" using serveSampled_clean [OF assms(2) _ _ r(1)] by blast+
  have "readable (store_Trace (wdStore w')) sp \<or> expiredBy (retention cfg) (wdTicks w') sp" if "sp \<in># written" for sp
    using daemonStore.reads [of "wdStore w'" "wdLog w'" "wdTicks w'" sp] r(3) that by (auto simp: worldHolds_def)
  moreover have "lost = {#}" using clean(2) r(5) by simp
  ultimately show ?thesis using r clean by auto
qed

theorem serveSampled_loses_nothing_witness:
  "\<exists>sc s st s' w' written dropped. samplerConfig exampleFlags = Some (Inr sc) \<and> New sc False = Inr s
    \<and> openStore 0 0 okOpen fmempty exampleFlags = Inr st
    \<and> serveSampled exampleWire exampleMux (storeEnv exampleMachine) \<lparr>svWake = CtxDone, svGRPCDone = True\<rparr>
        exampleCalls s (startWorld 100 st) = Some ((None, []), s', w')
    \<and> ackedSpans exampleWire (storeEnv exampleMachine) (requestsOf exampleWire exampleMux exampleCalls) s
        (startWorld 100 st) = written + dropped
    \<and> (\<forall>sp \<in># written. readable (store_Trace (wdStore w')) sp \<or> expiredBy (retention exampleFlags) (wdTicks w') sp)
    \<and> stLost (smStats s') = 0"
proof -
  obtain sc s where c: "samplerConfig exampleFlags = Some (Inr sc)" "New sc False = Inr s" using exampleFlags_config by blast
  obtain d where d: "openStore 0 0 okOpen fmempty exampleFlags = Inr (DiskStore d)" using exampleFlags_open by blast
  have ok: "dataDir exampleFlags \<noteq> [] \<longrightarrow> (\<forall>c. writeOk (fst (mcSys exampleMachine c)))"
    "\<forall>sp \<in> requestSpans exampleWire (requestsOf exampleWire exampleMux exampleCalls). sized sp \<and> (dataDir exampleFlags \<noteq> [] \<longrightarrow> recordable sp)"
    using exampleMachine_ok(2) exampleWire_requests by (auto simp: storable_def)
  from serveSampled_loses_nothing [OF c d restorable_empty exampleMachine_ok(1) ok,
      where io = "\<lparr>svWake = CtxDone, svGRPCDone = True\<rparr>" and c = 100, unfolded serve_done] c d
  show ?thesis by blast
qed

text \<open>C3: what a run wrote survives the restart. Whatever the exports, the sweeps, the evictions and the
  outcomes of the system calls, \<open>run\<close> returns, and every acknowledged span was taken by the store,
  or counts as lost, or as dropped. On disk, unless an append to an older segment than the newest
  could not be undone, the next start with the same arguments succeeds, finds a directory that again holds the records of
  acknowledged spans, and can read back every span the store took in this run or held before it,
  except those it evicts because they ended before the retention window, and those whose segment
  was deleted because its hour lay before the retention window.\<close>

theorem run_survives_restart:
  fixes log :: ackLog
  assumes "startup L listen args now now' oio files = Some (Inr (cfg, st, smp))" "restorable files log" "clockOk M"
    and "\<forall>sp \<in> requestSpans W (requestsOf W mux calls). sized sp" "openOk oio2"
  shows "\<exists>errs smp' w lost dropped.
      run L listen args now now' oio files W mux M c sio calls syncOk closeOk = Some (Inr ((fst (serve sio), errs), smp', w))
    \<and> ackedSpans W (storeEnv M) (requestsOf W mux calls) smp (startWorld c st) = mset (map snd (wdLog w)) + lost + dropped
    \<and> stBuffered (smStats smp') = 0 \<and> stLost (smStats smp') = int (size lost)
    \<and> stDroppedSpans (smStats smp') + stLateDropped (smStats smp') = int (size dropped)
    \<and> (\<forall>d. wdStore w = DiskStore d \<and> newestOpen d \<longrightarrow>
        (\<exists>d2 smp2 log2. startup L listen args t t' oio2 (dFiles d) = Some (Inr (cfg, DiskStore d2, smp2))
          \<and> restorable (dFiles d) log2
          \<and> (\<forall>(h, sp) \<in> set (log @ wdLog w). readable (store_Trace (DiskStore d2)) sp
              \<or> expiredBy (retention cfg) [openTick t t' oio2] sp
              \<or> agedOut (retention cfg) (openTick now now' oio # wdTicks w) h)))"
proof -
  obtain sc where sc: "samplerConfig cfg = Some (Inr sc)" "openStore now now' oio files cfg = Inr st" "New sc False = Inr smp"
    using startup_parts [OF assms(1)] .
  obtain base where base: "worldHolds (startWorld c st) base {#} cfg"
    "dataDir cfg \<noteq> [] \<longrightarrow> set log \<subseteq> set (fst base) \<and> snd base = [openTick now now' oio]"
    using openStore_holds(1,3) [OF sc(2) assms(2), of c] by (cases "dataDir cfg = []") fastforce+
  obtain errs smp' w1 written lost dropped where r: "serveSampled W mux (storeEnv M) sio calls smp (startWorld c st) = Some ((fst (serve sio), errs), smp', w1)"
    "ackedSpans W (storeEnv M) (requestsOf W mux calls) smp (startWorld c st) = written + lost + dropped" "worldHolds w1 base written cfg"
    "stBuffered (smStats smp') = 0" "stLost (smStats smp') = int (size lost)"
    "stDroppedSpans (smStats smp') + stLateDropped (smStats smp') = int (size dropped)"
    using serveSampled_accounts [OF sc(1,3) assms(3) base(1) assms(4), of sio] by blast
  let ?w1 = "evicting M w1"
  define w where "w = ?w1\<lparr>wdStore := snd (store_Close syncOk closeOk (wdStore ?w1))\<rparr>"
  have holds: "worldHolds ?w1 base written cfg" by (rule worldHolds_evicting [OF r(3)])
  have "run L listen args now now' oio files W mux M c sio calls syncOk closeOk = Some (Inr ((fst (serve sio), errs), smp', w))"
    using assms(1) r(1) by (simp add: run_def w_def Let_def)
  moreover have "mset (map snd (wdLog w)) = written" using holds by (simp add: w_def worldHolds_def)
  moreover have "\<exists>d2 smp2 log2. startup L listen args t t' oio2 (dFiles d) = Some (Inr (cfg, DiskStore d2, smp2))
      \<and> restorable (dFiles d) log2 \<and> (\<forall>(h, sp) \<in> set (log @ wdLog w). readable (store_Trace (DiskStore d2)) sp
        \<or> expiredBy (retention cfg) [openTick t t' oio2] sp \<or> agedOut (retention cfg) (openTick now now' oio # wdTicks w) h)"
    if d: "wdStore w = DiskStore d" "newestOpen d" for d
  proof -
    obtain d0 where d0: "wdStore ?w1 = DiskStore d0" "dFiles d0 = dFiles d" "dDirty d0 = dDirty d" "dDirtyHour d0 = dDirtyHour d"
      using d(1) by (auto simp: w_def store_Close_def Disk_Close_def Let_def split: store.splits if_splits prod.splits)
    have left: "restorable (dFiles d) lg" if "disk_reach d0 lg" for lg
      using files_restorable [OF that] d0(2-4) d(2) by (simp add: newestOpen_def)
    have "dataDir cfg \<noteq> []" using holds d0(1) by (simp add: worldHolds_def on_disk_def)
    then have b: "set log \<subseteq> set (fst base)" "snd base = [openTick now now' oio]" using base(2) by blast+
    then show ?thesis using restarted [OF assms(1) holds d0(1) left assms(5), of t t'] by (fastforce simp: w_def)
  qed
  ultimately show ?thesis using r(2,4,5,6) by blast
qed

theorem run_survives_restart_witness:
  "\<exists>st smp errs smp' w lost dropped d d2 smp2 log2.
      startup exampleLib (\<lambda>_. None) [] 0 0 okOpen fmempty = Some (Inr (exampleFlags, st, smp))
    \<and> run exampleLib (\<lambda>_. None) [] 0 0 okOpen fmempty exampleWire exampleMux exampleMachine 100 \<lparr>svWake = CtxDone, svGRPCDone = True\<rparr>
        exampleCalls True True = Some (Inr ((None, errs), smp', w))
    \<and> ackedSpans exampleWire (storeEnv exampleMachine) (requestsOf exampleWire exampleMux exampleCalls) smp (startWorld 100 st)
        = mset (map snd (wdLog w)) + lost + dropped
    \<and> wdStore w = DiskStore d \<and> startup exampleLib (\<lambda>_. None) [] 9 9 okOpen (dFiles d) = Some (Inr (exampleFlags, DiskStore d2, smp2))
    \<and> restorable (dFiles d) log2 \<and> (\<forall>(h, sp) \<in> set (wdLog w). readable (store_Trace (DiskStore d2)) sp)"
proof -
  let ?run = "run exampleLib (\<lambda>_. None) [] 0 0 okOpen fmempty exampleWire exampleMux exampleMachine (100 :: nat) \<lparr>svWake = CtxDone, svGRPCDone = True\<rparr>
    exampleCalls True True"
  obtain d0 smp where start: "startup exampleLib (\<lambda>_. None) [] 0 0 okOpen fmempty = Some (Inr (exampleFlags, DiskStore d0, smp))"
    using example_startup by blast
  have sized: "\<forall>sp \<in> requestSpans exampleWire (requestsOf exampleWire exampleMux exampleCalls). sized sp" using exampleWire_requests by blast
  obtain errs smp' w lost dropped where r: "?run = Some (Inr ((None, errs), smp', w))"
    "ackedSpans exampleWire (storeEnv exampleMachine) (requestsOf exampleWire exampleMux exampleCalls) smp (startWorld 100 (DiskStore d0))
        = mset (map snd (wdLog w)) + lost + dropped"
    and again: "\<forall>d. wdStore w = DiskStore d \<and> newestOpen d \<longrightarrow>
        (\<exists>d2 smp2 log2. startup exampleLib (\<lambda>_. None) [] 9 9 okOpen (dFiles d) = Some (Inr (exampleFlags, DiskStore d2, smp2))
          \<and> restorable (dFiles d) log2 \<and> (\<forall>(h, sp) \<in> set ([] @ wdLog w). readable (store_Trace (DiskStore d2)) sp
              \<or> expiredBy (retention exampleFlags) [openTick 9 9 okOpen] sp
              \<or> agedOut (retention exampleFlags) (openTick 0 0 okOpen # wdTicks w) h))"
    using run_survives_restart [OF start restorable_empty exampleMachine_ok(1) sized okOpen_ok, where c = 100 and syncOk = True and closeOk = True
        and sio = "\<lparr>svWake = CtxDone, svGRPCDone = True\<rparr>" and t = 9 and t' = 9, unfolded serve_done] by blast
  obtain d where d: "wdStore w = DiskStore d" "newestOpen d" using example_run [OF start r(1)] by blast
  have "\<not> expiredBy (retention exampleFlags) tks sp" "\<not> agedOut (retention exampleFlags) tks h" for tks sp h
    by (simp_all add: expiredBy_def agedOut_def exampleFlags_def)
  with again d obtain d2 smp2 log2 where "startup exampleLib (\<lambda>_. None) [] 9 9 okOpen (dFiles d) = Some (Inr (exampleFlags, DiskStore d2, smp2))"
    "restorable (dFiles d) log2" "\<forall>(h, sp) \<in> set (wdLog w). readable (store_Trace (DiskStore d2)) sp" by auto
  then show ?thesis using start r d(1) by blast
qed

text \<open>C36: an export that is still running when \<open>serveSampled\<close> returns is acknowledged and lost. The HTTP
  server does not wait for it beyond the drain timeout and does not close its connection; once the
  sampler was flushed the export still answers with success, its spans stay in the buffer (apart
  from those of traces already dropped), and the store does not change.\<close>

theorem export_after_flush_stranded:
  fixes log :: ackLog
  assumes "samplerConfig cfg = Some (Inr sc)" "New sc False = Inr s"
    and "openStore now now' oio files cfg = Inr st" "restorable files log" "clockOk M" "\<forall>sp \<in> requestSpans W (requestsOf W mux calls). sized sp"
    and "serveSampled W mux (storeEnv M) io calls s (startWorld c st) = Some (errs, s', w')"
    and "Translate (wProto W) (wGetResourceSpans W req) = (spans, rejections)"
    and "int (length spans) \<le> cMaxSpans sc"
  shows "\<exists>resp s'' w''. export_spans W (samplerSink (storeEnv M)) req (s', w') = (Inr resp, s'', w'')
    \<and> heldBag s'' + lateDropped s' (fst (mcClock M (wdMachine w'))) spans = mset spans \<and> wdStore w'' = wdStore w'"
proof -
  let ?E = "storeEnv M"
  have r: "heldBag s' = {#}" "smConfig s' = sc" "stBuffered (smStats s') = 0"
    using serveSampled_accounts [OF assms(1,2,5) openStore_holds(1) [OF assms(3,4)] assms(6), of io c] assms(7) by auto
  let ?now = "fst (mcClock M (wdMachine w'))" and ?w = "w'\<lparr>wdMachine := snd (mcClock M (wdMachine w'))\<rparr>"
  have now: "eNow ?E w' = (?now, ?w)" by (simp add: storeEnv_def split_beta)
  obtain e s1 where a: "acceptLocked ?now spans s' = (e, s1)" by fastforce
  have e: "e = None"
  proof (rule ccontr)
    assume "e \<noteq> None"
    then obtain x where "acceptLocked ?now spans s' = (Some x, s1)" using a by auto
    from acceptLocked_refused(3) [OF this] show False using r(2,3) assms(9) by simp
  qed
  have held: "heldBag s1 + lateDropped s' ?now spans = mset spans" using acceptLocked_accepted(1) [OF a [unfolded e]] r(1) by simp
  have acc: "Accept ?E spans s' w' = (None, s1, ?w)" using now a e r(2) assms(9) by (simp add: Accept_def)
  show ?thesis
  proof (cases "spans = []")
    case True
    then show ?thesis using assms(8) r(1) by (simp add: export_spans_def lateDropped_def)
  next
    case False
    then show ?thesis using assms(8) acc held by (simp add: export_spans_def samplerSink_def)
  qed
qed

theorem export_after_flush_stranded_witness:
  "\<exists>sc s st s' w' spans rejections resp s'' w''. samplerConfig exampleFlags = Some (Inr sc) \<and> New sc False = Inr s
    \<and> openStore 0 0 okOpen fmempty exampleFlags = Inr st
    \<and> serveSampled exampleWire exampleMux (storeEnv exampleMachine) \<lparr>svWake = CtxDone, svGRPCDone = True\<rparr> [] s
        (startWorld 100 st) = Some ((None, []), s', w')
    \<and> Translate (wProto exampleWire) (wGetResourceSpans exampleWire ()) = (spans, rejections) \<and> spans \<noteq> []
    \<and> export_spans exampleWire (samplerSink (storeEnv exampleMachine)) () (s', w') = (Inr resp, s'', w'')
    \<and> heldBag s'' + lateDropped s' (fst (mcClock exampleMachine (wdMachine w'))) spans = mset spans \<and> wdStore w'' = wdStore w'"
proof -
  let ?io = "\<lparr>svWake = CtxDone, svGRPCDone = True\<rparr>"
  obtain sc s where c: "samplerConfig exampleFlags = Some (Inr sc)" "New sc False = Inr s" using exampleFlags_config by blast
  obtain st where st: "openStore 0 0 okOpen fmempty exampleFlags = Inr st" using exampleFlags_open by blast
  obtain span rejections where t: "Translate (wProto exampleWire) (wGetResourceSpans exampleWire ()) = ([span], rejections)"
    using exampleWire_spans by blast
  let ?w = "startWorld 100 st"
  have none: "\<forall>sp \<in> requestSpans exampleWire (requestsOf exampleWire exampleMux []). P sp" for P by (simp add: requestSpans_def)
  have "working exampleMachine True ?w"
    using openStore_holds(2) [OF st restorable_empty] exampleMachine_ok by (simp add: working_def exampleFlags_def startWorld_def)
  moreover obtain errs s' w' where r: "serveSampled exampleWire exampleMux (storeEnv exampleMachine) ?io [] s ?w = Some ((None, errs), s', w')"
    using serveSampled_accounts [OF c exampleMachine_ok(1) openStore_holds(1) [OF st restorable_empty] none, of ?io 100, unfolded serve_done] by blast
  ultimately have errs: "errs = []" using serveSampled_clean [OF c(2) _ none r] by blast
  have "int (length [span]) \<le> cMaxSpans sc" using samplerConfig_buffer [OF c(1)] by (simp add: exampleFlags_def defaultFlags_def)
  from export_after_flush_stranded [OF c st restorable_empty exampleMachine_ok(1) none r t this] c st r [unfolded errs] t list.distinct(2) [of span "[]"]
  show ?thesis by blast
qed

end
