(* ===== verification/Refinement.thy ===== *)
theory Refinement
  imports Main
begin

section \<open>Simulation\<close>

text \<open>
  The contract between a detailed and an abstract step relation: what is related stays related, with
  any number of abstract steps for one detailed step. \<open>Daemon_Concurrent\<close> interprets it.
\<close>

locale simulation =
  fixes cstep :: "'c \<Rightarrow> 'c \<Rightarrow> bool"
    and astep :: "'a \<Rightarrow> 'a \<Rightarrow> bool"
    and related :: "'c \<Rightarrow> 'a \<Rightarrow> bool"
  assumes simulates: "related c a \<Longrightarrow> cstep c c' \<Longrightarrow> \<exists>a'. astep\<^sup>*\<^sup>* a a' \<and> related c' a'"
begin

lemma simulates_all:
  assumes "cstep\<^sup>*\<^sup>* c c'" "related c a"
  shows "\<exists>a'. astep\<^sup>*\<^sup>* a a' \<and> related c' a'"
  using assms
proof (induction rule: rtranclp_induct)
  case (step c1 c2)
  then obtain a1 where a1: "astep\<^sup>*\<^sup>* a a1" "related c1 a1" by blast
  obtain a2 where "astep\<^sup>*\<^sup>* a1 a2" "related c2 a2" using simulates [OF a1(2) step.hyps(2)] by blast
  with a1(1) show ?case by (blast intro: rtranclp_trans)
qed blast

text \<open>An invariant of the abstract steps holds at every state related to a reachable one.\<close>

lemma invariant_below:
  assumes "cstep\<^sup>*\<^sup>* c c'" "related c a" "I a" "\<And>x y. I x \<Longrightarrow> astep x y \<Longrightarrow> I y"
  shows "\<exists>a'. I a' \<and> related c' a'"
proof -
  obtain a' where a': "astep\<^sup>*\<^sup>* a a'" "related c' a'" using simulates_all [OF assms(1,2)] by blast
  have "I a'" using a'(1) assms(3,4) by (induction rule: rtranclp_induct) blast+
  with a'(2) show ?thesis by blast
qed

end

end
