(* ===== verification/Daemon_Concurrent.thy ===== *)
theory Daemon_Concurrent
  imports Daemon_Serve Refinement
begin

section \<open>The daemon, all goroutines at once\<close>

text \<open>
  Exports over both transports, the sweeps and the flush of \<open>Run\<close>, the writes they make to the store
  and \<open>evictLoop\<close> run at the same time. A step is a stretch of code that runs under the sampler's
  lock, or one call of the store (which has a lock of its own): so a trace is written in one step and
  settled in another, and anything may happen in between. Every such run is a run of the sampler's
  step relation; the spans that it counts as kept are the ones the store took.
\<close>

subsection \<open>Steps\<close>

text \<open>Beside the sampler and the store: the traces that \<open>judge\<close> took, those with a verdict, those whose
  write returned (and whether it failed), the late spans that \<open>writeLate\<close> took, those whose write
  failed; and the spans acknowledged so far.\<close>

record 'c Process =
  prSampler :: Sampler
  prReady :: "pending list"
  prRuled :: "(pending \<times> Verdict) list"
  prWrote :: "(pending \<times> Verdict \<times> bool) list"
  prLate :: "Span list list"
  prLateFailed :: "Span list list"
  prWorld :: "'c World"
  prAcked :: "Span multiset"

definition startProcess :: "'c \<Rightarrow> store \<Rightarrow> Sampler \<Rightarrow> 'c Process" where
  "startProcess c st smp = \<lparr>prSampler = smp, prReady = [], prRuled = [], prWrote = [], prLate = [], prLateFailed = [],
     prWorld = startWorld c st, prAcked = {#}\<rparr>"

text \<open>A call of \<open>Write\<close>, of \<open>EvictExpired\<close>.\<close>

definition wrote :: "Time \<Rightarrow> Span list \<Rightarrow> bool \<Rightarrow> store \<Rightarrow> 'c World \<Rightarrow> 'c World" where
  "wrote now spans failed st w = w\<lparr>wdStore := st, wdLog := if failed then wdLog w else wdLog w @ hourly now spans\<rparr>"

definition evictedBy :: "EvictTick \<Rightarrow> 'c World \<Rightarrow> 'c World" where
  "evictedBy tk w = w\<lparr>wdStore := snd (store_EvictExpired tk (wdStore w)), wdTicks := wdTicks w @ [tk]\<rparr>"

inductive proc_step :: "('m, 'n, 'q) Wire \<Rightarrow> 'c Process \<Rightarrow> 'c Process \<Rightarrow> bool" for W where
  exported: "fst (Translate (wProto W) (wGetResourceSpans W req)) = spans \<Longrightarrow> \<forall>sp \<in> set spans. sized sp \<Longrightarrow>
     int (length spans) \<le> cMaxSpans (smConfig (prSampler d)) \<Longrightarrow> acceptLocked now spans (prSampler d) = (None, s') \<Longrightarrow>
     proc_step W d (d\<lparr>prSampler := s', prAcked := prAcked d + mset spans\<rparr>)"
| refused: "int (length spans) \<le> cMaxSpans (smConfig (prSampler d)) \<Longrightarrow> acceptLocked now spans (prSampler d) = (Some e, s') \<Longrightarrow> proc_step W d (d\<lparr>prSampler := s'\<rparr>)"
| taken: "due_ok due \<Longrightarrow> takeDue due (mapKeys (smPending (prSampler d))) [] (prSampler d) = (ready, s') \<Longrightarrow>
     proc_step W d (d\<lparr>prSampler := s', prReady := prReady d @ ready\<rparr>)"
| ruled: "prReady d = ps @ p # qs \<Longrightarrow> judgeTree (smConfig (prSampler d)) p = Some (t, v) \<Longrightarrow> \<not> limited (smConfig (prSampler d)) v \<Longrightarrow>
     proc_step W d (d\<lparr>prReady := ps @ qs, prRuled := (p, v) # prRuled d\<rparr>)"
| limited: "prReady d = ps @ p # qs \<Longrightarrow> judgeTree (smConfig (prSampler d)) p = Some (t, v) \<Longrightarrow> limited (smConfig (prSampler d)) v \<Longrightarrow>
     rootService t = Some service \<Longrightarrow> allowLocked now service (prSampler d) = (ok, s') \<Longrightarrow>
     proc_step W d (d\<lparr>prSampler := s', prReady := ps @ qs, prRuled := (p, if ok then v else rateLimitedVerdict) # prRuled d\<rparr>)"
| written: "prRuled d = ps @ (p, v) # qs \<Longrightarrow> vKeep v \<Longrightarrow> in_int64 (time_Unix now) \<Longrightarrow>
     store_Write now io (pSpans p) (wdStore (prWorld d)) = (err, st) \<Longrightarrow>
     proc_step W d (d\<lparr>prRuled := ps @ qs, prWrote := (p, v, err \<noteq> None) # prWrote d, prWorld := wrote now (pSpans p) (err \<noteq> None) st (prWorld d)\<rparr>)"
| settled: "prWrote d = ps @ (p, v, failed) # qs \<Longrightarrow> settleLocked now p v failed (prSampler d) = Some s' \<Longrightarrow>
     proc_step W d (d\<lparr>prSampler := s', prWrote := ps @ qs\<rparr>)"
| dropped: "prRuled d = ps @ (p, v) # qs \<Longrightarrow> \<not> vKeep v \<Longrightarrow> settleLocked now p v False (prSampler d) = Some s' \<Longrightarrow>
     proc_step W d (d\<lparr>prSampler := s', prRuled := ps @ qs\<rparr>)"
| forgotten: "proc_step W d (d\<lparr>prSampler := forgetLocked now (prSampler d)\<rparr>)"
| lateTaken: "takeLate (prSampler d) = (late, s') \<Longrightarrow> proc_step W d (d\<lparr>prSampler := s', prLate := prLate d @ lateItems late\<rparr>)"
| lateWritten: "prLate d = as @ xs # bs \<Longrightarrow> in_int64 (time_Unix now) \<Longrightarrow> store_Write now io xs (wdStore (prWorld d)) = (None, st) \<Longrightarrow>
     proc_step W d (d\<lparr>prLate := as @ bs, prWorld := wrote now xs False st (prWorld d)\<rparr>)"
| lateRefused: "prLate d = as @ xs # bs \<Longrightarrow> in_int64 (time_Unix now) \<Longrightarrow> store_Write now io xs (wdStore (prWorld d)) = (Some e, st) \<Longrightarrow>
     proc_step W d (d\<lparr>prLate := as @ bs, prLateFailed := xs # prLateFailed d, prWorld := wrote now xs True st (prWorld d)\<rparr>)"
| lateLost: "prLateFailed d = as @ xs # bs \<Longrightarrow> proc_step W d (d\<lparr>prSampler := loseLate xs (prSampler d), prLateFailed := as @ bs\<rparr>)"
| evicted: "proc_step W d (d\<lparr>prWorld := evictedBy tk (prWorld d)\<rparr>)"

text \<open>The disk store's \<open>EvictExpired\<close> has two critical sections with a reading of the clock each: it
  evicts from memory, then deletes segments, and other steps may come in between. The rule
  \<open>evicted\<close> leaves the two readings and the listing of the directory free, so each section is a step
  on its own: a pass whose listing fails is the first alone, a pass whose first reading lies before
  every stored trace is the second alone.\<close>

lemma nothing_expired: "\<exists>t. snd (Memory_EvictExpired t m) = m"
proof -
  let ?ends = "eEnd ` {e. \<exists>tid. fmlookup (mTraces m) tid = Some e}"
  have "{e. \<exists>tid. fmlookup (mTraces m) tid = Some e} \<subseteq> (\<lambda>tid. the (fmlookup (mTraces m) tid)) ` fset (fmdom (mTraces m))"
    by (force simp: fmlookup_dom_iff image_iff)
  then have "finite ?ends" by (metis finite_fset finite_imageI finite_subset)
  then obtain l where l: "\<forall>x \<in> ?ends. l \<le> x" by (metis bdd_below_finite bdd_below_def)
  then have "expiredIn m l = []" by (force simp: expiredIn_def filter_empty_conv split: option.splits)
  then have "snd (Memory_EvictExpired (l + mRetention m) m) = m" by (simp add: Memory_EvictExpired_def)
  then show ?thesis by blast
qed

lemma evicts_memory_alone:
  "proc_step W d (d\<lparr>prWorld := (prWorld d)\<lparr>wdStore := DiskStore (snd (evictMem now dk)),
     wdTicks := wdTicks (prWorld d) @ [\<lparr>tkNow = now, tkNow2 = now', tkListed = False, tkRemove = remove\<rparr>]\<rparr>\<rparr>)"
  if "wdStore (prWorld d) = DiskStore dk"
proof -
  have "evictSegments now' False remove x = x" for x by (simp add: evictSegments_def Let_def)
  then show ?thesis
    using proc_step.evicted [of W d "\<lparr>tkNow = now, tkNow2 = now', tkListed = False, tkRemove = remove\<rparr>"] that
    by (simp add: evictedBy_def store_EvictExpired_def Disk_EvictExpired_def split_beta)
qed

lemma evicts_segments_alone:
  assumes "wdStore (prWorld d) = DiskStore dk"
  shows "\<exists>now0. proc_step W d (d\<lparr>prWorld := (prWorld d)\<lparr>wdStore := DiskStore (evictSegments now listed remove dk),
     wdTicks := wdTicks (prWorld d) @ [\<lparr>tkNow = now0, tkNow2 = now, tkListed = listed, tkRemove = remove\<rparr>]\<rparr>\<rparr>)"
proof -
  obtain now0 where "snd (Memory_EvictExpired now0 (dMem dk)) = dMem dk" using nothing_expired by blast
  then have "snd (evictMem now0 dk) = dk" by (simp add: evictMem_def split_beta)
  then show ?thesis
    using proc_step.evicted [of W d "\<lparr>tkNow = now0, tkNow2 = now, tkListed = listed, tkRemove = remove\<rparr>"] assms
    by (intro exI [of _ now0]) (simp add: evictedBy_def store_EvictExpired_def Disk_EvictExpired_def split_beta)
qed

subsection \<open>Refinement of the sampler's steps\<close>

definition keptInFlight :: "'c Process \<Rightarrow> Span multiset" where
  "keptInFlight d = mset (concat (map (\<lambda>(p, v, failed). if failed then [] else pSpans p) (prWrote d)))"

definition tracks :: "'c Process \<Rightarrow> System \<Rightarrow> bool" where
  "tracks d y \<longleftrightarrow> sySampler y = prSampler d \<and> syReady y = prReady d
     \<and> mset (syRuled y) = mset (prRuled d) + mset (map (\<lambda>(p, v, failed). (p, v)) (prWrote d))
     \<and> mset (syLate y) = mset (prLate d) + mset (prLateFailed d)
     \<and> (\<forall>(p, v, failed) \<in> set (prWrote d). vKeep v)
     \<and> syAccepted y = prAcked d \<and> mset (map snd (wdLog (prWorld d))) = syKept y + syLateKept y + keptInFlight d"

lemmas tracks_simps = tracks_def keptInFlight_def wrote_def evictedBy_def

lemma mset_middle:
  assumes "mset xs = mset (ps @ q # qs) + zs"
  obtains as bs where "xs = as @ q # bs" "mset (as @ bs) = mset (ps @ qs) + zs"
proof -
  have "q \<in> set xs" using assms by (metis in_multiset_in_set mset_append union_iff in_set_conv_decomp)
  then obtain as bs where "xs = as @ q # bs" by (meson split_list)
  with assms that show thesis by simp
qed

lemma one_step: "sys_step y y' \<Longrightarrow> tracks d y' \<Longrightarrow> \<exists>y'. sys_step\<^sup>*\<^sup>* y y' \<and> tracks d y'"
  by blast

lemma no_step: "tracks d y \<Longrightarrow> \<exists>y'. sys_step\<^sup>*\<^sup>* y y' \<and> tracks d y'"
  by blast

lemma settled_tracked:
  assumes "tracks d y" "prWrote d = ps @ (p, v, failed) # qs" "settleLocked now p v failed (prSampler d) = Some s'"
  shows "\<exists>y'. sys_step\<^sup>*\<^sup>* y y' \<and> tracks (d\<lparr>prSampler := s', prWrote := ps @ qs\<rparr>) y'"
proof -
  have "mset (syRuled y) = mset (map (\<lambda>(p, v, failed). (p, v)) ps @ (p, v) # map (\<lambda>(p, v, failed). (p, v)) qs) + mset (prRuled d)"
    using assms(1,2) by (simp add: tracks_def)
  then obtain as bs where y: "syRuled y = as @ (p, v) # bs"
    "mset (as @ bs) = mset (map (\<lambda>(p, v, failed). (p, v)) ps @ map (\<lambda>(p, v, failed). (p, v)) qs) + mset (prRuled d)" by (rule mset_middle)
  have keep: "vKeep v" using assms(1,2) by (auto simp: tracks_def)
  have s: "settleLocked now p v failed (sySampler y) = Some s'" using assms(1,3) by (simp add: tracks_def)
  show ?thesis
    by (rule one_step [OF sys_step.settled [OF y(1) s]]) (use assms(1,2) y(2) keep in \<open>auto simp: tracks_simps ac_simps\<close>)
qed

lemma dropped_tracked:
  assumes "tracks d y" "prRuled d = ps @ (p, v) # qs" "\<not> vKeep v" "settleLocked now p v False (prSampler d) = Some s'"
  shows "\<exists>y'. sys_step\<^sup>*\<^sup>* y y' \<and> tracks (d\<lparr>prSampler := s', prRuled := ps @ qs\<rparr>) y'"
proof -
  obtain as bs where y: "syRuled y = as @ (p, v) # bs"
    "mset (as @ bs) = mset (ps @ qs) + mset (map (\<lambda>(p, v, failed). (p, v)) (prWrote d))"
    using mset_middle [of "syRuled y" ps "(p, v)" qs] assms(1,2) by (auto simp: tracks_def)
  have s: "settleLocked now p v False (sySampler y) = Some s'" using assms(1,4) by (simp add: tracks_def)
  show ?thesis
    by (rule one_step [OF sys_step.settled [OF y(1) s]]) (use assms(1-3) y(2) in \<open>simp add: tracks_simps\<close>)
qed

lemma lateWritten_tracked:
  assumes "tracks d y" "prLate d = as @ xs # bs"
  shows "\<exists>y'. sys_step\<^sup>*\<^sup>* y y' \<and> tracks (d\<lparr>prLate := as @ bs, prWorld := wrote now xs False st (prWorld d)\<rparr>) y'"
proof -
  obtain as' bs' where y: "syLate y = as' @ xs # bs'" "mset (as' @ bs') = mset (as @ bs) + mset (prLateFailed d)"
    using mset_middle [of "syLate y" as xs bs] assms by (auto simp: tracks_def)
  show ?thesis
    by (rule one_step [OF sys_step.lateWritten [OF y(1)]]) (use assms y(2) in \<open>simp add: tracks_simps comp_def\<close>)
qed

lemma lateLost_tracked:
  assumes "tracks d y" "prLateFailed d = as @ xs # bs"
  shows "\<exists>y'. sys_step\<^sup>*\<^sup>* y y' \<and> tracks (d\<lparr>prSampler := loseLate xs (prSampler d), prLateFailed := as @ bs\<rparr>) y'"
proof -
  obtain as' bs' where y: "syLate y = as' @ xs # bs'" "mset (as' @ bs') = mset (as @ bs) + mset (prLate d)"
    using mset_middle [of "syLate y" as xs bs "mset (prLate d)"] assms by (auto simp: tracks_def)
  show ?thesis
    by (rule one_step [OF sys_step.lateLost [OF y(1)]]) (use assms y(2) in \<open>simp add: tracks_simps\<close>)
qed

interpretation daemonSampler: simulation "proc_step W" sys_step tracks for W
proof unfold_locales
  fix d d' y
  assume t: "tracks d y" and "proc_step W d d'"
  have s: "sySampler y = prSampler d" "syReady y = prReady d" using t by (simp_all add: tracks_def)
  from \<open>proc_step W d d'\<close> show "\<exists>y'. sys_step\<^sup>*\<^sup>* y y' \<and> tracks d' y'"
  proof cases
    case (exported req spans now s')
    then show ?thesis
      using t s by (intro one_step [OF sys_step.accepted [of now spans y s']]) (simp_all add: tracks_simps)
  next
    case (refused spans now e s')
    then show ?thesis using t s by (intro one_step [OF sys_step.refused [of now spans y e s']]) (simp_all add: tracks_simps)
  next
    case (taken due ready s')
    then show ?thesis using t s by (intro one_step [OF sys_step.taken [of due y ready s']]) (simp_all add: tracks_simps)
  next
    case (ruled ps p qs tr v)
    then show ?thesis using t s by (intro one_step [OF sys_step.ruled [of y ps p qs tr v]]) (simp_all add: tracks_simps)
  next
    case (limited ps p qs tr v service now ok s')
    then show ?thesis
      using t s by (intro one_step [OF sys_step.limited [of y ps p qs tr v service now ok s']]) (simp_all add: tracks_simps)
  next
    case (written ps p v qs now io err st)
    then show ?thesis using t by (intro no_step) (simp add: tracks_simps multiset.map_comp comp_def)
  next
    case (settled ps p v failed qs now s')
    then show ?thesis using settled_tracked [OF t] by simp
  next
    case (dropped ps p v qs now s')
    then show ?thesis using dropped_tracked [OF t] by simp
  next
    case (forgotten now)
    then show ?thesis using t s by (intro one_step [OF sys_step.forgotten [of y now]]) (simp_all add: tracks_simps)
  next
    case (lateTaken late s')
    then show ?thesis using t s by (intro one_step [OF sys_step.lateTaken [of y late s']]) (simp_all add: tracks_simps)
  next
    case (lateWritten as xs bs now io st)
    then show ?thesis using lateWritten_tracked [OF t] by simp
  next
    case (lateRefused as xs bs now io e st)
    then show ?thesis using t by (intro no_step) (simp add: tracks_simps)
  next
    case (lateLost as xs bs)
    then show ?thesis using lateLost_tracked [OF t] by simp
  next
    case (evicted tk)
    then show ?thesis using t by (intro no_step) (simp add: tracks_simps)
  qed
qed

subsection \<open>The store at every moment\<close>

lemma sys_reach_steps: "sys_step\<^sup>*\<^sup>* y y' \<Longrightarrow> sys_reach cfg y \<Longrightarrow> sys_reach cfg y'"
  by (induction rule: rtranclp_induct) (auto intro: sys_reach.next_step)

text \<open>What the daemon holds and what its store holds.\<close>

definition proc_inv :: "config \<Rightarrow> before \<Rightarrow> Config \<Rightarrow> 'c Process \<Rightarrow> System \<Rightarrow> bool" where
  "proc_inv flags base cfg d y \<longleftrightarrow> sys_reach cfg y \<and> tracks d y \<and> (\<forall>sp \<in># prAcked d. codec_ok sp)
     \<and> worldHolds (prWorld d) base (mset (map snd (wdLog (prWorld d)))) flags"

lemma proc_inv_start:
  assumes "New cfg False = Inr smp" "worldHolds (startWorld c st) base {#} flags"
  shows "proc_inv flags base cfg (startProcess c st smp) (initSystem smp)"
  using assms sys_reach.start [OF assms(1)]
  by (simp add: proc_inv_def startProcess_def tracks_simps initSystem_def startWorld_def)

lemma tracked_ok:
  assumes "proc_inv flags base cfg d y"
  shows "(p, v) \<in> set (prRuled d) \<Longrightarrow> sp \<in> set (pSpans p) \<Longrightarrow> codec_ok sp" "xs \<in> set (prLate d) \<Longrightarrow> sp \<in> set xs \<Longrightarrow> codec_ok sp"
proof -
  have inv: "sys_inv y" and t: "tracks d y" and ok: "\<forall>sp \<in># syAccepted y. codec_ok sp"
    using assms sys_reach_inv by (auto simp: proc_inv_def tracks_def)
  show "codec_ok sp" if "(p, v) \<in> set (prRuled d)" "sp \<in> set (pSpans p)"
  proof -
    have "(p, v) \<in># mset (syRuled y)" using t that(1) by (auto simp: tracks_def)
    then have "p \<in> set (inFlight y)" by (force simp: inFlight_def)
    with inFlight_accepted [OF inv this] that(2) ok show ?thesis by blast
  qed
  show "codec_ok sp" if "xs \<in> set (prLate d)" "sp \<in> set xs"
  proof -
    have "xs \<in># mset (syLate y)" using t that(1) by (auto simp: tracks_def)
    with late_accepted [OF inv, of xs] that(2) ok show ?thesis by auto
  qed
qed

lemma wrote_holds:
  assumes "worldHolds w base (mset (map snd (wdLog w))) flags" "in_int64 (time_Unix now)" "\<forall>sp \<in> set spans. codec_ok sp"
    and "store_Write now io spans (wdStore w) = (err, st)"
  shows "worldHolds (wrote now spans (err \<noteq> None) st w) base (mset (map snd (wdLog (wrote now spans (err \<noteq> None) st w)))) flags"
proof -
  have "worldHolds (wrote now spans (err \<noteq> None) st w) base (if err = None then mset (map snd (wdLog w)) + mset spans else mset (map snd (wdLog w))) flags"
    by (rule worldHolds_put [OF assms]) (auto simp: wrote_def)
  then show ?thesis by (simp add: worldHolds_def)
qed

lemma evicted_holds:
  "worldHolds w base xs flags \<Longrightarrow> worldHolds (evictedBy tk w) base xs flags"
  using daemonStore.evicts [of "wdStore w" "fst base @ wdLog w" "snd base @ wdTicks w" tk] daemonStore.same_limit(2)
    on_disk_ops(2) [of "[tk]" "wdStore w"] by (simp add: worldHolds_def evictedBy_def)

lemma exported_codec_ok:
  fixes W :: "('m, 'n, 'q) Wire"
  assumes "fst (Translate (wProto W) (wGetResourceSpans W req)) = spans" "\<forall>sp \<in> set spans. sized sp" "sp \<in> set spans"
  shows "codec_ok sp"
  using requestSpans_codec_ok [of sp W "[Incoming req]"] assms by (simp add: requestSpans_Cons)

lemma proc_step_store:
  assumes "proc_inv flags base cfg d y" "proc_step W d d'"
  shows "(\<forall>sp \<in># prAcked d'. codec_ok sp) \<and> worldHolds (prWorld d') base (mset (map snd (wdLog (prWorld d')))) flags"
proof -
  have ok: "\<forall>sp \<in># prAcked d. codec_ok sp" and w: "worldHolds (prWorld d) base (mset (map snd (wdLog (prWorld d)))) flags"
    using assms(1) by (simp_all add: proc_inv_def)
  from assms(2) show ?thesis
  proof cases
    case (exported req spans now s')
    then show ?thesis using ok w exported_codec_ok [OF exported(2,3)] by auto
  next
    case (written ps p v qs now io err st)
    have "\<forall>sp \<in> set (pSpans p). codec_ok sp" using tracked_ok(1) [OF assms(1)] written(2) by auto
    from wrote_holds [OF w written(4) this written(5)] ok written(1) show ?thesis by simp
  next
    case (lateWritten as xs bs now io st)
    have "\<forall>sp \<in> set xs. codec_ok sp" using tracked_ok(2) [OF assms(1)] lateWritten(2) by auto
    from wrote_holds [OF w lateWritten(3) this lateWritten(4)] ok lateWritten(1) show ?thesis by simp
  next
    case (lateRefused as xs bs now io e st)
    have "\<forall>sp \<in> set xs. codec_ok sp" using tracked_ok(2) [OF assms(1)] lateRefused(2) by auto
    from wrote_holds [OF w lateRefused(3) this lateRefused(4)] ok lateRefused(1) show ?thesis by simp
  next
    case (evicted tk)
    have "wdLog (evictedBy tk (prWorld d)) = wdLog (prWorld d)" by (simp add: evictedBy_def)
    with evicted_holds [OF w, of tk] ok evicted show ?thesis by simp
  qed (use ok w in simp_all)
qed

lemma proc_inv_step:
  assumes "proc_inv flags base cfg d y" "proc_step W d d'"
  shows "\<exists>y'. proc_inv flags base cfg d' y'"
proof -
  obtain y' where "sys_step\<^sup>*\<^sup>* y y'" "tracks d' y'" using daemonSampler.simulates [OF _ assms(2)] assms(1) by (auto simp: proc_inv_def)
  then show ?thesis using proc_step_store [OF assms] sys_reach_steps assms(1) unfolding proc_inv_def by blast
qed

lemma proc_inv_steps:
  assumes "(proc_step W)\<^sup>*\<^sup>* d d'" "proc_inv flags base cfg d y"
  shows "\<exists>y'. proc_inv flags base cfg d' y'"
  using assms by (induction rule: rtranclp_induct) (blast dest: proc_inv_step)+

lemma proc_inv_reads:
  assumes "proc_inv flags base cfg d y"
  shows "(h, sp) \<in> set (wdLog (prWorld d)) \<Longrightarrow> readable (store_Trace (wdStore (prWorld d))) sp \<or> expiredBy (retention flags) (snd base @ wdTicks (prWorld d)) sp"
  using daemonStore.reads [of "wdStore (prWorld d)" "fst base @ wdLog (prWorld d)" "snd base @ wdTicks (prWorld d)" sp] assms
  by (force simp: proc_inv_def worldHolds_def)

text \<open>The spans in the hands of an operation and not yet in the store: of traces taken, of traces with a
  verdict, of traces whose write failed, and late ones.\<close>

definition unwritten :: "'c Process \<Rightarrow> Span multiset" where
  "unwritten d = mset (concat (map pSpans (prReady d @ map fst (prRuled d) @ map fst (filter (\<lambda>(p, v, failed). failed) (prWrote d)))))
     + mset (concat (prLate d @ prLateFailed d))"

lemma wrote_split:
  "mset (concat (map (\<lambda>(p, v, failed). pSpans p) ws))
    = mset (concat (map (\<lambda>(p, v, failed). if failed then [] else pSpans p) ws)) + mset (concat (map pSpans (map fst (filter (\<lambda>(p, v, failed). failed) ws))))"
  by (induction ws) auto

lemma tracks_accounts:
  assumes "tracks d y" "sys_inv y"
  shows "prAcked d = heldBag (prSampler d) + unwritten d + mset (map snd (wdLog (prWorld d))) + syLost y + syDropped y"
proof -
  let ?b = "\<lambda>ps. mset (concat (map pSpans ps))"
  have "mset (syRuled y) = mset (prRuled d @ map (\<lambda>(p, v, failed). (p, v)) (prWrote d))" using assms(1) by (simp add: tracks_def)
  from arg_cong [OF this, of "image_mset fst"]
  have "mset (map fst (syRuled y)) = mset (map fst (prRuled d) @ map fst (prWrote d))"
    by (simp add: multiset.map_comp comp_def case_prod_unfold)
  from spansOf_perm [OF this] have ruled: "?b (map fst (syRuled y)) = ?b (map fst (prRuled d)) + ?b (map fst (prWrote d))"
    by (simp add: Sampler_Inv.spansOf_def)
  have "?b (map fst (prWrote d)) = mset (concat (map (\<lambda>(p, v, failed). pSpans p) (prWrote d)))"
    by (simp add: comp_def case_prod_unfold)
  with wrote_split [of "prWrote d"] have wr: "?b (map fst (prWrote d)) = keptInFlight d + ?b (map fst (filter (\<lambda>(p, v, failed). failed) (prWrote d)))"
    by (simp add: keptInFlight_def)
  have "mset (concat (syLate y)) = mset (concat (prLate d @ prLateFailed d))"
    using assms(1) by (simp add: tracks_def mset_concat flip: sum_mset_sum_list)
  then show ?thesis
    using assms ruled wr by (simp add: sys_inv_def accounted_def tracks_def inFlight_def Sampler_Inv.spansOf_def unwritten_def ac_simps)
qed

subsection \<open>Sessions and restarts\<close>

text \<open>The life of a data directory: sessions of the daemon, with whatever flags but the same retention,
  each ended by a stop at any moment, in the middle of an append too. The log lists what the store
  took in all of them, the ticks all evictions.\<close>

inductive lifetime :: "('m, 'n, 'q) Wire \<Rightarrow> Duration \<Rightarrow> Dir \<Rightarrow> ackLog \<Rightarrow> EvictTick list \<Rightarrow> bool" for W r where
  fresh: "restorable files es \<Longrightarrow> lifetime W r files es []"
| session: "lifetime W r files es tks \<Longrightarrow> samplerConfig cfg = Some (Inr sc) \<Longrightarrow> New sc False = Inr smp \<Longrightarrow> retention cfg = r \<Longrightarrow>
     openStore now now' oio files cfg = Inr (DiskStore d0) \<Longrightarrow> (proc_step W)\<^sup>*\<^sup>* (startProcess () (DiskStore d0) smp) d \<Longrightarrow>
     wdStore (prWorld d) = DiskStore dd \<Longrightarrow> newestOpen dd \<Longrightarrow> leftBy dd files' \<Longrightarrow>
     lifetime W r files' (es @ wdLog (prWorld d)) (tks @ openTick now now' oio # wdTicks (prWorld d))"

text \<open>One session: what was in the directory and what the store took is in what the stop leaves.\<close>

lemma stopped_keeps:
  assumes "diskHolds dd es tks" "newestOpen dd" "leftBy dd files'"
  shows "\<exists>lg. restorable files' lg \<and> (\<forall>(h, sp) \<in> set es. (h, sp) \<in> set lg \<or> agedOut (dRetention dd) tks h)"
  using held_log [OF assms(1) left_restorable [OF _ assms(2,3)]] by blast

lemma proc_inv_disk:
  assumes "proc_inv cfg base sc d y" "wdStore (prWorld d) = DiskStore dd"
  shows "diskHolds dd (fst base @ wdLog (prWorld d)) (snd base @ wdTicks (prWorld d))" "dRetention dd = retention cfg"
  using assms by (simp_all add: proc_inv_def worldHolds_def store_holds_def store_limit_def)

lemma session_inv:
  fixes lg :: ackLog
  assumes "restorable files lg" "New sc False = Inr smp"
    and "openStore now now' oio files cfg = Inr (DiskStore d0)" "(proc_step W)\<^sup>*\<^sup>* (startProcess c (DiskStore d0) smp) d"
  shows "\<exists>tail y. proc_inv cfg (lg @ tail, [openTick now now' oio]) sc d y"
proof -
  have "dataDir cfg \<noteq> []" using assms(3) by (simp add: openStore_def split: if_splits)
  then obtain tail where "worldHolds (startWorld c (DiskStore d0)) (lg @ tail, [openTick now now' oio]) {#} cfg"
    using openStore_holds(3) [OF assms(3,1), of c] by blast
  from proc_inv_steps [OF assms(4) proc_inv_start [OF assms(2) this]] show ?thesis by (rule exI)
qed

lemma session_keeps:
  fixes lg :: ackLog
  assumes "restorable files lg" "New sc False = Inr smp"
    and "openStore now now' oio files cfg = Inr (DiskStore d0)" "(proc_step W)\<^sup>*\<^sup>* (startProcess c (DiskStore d0) smp) d"
    and "wdStore (prWorld d) = DiskStore dd" "newestOpen dd" "leftBy dd files'"
  shows "\<exists>lg'. restorable files' lg' \<and> (\<forall>e \<in> set (lg @ wdLog (prWorld d)).
    e \<in> set lg' \<or> agedOut (retention cfg) (openTick now now' oio # wdTicks (prWorld d)) (fst e))"
proof -
  obtain tail y where "proc_inv cfg (lg @ tail, [openTick now now' oio]) sc d y" using session_inv [OF assms(1-4)] by blast
  note d = proc_inv_disk [OF this assms(5)]
  from stopped_keeps [OF d(1) assms(6,7)] show ?thesis unfolding d(2) by force
qed

lemma lifetime_restorable:
  assumes "lifetime W r files es tks"
  shows "\<exists>lg. restorable files lg \<and> (\<forall>(h, sp) \<in> set es. (h, sp) \<in> set lg \<or> agedOut r tks h)"
  using assms
proof (induction rule: lifetime.induct)
  case (fresh files es)
  then show ?case by (intro exI [of _ es]) auto
next
  case (session files es tks cfg sc smp now now' oio d0 d dd files')
  let ?tks = "openTick now now' oio # wdTicks (prWorld d)"
  obtain lg where lg: "restorable files lg" "\<forall>(h, sp) \<in> set es. (h, sp) \<in> set lg \<or> agedOut r tks h" using session.IH by blast
  obtain lg' where lg': "restorable files' lg'"
    "\<forall>e \<in> set (lg @ wdLog (prWorld d)). e \<in> set lg' \<or> agedOut r ?tks (fst e)"
    using session_keeps [OF lg(1) session.hyps(3,5-9)] session.hyps(4) by blast
  have "agedOut r (tks @ ?tks) h" if "agedOut r tks h \<or> agedOut r ?tks h" for h using that by (auto simp: agedOut_def)
  then have "\<forall>(h, sp) \<in> set (es @ wdLog (prWorld d)). (h, sp) \<in> set lg' \<or> agedOut r (tks @ ?tks) h"
    using lg(2) lg'(2) by fastforce
  then show ?case using lg'(1) by blast
qed

subsection \<open>An example\<close>

lemma New_accepts:
  assumes "New sc False = Inr smp" "int (length spans) \<le> cMaxSpans sc"
  shows "\<exists>s'. acceptLocked now spans smp = (None, s')"
proof (cases "acceptLocked now spans smp")
  case (Pair e s')
  have "e = None"
  proof (rule ccontr)
    assume "e \<noteq> None"
    then obtain x where "acceptLocked now spans smp = (Some x, s')" using Pair by auto
    from acceptLocked_refused(3) [OF this] show False using assms by (simp add: New_ok zeroStats_def)
  qed
  with Pair show ?thesis by simp
qed

lemma example_export:
  assumes "samplerConfig exampleFlags = Some (Inr sc)" "New sc False = Inr smp"
  shows "\<exists>span s'. (proc_step exampleWire)\<^sup>*\<^sup>* (startProcess () st smp) ((startProcess () st smp)\<lparr>prSampler := s', prAcked := {#span#}\<rparr>)"
proof -
  obtain span rejections where t: "Translate (wProto exampleWire) (wGetResourceSpans exampleWire ()) = ([span], rejections)" "sized span"
    using exampleWire_spans by blast
  have buf: "int (length [span]) \<le> cMaxSpans sc" using samplerConfig_buffer [OF assms(1)] by (simp add: exampleFlags_def defaultFlags_def)
  obtain s' where s': "acceptLocked 100 [span] smp = (None, s')" using New_accepts [OF assms(2) buf] by blast
  have "smConfig smp = sc" using assms(2) by (simp add: New_ok)
  with proc_step.exported [of exampleWire "()" "[span]" "startProcess () st smp" 100 s'] t s' buf
  have "proc_step exampleWire (startProcess () st smp) ((startProcess () st smp)\<lparr>prSampler := s', prAcked := {#span#}\<rparr>)"
    by (simp add: startProcess_def)
  then show ?thesis by blast
qed

lemma restorable_disk1: "restorable (dFiles disk1) [(0, span1)]"
  by (rule files_restorable [OF reach_disk1]) (simp add: disk1_seg)

subsection \<open>Properties\<close>

text \<open>C1: nothing acknowledged goes missing, at any moment. (A span can be read back when the trace
  read back has a span with its identifier.) Under every interleaving of exports, sweeps,
  the flush, the calls of the store they make and the evictions, whatever those calls return, each
  acknowledged span is in exactly one place: buffered, in the hands of an operation, taken by the
  store, counted as lost, or dropped by a verdict; the counters say how many, the buffer stays within
  its bound, and every span the store took can be read back unless it was evicted after its
  retention.\<close>

theorem daemon_conserves_spans:
  fixes log :: ackLog
  assumes "samplerConfig cfg = Some (Inr sc)" "New sc False = Inr smp" "openStore now now' oio files cfg = Inr st" "restorable files log"
    and "(proc_step W)\<^sup>*\<^sup>* (startProcess c st smp) d"
  shows "\<exists>lost dropped. prAcked d = heldBag (prSampler d) + unwritten d + mset (map snd (wdLog (prWorld d))) + lost + dropped
    \<and> stAccepted (smStats (prSampler d)) = int (size (prAcked d)) \<and> stLost (smStats (prSampler d)) = int (size lost)
    \<and> stDroppedSpans (smStats (prSampler d)) + stLateDropped (smStats (prSampler d)) = int (size dropped)
    \<and> stBuffered (smStats (prSampler d)) = int (size (heldBag (prSampler d))) \<and> stBuffered (smStats (prSampler d)) \<le> sampleBuffer cfg
    \<and> (\<forall>(h, sp) \<in> set (wdLog (prWorld d)). readable (store_Trace (wdStore (prWorld d))) sp \<or> expiredBy (retention cfg) (wdTicks (prWorld d)) sp)"
proof -
  obtain y where y: "proc_inv cfg ([], []) sc d y"
    using proc_inv_steps [OF assms(5) proc_inv_start [OF assms(2) openStore_holds(1) [OF assms(3,4)]]] by blast
  have inv: "sys_inv y" "smConfig (sySampler y) = sc" and t: "tracks d y"
    using y sys_reach_inv sys_reach_config by (auto simp: proc_inv_def)
  note acc = tracks_accounts [OF t inv(1)]
  have "stAccepted (smStats (prSampler d)) = int (size (prAcked d))" "stLost (smStats (prSampler d)) = int (size (syLost y))"
    "stDroppedSpans (smStats (prSampler d)) + stLateDropped (smStats (prSampler d)) = int (size (syDropped y))"
    "stBuffered (smStats (prSampler d)) = int (size (heldBag (prSampler d)))" "stBuffered (smStats (prSampler d)) \<le> sampleBuffer cfg"
    using inv t samplerConfig_buffer [OF assms(1)]
    by (simp_all add: tracks_def sys_inv_def counted_def Let_def sampler_inv_def holds_ok_def)
  moreover have "\<forall>(h, sp) \<in> set (wdLog (prWorld d)). readable (store_Trace (wdStore (prWorld d))) sp \<or> expiredBy (retention cfg) (wdTicks (prWorld d)) sp"
    using proc_inv_reads [OF y] by auto
  ultimately show ?thesis using acc by (intro exI [of _ "syLost y"] exI [of _ "syDropped y"]) simp
qed

theorem daemon_conserves_spans_witness:
  "\<exists>sc smp st d span lost dropped. samplerConfig exampleFlags = Some (Inr sc) \<and> New sc False = Inr smp
    \<and> openStore 0 0 okOpen fmempty exampleFlags = Inr st \<and> (proc_step exampleWire)\<^sup>*\<^sup>* (startProcess () st smp) d \<and> prAcked d = {#span#}
    \<and> {#span#} = heldBag (prSampler d) + unwritten d + mset (map snd (wdLog (prWorld d))) + lost + dropped
    \<and> stAccepted (smStats (prSampler d)) = 1 \<and> stBuffered (smStats (prSampler d)) \<le> 200000"
proof -
  obtain sc smp where c: "samplerConfig exampleFlags = Some (Inr sc)" "New sc False = Inr smp" using exampleFlags_config by blast
  obtain st where st: "openStore 0 0 okOpen fmempty exampleFlags = Inr st" using exampleFlags_open by blast
  obtain span s' where d: "(proc_step exampleWire)\<^sup>*\<^sup>* (startProcess () st smp) ((startProcess () st smp)\<lparr>prSampler := s', prAcked := {#span#}\<rparr>)"
    using example_export [OF c] by blast
  let ?d = "(startProcess () st smp)\<lparr>prSampler := s', prAcked := {#span#}\<rparr>"
  have a: "prAcked ?d = {#span#}" "sampleBuffer exampleFlags = 200000" by (simp_all add: exampleFlags_def defaultFlags_def)
  obtain lost dropped where "prAcked ?d = heldBag (prSampler ?d) + unwritten ?d + mset (map snd (wdLog (prWorld ?d))) + lost + dropped"
    "stAccepted (smStats (prSampler ?d)) = int (size (prAcked ?d))" "stBuffered (smStats (prSampler ?d)) \<le> sampleBuffer exampleFlags"
    using daemon_conserves_spans [OF c st restorable_empty d] by blast
  then have "{#span#} = heldBag (prSampler ?d) + unwritten ?d + mset (map snd (wdLog (prWorld ?d))) + lost + dropped"
    "stAccepted (smStats (prSampler ?d)) = 1" "stBuffered (smStats (prSampler ?d)) \<le> 200000"
    unfolding a by simp_all
  with c st d a(1) show ?thesis by blast
qed

text \<open>C2: what the store took is durable. A data directory lives through any number of sessions of the
  daemon; in each of them exports, sweeps, writes and evictions interleave, system calls fail, and
  the process stops at any moment, in the middle of an append too, the open segment being the
  newest. Then the store opens again, and can read back every span that any session's store took,
  except those evicted on opening because they ended before the retention window, and those whose
  segment was deleted because its hour lay before the retention window.\<close>

theorem daemon_lifetime_durable:
  assumes "lifetime W (retention cfg) files es tks" "dataDir cfg \<noteq> []" "openOk oio"
  shows "\<exists>d. openStore now now' oio files cfg = Inr (DiskStore d)
    \<and> (\<forall>(h, sp) \<in> set es. readable (store_Trace (DiskStore d)) sp \<or> expiredBy (retention cfg) [openTick now now' oio] sp
        \<or> agedOut (retention cfg) tks h)"
proof -
  obtain lg where lg: "restorable files lg" "\<forall>(h, sp) \<in> set es. (h, sp) \<in> set lg \<or> agedOut (retention cfg) tks h"
    using lifetime_restorable [OF assms(1)] by blast
  obtain d where d: "OpenDisk now now' oio (retention cfg) files = Inr d"
    "\<forall>sp \<in> snd ` set lg. readable (Disk_Trace d) sp \<or> expiredBy (retention cfg) [openTick now now' oio] sp"
    using OpenDisk_restores [OF lg(1) assms(3)] by blast
  have "store_Trace (DiskStore d) = Disk_Trace d" by (simp add: store_Trace_def [abs_def])
  then have "\<forall>(h, sp) \<in> set es. readable (store_Trace (DiskStore d)) sp \<or> expiredBy (retention cfg) [openTick now now' oio] sp
        \<or> agedOut (retention cfg) tks h" using lg(2) d(2) by force
  moreover have "openStore now now' oio files cfg = Inr (DiskStore d)" using d(1) assms(2) by (simp add: openStore_def)
  ultimately show ?thesis by blast
qed

theorem daemon_lifetime_durable_witness:
  "\<exists>files tk d. lifetime exampleWire 0 files [(0, span1)] [tk] \<and> openStore 9 9 okOpen files exampleFlags = Inr (DiskStore d)
    \<and> readable (store_Trace (DiskStore d)) span1"
proof -
  obtain sc smp where c: "samplerConfig exampleFlags = Some (Inr sc)" "New sc False = Inr smp" using exampleFlags_config by blast
  have flags: "retention exampleFlags = 0" "dataDir exampleFlags \<noteq> []" by (simp_all add: exampleFlags_def)
  have fresh: "lifetime exampleWire 0 (dFiles disk1) [(0, span1)] []" by (rule lifetime.fresh [OF restorable_disk1])
  obtain d0 where d0: "OpenDisk 0 0 okOpen 0 (dFiles disk1) = Inr d0" using OpenDisk_restores [OF restorable_disk1 okOpen_ok] by blast
  then have st: "openStore 0 0 okOpen (dFiles disk1) exampleFlags = Inr (DiskStore d0)" using flags by (simp add: openStore_def)
  obtain span s' where d: "(proc_step exampleWire)\<^sup>*\<^sup>* (startProcess () (DiskStore d0) smp) ((startProcess () (DiskStore d0) smp)\<lparr>prSampler := s', prAcked := {#span#}\<rparr>)"
    using example_export [OF c] by blast
  have "newestOpen d0" using OpenDisk_holds [OF restorable_disk1 d0] by (auto simp: newestOpen_def)
  moreover have "leftBy d0 (dFiles d0)" by (simp add: leftBy_def)
  ultimately have life: "lifetime exampleWire 0 (dFiles d0) [(0, span1)] [openTick 0 0 okOpen]"
    using lifetime.session [OF fresh c flags(1) st d, of d0 "dFiles d0"] by (simp add: startProcess_def startWorld_def)
  from daemon_lifetime_durable [OF _ flags(2) okOpen_ok, unfolded flags(1), OF life, of 9 9]
  obtain d where "openStore 9 9 okOpen (dFiles d0) exampleFlags = Inr (DiskStore d)" "readable (store_Trace (DiskStore d)) span1"
    by (auto simp: expiredBy_def agedOut_def)
  with life show ?thesis by blast
qed

end
