(* ===== verification/Spec2Isabelle.thy ===== *)
theory Spec2Isabelle
  imports Memory_Search Disk_Recovery Sampler_Props Daemon_Concurrent
begin

text \<open>
  Spandrel, a tracing backend: a verification development of the Go sources under \<^verbatim>\<open>src/\<close>.

  \<^bold>\<open>The program.\<close> The daemon \<^verbatim>\<open>spandreld\<close> receives spans over gRPC and HTTP (package \<^verbatim>\<open>ingest\<close>),
  translates them from the OpenTelemetry messages (package \<^verbatim>\<open>otlp\<close>) to its own span type (package
  \<^verbatim>\<open>trace\<close>), buffers them per trace in a tail sampler (package \<^verbatim>\<open>sampler\<close>) which assembles every
  finished trace into a tree (package \<^verbatim>\<open>assembly\<close>) and lets policies judge it, and writes the kept
  traces to a store (package \<^verbatim>\<open>storage\<close>): an indexed in-memory store, or the same store in front of
  append-only segment files from which it is rebuilt at start.

  \<^bold>\<open>Conventions\<close> (\<^verbatim>\<open>Spandrel_Prelude\<close>, \<^verbatim>\<open>Go_Strconv\<close>, \<^verbatim>\<open>Go_Binary\<close>, \<^verbatim>\<open>Go_Map\<close>, \<^verbatim>\<open>Go_Float\<close>). Structs are
  records, bytes and fixed-width integers that are encoded or shifted are words, \<^verbatim>\<open>int64\<close> durations
  are integers wrapped or saturated where Go does, instants are integers of nanoseconds since 1970
  (the zero time of Go, in the year 1, is one of them), maps are finite maps visited in an
  order that the theorems leave open or prove irrelevant, errors are values of datatypes, a panic or
  an endless loop is \<open>None\<close>. \<open>Go_Float\<close> is IEEE binary64 with rounding to nearest even, over the
  rationals. The locale \<open>comparator\<close> holds what sorting with a comparison function needs; every
  comparison function of the program interprets it.

  \<^bold>\<open>Identifiers and spans\<close> (\<^verbatim>\<open>Trace_Id\<close>: \<^verbatim>\<open>trace/id.go\<close>; \<^verbatim>\<open>Trace_Span\<close>: \<^verbatim>\<open>trace/value.go\<close>,
  \<^verbatim>\<open>trace/span.go\<close>). Parsing and printing of identifiers invert each other, drawing random
  identifiers returns, the accessors of the tagged union answer for their own kind only.

  \<^bold>\<open>Queries and the in-memory store\<close> (\<^verbatim>\<open>Query\<close>: \<^verbatim>\<open>storage/storage.go\<close>; \<^verbatim>\<open>Memory\<close>, \<^verbatim>\<open>Memory_Inv\<close>,
  \<^verbatim>\<open>Memory_Search\<close>: \<^verbatim>\<open>storage/memory.go\<close>). The record \<open>Memory\<close> has the entries and the four indexes of
  the struct; the locale \<open>trace_index\<close> states what an index promises and is interpreted for the map
  and for the array of duration buckets. \<open>Memory_Inv\<close>: the indexes hold exactly the recorded keys in
  every reachable store, a write refines \<open>upsert\<close> and is all or nothing, eviction is exact.
  \<open>Memory_Search\<close>: \<open>Find\<close> returns exactly the matching traces in order, whatever the iteration order
  of the candidate set, provided that the traces matching a query served by the time index last at
  most a day; and it misses every trace all of whose spans began more than a day before the window.

  \<^bold>\<open>The span codec\<close> (\<^verbatim>\<open>Codec\<close>: \<^verbatim>\<open>storage/codec.go\<close>). The locales \<open>field_reader\<close> and \<open>field_codec\<close> state
  what a reader of one field promises and are interpreted for each field; decoding inverts encoding
  and the encodings are prefix free.

  \<^bold>\<open>The disk store\<close> (\<^verbatim>\<open>Disk_Record\<close>, \<^verbatim>\<open>Disk\<close>, \<^verbatim>\<open>Disk_Durable\<close>, \<^verbatim>\<open>Disk_Recovery\<close>: \<^verbatim>\<open>storage/disk.go\<close>).
  The directory is a map from paths to bytes; the outcome of every system call is a parameter of the
  operation that makes it. In every state reached by writes, evictions, closes and reopenings, with
  any outcomes and over any number of sessions and recovered crashes (\<open>disk_reach\<close>), the files hold
  exactly the acknowledged records, except that the one segment marked dirty by a failed rollback may
  end in bytes of the batch that failed, until the next write cuts them off; after a crash in the middle of an append the store opens with
  every acknowledged span and is such a state again; what a failed rollback or a failed close
  leaves behind is stated too.

  \<^bold>\<open>The contract of a store\<close> (\<^verbatim>\<open>Store_Contract\<close>: the interfaces \<^verbatim>\<open>Store\<close> and \<^verbatim>\<open>store\<close>). The locale \<open>span_store\<close>
  says what the daemon relies on: acknowledged spans can be read back until an eviction comes after
  their retention, a refused write and an eviction change nothing else. It is interpreted for the
  in-memory store, for the disk store, and in \<^verbatim>\<open>Daemon\<close> for the store the flags choose. \<^verbatim>\<open>Store_Restart\<close>:
  what any stop of a session leaves in the directory (a close, a failed append that could not be
  undone, a crash in the middle of one, the segment concerned being the newest) can be opened again,
  and holds every span the store took but for segments deleted because their hour lay before the
  retention window.

  \<^bold>\<open>Assembly\<close> (\<^verbatim>\<open>Assembly\<close>: \<^verbatim>\<open>assembly/assembly.go\<close>; \<^verbatim>\<open>Timing\<close>: \<^verbatim>\<open>assembly/timing.go\<close>; \<^verbatim>\<open>Parent_Graph\<close>,
  \<^verbatim>\<open>Assembly_Tree\<close>, \<^verbatim>\<open>Assembly_Build\<close>, \<^verbatim>\<open>Assembly_Correct\<close>, \<^verbatim>\<open>Assembly_Props\<close>: the proofs). Nodes are
  objects that are mutated through pointers, so a tree carries a heap from span identifiers to
  nodes. \<open>Build\<close> makes a tree of any list of spans of one trace, breaking every cycle of parent links (the
  definition \<open>breakAt\<close> cuts at the earliest span, as the code does; the theorems say that no cycle is
  left, not where it was cut). The result does not depend on map iteration, nor, for spans with
  distinct identifiers, on the order of the spans; of spans with the same identifier the last counts;
  \<open>Walk\<close> visits every node once; \<open>SelfTime\<close> counts the idle nanoseconds; \<open>CriticalPath\<close> covers the span.
  The loops of \<open>breakCycles\<close>, \<open>Walk\<close> and \<open>criticalPath\<close> follow pointers; they get fuel of one more than
  the number of nodes, the number of nodes and the number of nodes, and the theorems show
  that they return a result with it.

  \<^bold>\<open>The sampler\<close> (\<^verbatim>\<open>Policy\<close>: \<^verbatim>\<open>sampler/policy.go\<close>; \<^verbatim>\<open>Sampler\<close>: \<^verbatim>\<open>sampler/sampler.go\<close>). The clock and the
  writer are the record \<open>Env\<close>, a parameter. \<open>Sampler_Inv\<close> proves the invariant for each stretch of
  code that runs under the lock; \<open>Sampler_Steps\<close> makes these stretches the steps of a relation, so
  that its reachable states are those of any interleaving of \<open>Accept\<close>, \<open>Sweep\<close>, \<open>Flush\<close> and writes
  that succeed or fail, with the spans that left the sampler recorded beside it. \<open>Sampler_Run\<close> shows
  that the whole operations return (the locale \<open>policy\<close> says what they need of a policy; the three
  policies interpret it) and are runs of that relation in which the spans that become kept are the
  ones the writer took. \<open>Sampler_Judging\<close> says what they do trace by trace: the ruling on each judged
  trace, the calls of the writer in their order with its answers, and what was counted. In \<open>Run\<close>
  nothing else happens between its sweeps and the flush; the interleavings with \<open>Accept\<close> are runs of
  the step relation. \<open>Sampler_Clean\<close> is the contract with a writer that does not fail (locale
  \<open>clean_writer\<close>). \<open>Sampler_Props\<close>: no span is lost or counted twice, the bounds of buffer, verdicts
  and allowances hold, a sweep judges exactly the due traces and hands the kept ones to the writer,
  late spans follow the verdict, \<open>Run\<close>
  drains.

  \<^bold>\<open>Ingest\<close> (\<^verbatim>\<open>Otlp\<close>: \<^verbatim>\<open>otlp/translate.go\<close>; \<^verbatim>\<open>Ingest\<close>: \<^verbatim>\<open>ingest/sink.go\<close>, \<^verbatim>\<open>ingest/grpc.go\<close>,
  \<^verbatim>\<open>ingest/http.go\<close>). The generated accessors and enumeration values (record \<open>Proto\<close>) and the
  codecs, media types, quoting and decompression (record \<open>Wire\<close>) are parameters. The locale
  \<open>span_sink\<close> is the contract of a sink, interpreted for the recorder and for the sampler. Every span
  of a request is returned or reported once; both transports do the same to the sink.

  \<^bold>\<open>The daemon\<close> (\<^verbatim>\<open>Daemon\<close>, \<^verbatim>\<open>Daemon_Serve\<close>, \<^verbatim>\<open>Daemon_Concurrent\<close>: \<^verbatim>\<open>cmd/spandreld/main.go\<close>). Flags, the
  sampler's settings and policy chain, the start, the eviction loop, the calls of both transports
  through the registered handlers (\<open>serveCall\<close>), serving as a sequence of calls and sweeps that ends
  with the flush (\<open>serveSampled\<close>), and \<open>run\<close>, which closes the store at the end. The parameter \<open>Machine\<close>
  supplies the clock, the outcomes of the system calls, and the evictions between two writes.
  \<open>Daemon_Serve\<close>: whatever the machine does, the spans accepted from the wire are those the store took,
  the lost ones and the dropped ones, as the counters say; with system calls that succeed none is
  lost (the interpretation \<open>workingWriter\<close> of \<open>clean_writer\<close>); a restart finds what the store took; an
  export that outlives the flush is acknowledged and stranded. \<open>Daemon_Concurrent\<close> drops the
  assumption that operations follow one another: \<open>proc_step\<close> interleaves the stretches of all
  goroutines under the sampler's lock with the calls of the store, so that writing a trace and
  settling it are two steps. It refines \<open>Sampler_Steps\<close> (locale \<open>simulation\<close> of \<^verbatim>\<open>Refinement\<close>), keeps the
  contract of the store, and gives conservation of spans at every moment and durability over any
  number of sessions and crashes (\<open>lifetime\<close>). The two critical sections of the disk store's eviction
  are steps of their own there (lemmas \<open>evicts_memory_alone\<close>, \<open>evicts_segments_alone\<close>). That a span can
  be read back (\<open>readable\<close>) means throughout that the trace read back has a span with its identifier:
  a later span with the same identifier replaces it.

  \<^bold>\<open>Not modelled.\<close> Signals, logging, the connections and goroutines inside the gRPC and HTTP servers and
  the health service: they are calls into libraries. Parsing of the command line and of the log
  level, binding of addresses, the matching of paths by \<^verbatim>\<open>http.ServeMux\<close>, the protobuf and JSON codecs,
  gzip, and the file system enter as parameters. After a start that fails, \<open>run\<close> reports the error
  only; the store it closes on the way is not part of its result (a session of \<open>lifetime\<close> with no
  steps is what it leaves on disk). Likewise an \<open>OpenDisk\<close> that fails gives its error, not the directory
  in which it may have cut back the newest segment before. The texts of errors are modelled where a response carries
  them. Fused multiply-add, which Go permits a compiler to use in \<open>refill\<close>, is not considered: every
  operation rounds. \<^verbatim>\<open>trace/doc.go\<close> holds a comment only.
\<close>

end
